(* ===== verification/Prelude.thy ===== *)
theory Prelude
  imports Main "HOL-Library.Word" "HOL-Library.Multiset"
begin

text \<open>
  What every component of the development shares: the machine integers of the
  kernel, the way a Rust panic is represented, the fragment of the Rust core
  library the kernel calls (checked and saturating arithmetic,
  \<open>next_multiple_of\<close>, and the \<open>Vec\<close> and slice operations), with the facts about
  them that the component proofs use.

  Arithmetic is that of the \<open>dev\<close> profile, the one the boot test runs: an
  overflowing \<open>+\<close>, \<open>-\<close> or \<open>*\<close> panics.
\<close>

unbundle bit_operations_syntax

named_theorems rust_arith \<open>characterisations of the checked and saturating operations over \<open>unat\<close>\<close>
named_theorems vec_simps \<open>effect of the \<open>Vec\<close> operations on contents and length\<close>

type_synonym u8 = "8 word"
type_synonym u16 = "16 word"
type_synonym u32 = "32 word"
type_synonym u64 = "64 word"

section \<open>Panics\<close>

text \<open>
  A panic is a value: \<open>Overflow\<close> for an arithmetic overflow, \<open>OutOfBounds\<close> for an
  array index past the end, \<open>Failed m\<close> for an \<open>assert!\<close>, an \<open>expect\<close> or an
  explicit \<open>panic!\<close> with message \<open>m\<close>.
\<close>

datatype panic = Overflow | OutOfBounds | Failed string

type_synonym 'a outcome = "panic + 'a"

definition obind :: "'a outcome \<Rightarrow> ('a \<Rightarrow> 'b outcome) \<Rightarrow> 'b outcome" where
  "obind m f = (case m of Inl e \<Rightarrow> Inl e | Inr x \<Rightarrow> f x)"

lemma obind_simps [simp]:
  "obind (Inl e) f = Inl e"
  "obind (Inr x) f = f x"
  by (simp_all add: obind_def)

lemma obind_eq_Inr: "obind m f = Inr y \<longleftrightarrow> (\<exists>x. m = Inr x \<and> f x = Inr y)"
  by (cases m) auto

lemma obind_cong [fundef_cong]:
  "m = m' \<Longrightarrow> (\<And>x. m' = Inr x \<Longrightarrow> f x = g x) \<Longrightarrow> obind m f = obind m' g"
  by (cases m') auto

definition assert_that :: "bool \<Rightarrow> string \<Rightarrow> unit outcome" where
  "assert_that b msg = (if b then Inr () else Inl (Failed msg))"

lemma assert_that_simps [simp]:
  "b \<Longrightarrow> assert_that b msg = Inr ()"
  "\<not> b \<Longrightarrow> assert_that b msg = Inl (Failed msg)"
  by (simp_all add: assert_that_def)

lemma assert_that_eq_Inr: "assert_that b msg = Inr u \<longleftrightarrow> b"
  by (simp add: assert_that_def)

section \<open>Unsigned arithmetic of the core library\<close>

definition checked_add :: "'a::len word \<Rightarrow> 'a word \<Rightarrow> 'a word option" where
  "checked_add a b = (if unat a + unat b < 2 ^ LENGTH('a) then Some (a + b) else None)"

definition checked_mul :: "'a::len word \<Rightarrow> 'a word \<Rightarrow> 'a word option" where
  "checked_mul a b = (if unat a * unat b < 2 ^ LENGTH('a) then Some (a * b) else None)"

definition saturating_add :: "'a::len word \<Rightarrow> 'a word \<Rightarrow> 'a word" where
  "saturating_add a b = (case checked_add a b of Some c \<Rightarrow> c | None \<Rightarrow> - 1)"

definition saturating_mul :: "'a::len word \<Rightarrow> 'a word \<Rightarrow> 'a word" where
  "saturating_mul a b = (case checked_mul a b of Some c \<Rightarrow> c | None \<Rightarrow> - 1)"

definition saturating_sub :: "'a::len word \<Rightarrow> 'a word \<Rightarrow> 'a word" where
  "saturating_sub a b = (if a < b then 0 else a - b)"

text \<open>The operators \<open>+\<close>, \<open>-\<close> and \<open>*\<close> themselves, which panic on overflow.\<close>

definition add_op :: "'a::len word \<Rightarrow> 'a word \<Rightarrow> 'a word outcome" where
  "add_op a b = (case checked_add a b of Some c \<Rightarrow> Inr c | None \<Rightarrow> Inl Overflow)"

definition sub_op :: "'a::len word \<Rightarrow> 'a word \<Rightarrow> 'a word outcome" where
  "sub_op a b = (if a < b then Inl Overflow else Inr (a - b))"

definition mul_op :: "'a::len word \<Rightarrow> 'a word \<Rightarrow> 'a word outcome" where
  "mul_op a b = (case checked_mul a b of Some c \<Rightarrow> Inr c | None \<Rightarrow> Inl Overflow)"

definition checked_next_multiple_of :: "'a::len word \<Rightarrow> 'a word \<Rightarrow> 'a word option" where
  "checked_next_multiple_of a m =
     (if m = 0 then None
      else if a mod m = 0 then Some a
      else checked_add a (m - a mod m))"

definition next_multiple_of :: "'a::len word \<Rightarrow> 'a word \<Rightarrow> 'a word outcome" where
  "next_multiple_of a m =
     (case checked_next_multiple_of a m of Some c \<Rightarrow> Inr c | None \<Rightarrow> Inl Overflow)"

lemma unat_max_word: "unat (- 1 :: 'a::len word) = 2 ^ LENGTH('a) - 1"
  by (simp add: unsigned_minus_1_eq_mask mask_eq_exp_minus_1)

lemma unat_add_no_overflow:
  "unat (a :: 'a::len word) + unat b < 2 ^ LENGTH('a) \<Longrightarrow> unat (a + b) = unat a + unat b"
  by (simp add: unat_word_ariths)

lemma unat_u64_less: "unat (a :: u64) < 2 ^ 64"
  by (rule order.strict_trans2[OF unsigned_less]) simp

lemma unat_max: "unat (max a b) = max (unat a) (unat b)"
  by (simp add: max_def word_le_nat_alt)

lemma unat_min: "unat (min a b) = min (unat a) (unat b)"
  by (simp add: min_def word_le_nat_alt)

lemma checked_add_eq_Some [rust_arith]:
  "checked_add (a :: 'a::len word) b = Some c \<longleftrightarrow>
     unat a + unat b < 2 ^ LENGTH('a) \<and> unat c = unat a + unat b"
  by (auto simp: checked_add_def unat_add_no_overflow word_unat_eq_iff)

lemma checked_add_eq_None [rust_arith]:
  "checked_add (a :: 'a::len word) b = None \<longleftrightarrow> 2 ^ LENGTH('a) \<le> unat a + unat b"
  by (auto simp: checked_add_def)

lemma checked_mul_eq_Some [rust_arith]:
  "checked_mul (a :: 'a::len word) b = Some c \<longleftrightarrow>
     unat a * unat b < 2 ^ LENGTH('a) \<and> unat c = unat a * unat b"
  by (auto simp: checked_mul_def unat_word_ariths word_unat_eq_iff)

lemma add_op_eq_Inr [rust_arith]:
  "add_op (a :: 'a::len word) b = Inr c \<longleftrightarrow>
     unat a + unat b < 2 ^ LENGTH('a) \<and> unat c = unat a + unat b"
  by (auto simp: add_op_def rust_arith word_unat_eq_iff split: option.splits)

lemma add_op_no_overflow:
  "unat (a :: 'a::len word) + unat b < 2 ^ LENGTH('a) \<Longrightarrow> add_op a b = Inr (a + b)"
  by (simp add: add_op_def checked_add_def)

lemma sub_op_eq_Inr [rust_arith]:
  "sub_op (a :: 'a::len word) b = Inr c \<longleftrightarrow> unat b \<le> unat a \<and> unat c = unat a - unat b"
  by (auto simp: sub_op_def word_less_nat_alt unat_sub_if' word_unat_eq_iff)

lemma unat_saturating_add [rust_arith]:
  "unat (saturating_add (a :: 'a::len word) b) = min (unat a + unat b) (2 ^ LENGTH('a) - 1)"
  by (auto simp: saturating_add_def rust_arith unat_max_word split: option.splits)

lemma unat_saturating_mul [rust_arith]:
  "unat (saturating_mul (a :: 'a::len word) b) = min (unat a * unat b) (2 ^ LENGTH('a) - 1)"
  by (auto simp: saturating_mul_def checked_mul_def unat_max_word unat_word_ariths)

lemma unat_saturating_sub [rust_arith]:
  "unat (saturating_sub (a :: 'a::len word) b) = unat a - unat b"
  by (auto simp: saturating_sub_def word_less_nat_alt unat_sub_if')

text \<open>Rounding up, on natural numbers.\<close>

definition align_up :: "nat \<Rightarrow> nat \<Rightarrow> nat" where
  "align_up n m = (n + m - 1) div m * m"

lemma align_up_dvd [simp]: "m dvd align_up n m"
  by (simp add: align_up_def)

lemma align_up_cases:
  assumes "0 < m"
  shows "align_up n m = (if n mod m = 0 then n else n + (m - n mod m))"
proof (cases "n mod m = 0")
  case True
  then obtain k where n: "n = m * k" by (auto elim: dvdE)
  have "(m * k + m - 1) div m = k" using assms by (intro div_nat_eqI) auto
  then show ?thesis using True by (simp add: align_up_def n)
next
  case False
  define q r where "q = n div m" and "r = n mod m - 1"
  have nm: "n = m * q + Suc r" "Suc r < m"
    using False assms by (simp_all add: q_def r_def)
  then have "n + m - 1 = m * Suc q + r" by simp
  moreover have "(m * Suc q + r) div m = Suc q"
    using nm(2) by (intro div_nat_eqI) auto
  ultimately have "align_up n m = m * q + m" by (simp add: align_up_def)
  moreover have "n mod m = Suc r" using nm by simp
  ultimately show ?thesis using nm by simp
qed

lemma align_up_ge: "0 < m \<Longrightarrow> n \<le> align_up n m"
  by (metis align_up_cases le_add1 order_refl)

lemma align_up_less: "0 < m \<Longrightarrow> align_up n m < n + m"
  by (simp add: align_up_cases)

lemma align_up_id: "m dvd n \<Longrightarrow> 0 < m \<Longrightarrow> align_up n m = n"
  by (simp add: align_up_cases)

lemma checked_next_multiple_of_eq_Some [rust_arith]:
  assumes "0 < m"
  shows "checked_next_multiple_of (a :: 'a::len word) m = Some c \<longleftrightarrow>
     align_up (unat a) (unat m) < 2 ^ LENGTH('a) \<and> unat c = align_up (unat a) (unat m)"
proof -
  have m: "0 < unat m" using assms by (simp add: word_less_nat_alt)
  have "unat (m - a mod m) = unat m - unat a mod unat m"
    using m by (simp add: unat_sub_if' unat_mod less_imp_le)
  moreover have "a mod m = 0 \<longleftrightarrow> unat a mod unat m = 0"
    by (simp add: unat_mod flip: unat_eq_zero)
  ultimately show ?thesis
    using assms m
    by (auto simp: checked_next_multiple_of_def align_up_cases rust_arith word_unat_eq_iff)
qed

lemma checked_next_multiple_of_eq_None [rust_arith]:
  assumes "0 < m"
  shows "checked_next_multiple_of (a :: 'a::len word) m = None \<longleftrightarrow>
     2 ^ LENGTH('a) \<le> align_up (unat a) (unat m)"
proof -
  have "checked_next_multiple_of a m \<noteq> None \<longleftrightarrow> align_up (unat a) (unat m) < 2 ^ LENGTH('a)"
    using checked_next_multiple_of_eq_Some[OF assms, of a]
    by (metis not_None_eq of_nat_inverse)
  then show ?thesis by auto
qed

lemma next_multiple_of_eq_Inr [rust_arith]:
  assumes "0 < m"
  shows "next_multiple_of (a :: 'a::len word) m = Inr c \<longleftrightarrow>
     align_up (unat a) (unat m) < 2 ^ LENGTH('a) \<and> unat c = align_up (unat a) (unat m)"
  using assms by (auto simp: next_multiple_of_def rust_arith word_unat_eq_iff split: option.splits)

section \<open>Single bits\<close>

lemma bit_word_unat: "bit (a::'a::len word) k = odd (unat a div 2 ^ k)"
  by (simp flip: bit_iff_odd add: bit_unsigned_iff)

lemma unat_power_two: "k < LENGTH('a) \<Longrightarrow> unat (2 ^ k :: 'a::len word) = 2 ^ k"
  by (rule of_nat_inverse) simp_all

text \<open>Exclusive-or with one bit adds or takes away the value of that bit.\<close>

lemma unat_xor_bit:
  assumes k: "k < LENGTH('a)"
  shows "unat (a XOR push_bit k 1 :: 'a::len word) =
    (if odd (unat a div 2 ^ k) then unat a - 2 ^ k else unat a + 2 ^ k)"
proof -
  have p: "unat (2 ^ k :: 'a word) = 2 ^ k" using k by (rule unat_power_two)
  show ?thesis
  proof (cases "bit a k")
    case True
    then have "a XOR push_bit k 1 = a - 2 ^ k"
      unfolding flip_bit_eq_xor[symmetric] flip_bit_eq_if by (simp add: unset_bit_eq)
    moreover have "2 ^ k \<le> unat a" using True bit_word_unat[of a k]
      by (metis div_less even_zero not_less)
    ultimately show ?thesis using True p by (simp add: bit_word_unat unat_sub_if')
  next
    case False
    then have e: "even (unat a div 2 ^ k)" by (simp add: bit_word_unat)
    have "a XOR push_bit k 1 = a + 2 ^ k"
      using False unfolding flip_bit_eq_xor[symmetric] flip_bit_eq_if by (simp add: set_bit_eq)
    moreover have "unat a + 2 ^ k < 2 ^ LENGTH('a)"
    proof -
      obtain j where j: "LENGTH('a) = Suc j + k"
        using k by (metis add.commute less_imp_Suc_add add_Suc_right add_Suc)
      have "unat a < 2 ^ Suc j * 2 ^ k"
        by (metis j power_add unsigned_less)
      then have "unat a div 2 ^ k < 2 * 2 ^ j" by (simp add: less_mult_imp_div_less)
      then have "unat a div 2 ^ k + 1 < 2 * 2 ^ j" using e by (auto elim!: evenE)
      then have "(unat a div 2 ^ k + 1) * 2 ^ k + 2 ^ k \<le> 2 * 2 ^ j * 2 ^ k"
        by (metis Suc_eq_plus1 Suc_leI add.commute mult_Suc mult_le_mono1)
      moreover have "unat a < (unat a div 2 ^ k + 1) * 2 ^ k"
        by (metis Suc_eq_plus1 dividend_less_div_times mult_Suc add.commute zero_less_numeral
            zero_less_power)
      ultimately show ?thesis by (simp add: j power_add)
    qed
    ultimately show ?thesis using False p by (simp add: bit_word_unat unat_word_ariths)
  qed
qed

section \<open>Vectors and slices\<close>

definition swap_remove :: "'a list \<Rightarrow> nat \<Rightarrow> 'a list" where
  "swap_remove xs i = butlast (xs[i := last xs])"

fun position :: "('a \<Rightarrow> bool) \<Rightarrow> 'a list \<Rightarrow> nat option" where
  "position p [] = None"
| "position p (x # xs) = (if p x then Some 0 else map_option Suc (position p xs))"

lemma position_eq_None: "position p xs = None \<longleftrightarrow> (\<forall>x\<in>set xs. \<not> p x)"
  by (induction xs) auto

lemma position_eq_Some:
  "position p xs = Some i \<Longrightarrow> i < length xs \<and> p (xs ! i) \<and> (\<forall>j<i. \<not> p (xs ! j))"
proof (induction xs arbitrary: i)
  case (Cons x xs)
  then show ?case
    by (cases i) (auto split: if_splits simp: nth_Cons' less_Suc_eq_0_disj)
qed simp

lemma mset_swap_remove [vec_simps]:
  assumes "i < length xs"
  shows "mset (swap_remove xs i) = mset xs - {#xs ! i#}"
proof -
  have "xs \<noteq> []" using assms by auto
  then obtain ys y where xs: "xs = ys @ [y]" by (metis append_butlast_last_id)
  show ?thesis
  proof (cases "i = length ys")
    case True
    then show ?thesis by (simp add: swap_remove_def xs)
  next
    case False
    then have i: "i < length ys" using assms xs by simp
    then have "swap_remove xs i = ys[i := y]"
      by (simp add: swap_remove_def xs list_update_append butlast_append)
    moreover have "ys ! i \<in># mset ys" using i by simp
    ultimately show ?thesis using i by (simp add: mset_update xs nth_append)
  qed
qed

lemma length_swap_remove [vec_simps]: "i < length xs \<Longrightarrow> length (swap_remove xs i) = length xs - 1"
  by (simp add: swap_remove_def)

lemma mset_position_remove:
  assumes "position p xs = Some i"
  shows "mset xs = add_mset (xs ! i) (mset (swap_remove xs i))"
  using position_eq_Some[OF assms] by (simp add: vec_simps)

lemma mset_butlast_last: "xs \<noteq> [] \<Longrightarrow> mset xs = add_mset (last xs) (mset (butlast xs))"
  by (metis append_butlast_last_id mset_append union_mset_add_mset_right add.right_neutral
      mset.simps)

lemma distinct_iff_count_le_1: "distinct xs \<longleftrightarrow> (\<forall>x. count (mset xs) x \<le> 1)"
proof
  assume le: "\<forall>x. count (mset xs) x \<le> 1"
  have "count (mset xs) x = (if x \<in> set xs then 1 else 0)" for x
  proof (cases "x \<in># mset xs")
    case True
    then have "1 \<le> count (mset xs) x" by simp
    with le True show ?thesis by (metis le_antisym set_mset_mset)
  next
    case False
    then show ?thesis by (simp add: count_eq_zero_iff)
  qed
  then show "distinct xs" by (simp only: distinct_count_atmost_1) blast
qed (simp only: distinct_count_atmost_1, simp)

section \<open>Canonical addresses\<close>

text \<open>The 48-bit addresses of x86-64: bits 63 to 47 are all equal.\<close>

definition canonical :: "u64 \<Rightarrow> bool" where
  "canonical a \<longleftrightarrow> unat a < 2 ^ 47 \<or> 2 ^ 64 - 2 ^ 47 \<le> unat a"

end
