(* ===== verification/Preempt.thy ===== *)
theory Preempt
  imports Prelude
begin

text \<open>
  The preemption table of \<open>kernel/src/preempt.rs\<close>: the saved frame \<open>FullFrame\<close>, the statics the
  timer stub and the driver share, and every function that reads or writes them. The stub
  itself appears here as its effect on the statics, \<open>stub_effect\<close>; the instruction sequence is in
  \<open>Stub\<close>, where it is shown to have this effect. The statics are a record; a table index is a
  natural number, and an index that reaches a machine word is truncated as the source truncates it.
\<close>

definition PREEMPT_MAGIC :: u64 where
  "PREEMPT_MAGIC = 0x505245454D505434"

definition MAX_TASKS :: nat where
  "MAX_TASKS = 7"

definition SPILL_WORDS :: nat where
  "SPILL_WORDS = 15"

definition HW_WORDS :: nat where
  "HW_WORDS = 3"

definition DOWN_WORDS :: nat where
  "DOWN_WORDS = 2"

record FullFrame =
  f_r15 :: u64
  f_r14 :: u64
  f_r13 :: u64
  f_r12 :: u64
  f_r11 :: u64
  f_r10 :: u64
  f_r9 :: u64
  f_r8 :: u64
  f_rdi :: u64
  f_rsi :: u64
  f_rbp :: u64
  f_rbx :: u64
  f_rdx :: u64
  f_rcx :: u64
  f_rax :: u64
  f_rsp :: u64
  f_rip :: u64
  f_cs :: u64
  f_rflags :: u64
  f_magic :: u64

text \<open>The words of a frame in memory order (\<open>repr(C)\<close>).\<close>

definition frame_words :: "FullFrame \<Rightarrow> u64 list" where
  "frame_words f = [f_r15 f, f_r14 f, f_r13 f, f_r12 f, f_r11 f, f_r10 f, f_r9 f, f_r8 f, f_rdi f,
     f_rsi f, f_rbp f, f_rbx f, f_rdx f, f_rcx f, f_rax f, f_rsp f, f_rip f, f_cs f, f_rflags f, f_magic f]"

definition FRAME_STRIDE :: u64 where
  "FRAME_STRIDE = 160"

definition FullFrame_ZERO :: FullFrame where
  "FullFrame_ZERO =
     \<lparr>f_r15 = 0, f_r14 = 0, f_r13 = 0, f_r12 = 0, f_r11 = 0, f_r10 = 0, f_r9 = 0, f_r8 = 0, f_rdi = 0,
      f_rsi = 0, f_rbp = 0, f_rbx = 0, f_rdx = 0, f_rcx = 0, f_rax = 0, f_rsp = 0, f_rip = 0, f_cs = 0,
      f_rflags = 0, f_magic = 0\<rparr>"

text \<open>The constant assertion on the layout: a frame has room for exactly what the stub stores, and is one stride long.\<close>

definition frame_layout :: bool where
  "frame_layout \<longleftrightarrow> 8 * length (frame_words FullFrame_ZERO) = (SPILL_WORDS + DOWN_WORDS + HW_WORDS) * 8"

lemma frame_layout_holds: "frame_layout" "unat FRAME_STRIDE = 8 * length (frame_words f)"
  by (simp_all add: frame_layout_def frame_words_def SPILL_WORDS_def DOWN_WORDS_def HW_WORDS_def FRAME_STRIDE_def)

definition fresh :: "u64 \<Rightarrow> u16 \<Rightarrow> u64 \<Rightarrow> FullFrame outcome" where
  "fresh entry cs stack_top =
     obind (assert_that (stack_top mod 16 = 0) ''fresh preempt frame needs a 16-aligned stack top'') (\<lambda>_.
     obind (sub_op stack_top 8) (\<lambda>rsp.
       Inr (FullFrame_ZERO\<lparr>f_rsp := rsp, f_rip := entry, f_cs := ucast cs, f_rflags := 0x202,
              f_magic := PREEMPT_MAGIC\<rparr>)))"

definition valid_for :: "FullFrame \<Rightarrow> u64 \<Rightarrow> u64 \<Rightarrow> bool" where
  "valid_for f bottom tp =
     (if f_magic f \<noteq> PREEMPT_MAGIC then False
      else if f_rsp f < bottom \<or> f_rsp f > tp then False
      else
        let sign = drop_bit 47 (f_rsp f) AND 1 in
        if sign = 0 \<and> drop_bit 48 (f_rsp f) \<noteq> 0 then False
        else if sign = 1 \<and> drop_bit 48 (f_rsp f) \<noteq> 0xFFFF then False
        else True)"

section \<open>The statics\<close>

record statics =
  PREEMPTIBLE :: u8
  TASK_FRAMES :: "FullFrame list"
  SLOT_BOUNDS :: "(u64 \<times> u64) list"
  PREEMPT_SWITCHES :: u64
  CURRENT_IDX :: u8
  SLOT_USED :: u8
  EOI_BASE :: u64
  APIC_TICKS :: u64

definition statics_boot :: statics where
  "statics_boot =
     \<lparr>PREEMPTIBLE = 0, TASK_FRAMES = replicate MAX_TASKS FullFrame_ZERO,
      SLOT_BOUNDS = replicate MAX_TASKS (0, 0), PREEMPT_SWITCHES = 0, CURRENT_IDX = of_nat MAX_TASKS,
      SLOT_USED = 0, EOI_BASE = 0, APIC_TICKS = 0\<rparr>"

definition set_preemptible :: "bool \<Rightarrow> statics \<Rightarrow> statics" where
  "set_preemptible on p = p\<lparr>PREEMPTIBLE := (if on then 1 else 0)\<rparr>"

definition register_task :: "nat \<Rightarrow> FullFrame \<Rightarrow> statics \<Rightarrow> statics outcome" where
  "register_task idx frame p =
     obind (assert_that (idx < MAX_TASKS) ''preempt: task slot overflow'') (\<lambda>_.
     obind (assert_that (SLOT_USED p AND push_bit idx 1 = 0) ''preempt: slot registered twice'') (\<lambda>_.
       Inr (p\<lparr>TASK_FRAMES := (TASK_FRAMES p)[idx := frame], SLOT_USED := SLOT_USED p OR push_bit idx 1\<rparr>)))"

definition set_slot_bounds :: "nat \<Rightarrow> u64 \<Rightarrow> u64 \<Rightarrow> statics \<Rightarrow> statics outcome" where
  "set_slot_bounds idx bottom tp p =
     obind (assert_that (idx < MAX_TASKS) ''preempt: bounds slot overflow'') (\<lambda>_.
     obind (assert_that (bottom < tp) ''preempt: empty stack window'') (\<lambda>_.
       Inr (p\<lparr>SLOT_BOUNDS := (SLOT_BOUNDS p)[idx := (bottom, tp)]\<rparr>)))"

definition slot_bounds :: "nat \<Rightarrow> statics \<Rightarrow> (u64 \<times> u64) option" where
  "slot_bounds idx p =
     (if MAX_TASKS \<le> idx then None
      else let b = SLOT_BOUNDS p ! idx in if fst b \<noteq> 0 then Some b else None)"

definition snapshot :: "nat \<Rightarrow> statics \<Rightarrow> FullFrame outcome" where
  "snapshot idx p =
     obind (assert_that (idx < MAX_TASKS) ''preempt: snapshot slot out of range'') (\<lambda>_.
       Inr (TASK_FRAMES p ! idx))"

definition frame_ok :: "nat \<Rightarrow> statics \<Rightarrow> bool outcome" where
  "frame_ok idx p =
     (case slot_bounds idx p of
        Some (bottom, tp) \<Rightarrow> obind (snapshot idx p) (\<lambda>f. Inr (valid_for f bottom tp))
      | None \<Rightarrow> Inr False)"

definition unregister_task :: "nat \<Rightarrow> statics \<Rightarrow> statics outcome" where
  "unregister_task idx p =
     obind (assert_that (idx < MAX_TASKS) ''preempt: task slot overflow on release'') (\<lambda>_.
     obind (assert_that (SLOT_USED p AND push_bit idx 1 \<noteq> 0) ''preempt: releasing a slot never registered'') (\<lambda>_.
       Inr (p\<lparr>TASK_FRAMES := (TASK_FRAMES p)[idx := FullFrame_ZERO],
              SLOT_USED := SLOT_USED p AND NOT (push_bit idx 1)\<rparr>)))"

definition set_current :: "nat \<Rightarrow> statics \<Rightarrow> statics" where
  "set_current idx p = p\<lparr>CURRENT_IDX := of_nat idx\<rparr>"

definition current_idx :: "statics \<Rightarrow> nat" where
  "current_idx p = unat (CURRENT_IDX p)"

definition set_eoi_base :: "u64 \<Rightarrow> statics \<Rightarrow> statics" where
  "set_eoi_base addr p = p\<lparr>EOI_BASE := addr\<rparr>"

section \<open>The effect of the timer stub on the statics\<close>

text \<open>
  \<open>yankable\<close> is the condition under which the stub stores the interrupted frame \<open>f\<close>; the tick
  count moves in every case (both counters wrap, as \<open>lock inc\<close> does).
\<close>

definition yankable :: "statics \<Rightarrow> bool" where
  "yankable p \<longleftrightarrow> PREEMPTIBLE p \<noteq> 0 \<and> current_idx p < MAX_TASKS \<and> bit (SLOT_USED p) (current_idx p)"

definition stub_effect :: "FullFrame \<Rightarrow> statics \<Rightarrow> statics" where
  "stub_effect f p =
     (let p = p\<lparr>APIC_TICKS := APIC_TICKS p + 1\<rparr> in
      if yankable p
      then p\<lparr>PREEMPT_SWITCHES := PREEMPT_SWITCHES p + 1,
             TASK_FRAMES := (TASK_FRAMES p)[current_idx p := f\<lparr>f_magic := PREEMPT_MAGIC\<rparr>]\<rparr>
      else p)"

section \<open>Occupancy of the slots\<close>

definition slots_in_use :: "statics \<Rightarrow> nat set" where
  "slots_in_use p = {i. i < MAX_TASKS \<and> bit (SLOT_USED p) i}"

definition table_ok :: "statics \<Rightarrow> bool" where
  "table_ok p \<longleftrightarrow> length (TASK_FRAMES p) = MAX_TASKS \<and> length (SLOT_BOUNDS p) = MAX_TASKS"

lemmas slot_bit = and_exp_eq_0_iff_not_bit[where 'a = u8]

lemma drop_bit_47: "drop_bit 47 a AND 1 = (if odd (unat a div 2 ^ 47) then 1 else (0 :: u64))"
proof -
  have "drop_bit 47 a AND 1 = of_bool (odd (drop_bit 47 a))" by (simp add: and_one_eq mod_2_eq_odd)
  moreover have "odd (drop_bit 47 a) = odd (unat a div 2 ^ 47)"
    using bit_iff_odd_drop_bit[of a 47] bit_word_unat[of a 47] by simp
  ultimately show ?thesis by simp
qed

lemma valid_for_iff:
  "valid_for f bottom tp \<longleftrightarrow>
     f_magic f = PREEMPT_MAGIC \<and> bottom \<le> f_rsp f \<and> f_rsp f \<le> tp \<and> canonical (f_rsp f)"
proof -
  let ?n = "unat (f_rsp f)"
  have "unat (drop_bit 48 (f_rsp f)) = ?n div 2 ^ 48"
    by (simp add: drop_bit_eq_div unat_div)
  then have hi: "drop_bit 48 (f_rsp f) = 0 \<longleftrightarrow> ?n div 2 ^ 48 = 0"
      "drop_bit 48 (f_rsp f) = 0xFFFF \<longleftrightarrow> ?n div 2 ^ 48 = 0xFFFF"
    by (simp_all add: word_unat_eq_iff)
  have n: "?n < 2 ^ 64" by (rule unat_u64_less)
  have "canonical (f_rsp f) \<longleftrightarrow>
      (if odd (?n div 2 ^ 47) then ?n div 2 ^ 48 = 0xFFFF else ?n div 2 ^ 48 = 0)"
  proof -
    have "?n div 2 ^ 48 = ?n div 2 ^ 47 div 2" by (simp add: div_mult2_eq[symmetric])
    moreover have "?n < 2 ^ 47 \<longleftrightarrow> ?n div 2 ^ 47 = 0" by (simp add: div_eq_0_iff)
    moreover have "2 ^ 64 - 2 ^ 47 \<le> ?n \<longleftrightarrow> ?n div 2 ^ 47 = 131071" using n by auto
    moreover have "(q = 0 \<or> q = 131071) = (if odd q then q div 2 = 65535 else q div 2 = 0)" for q :: nat
      by presburger
    ultimately show ?thesis unfolding canonical_def by simp
  qed
  then show ?thesis by (auto simp: valid_for_def drop_bit_47 hi Let_def not_less)
qed

text \<open>Claiming and releasing a slot.\<close>

lemma register_task_spec:
  assumes "table_ok p" "i < MAX_TASKS" "i \<notin> slots_in_use p"
  shows "\<exists>p'. register_task i f p = Inr p' \<and> slots_in_use p' = insert i (slots_in_use p) \<and> table_ok p' \<and>
    TASK_FRAMES p' = (TASK_FRAMES p)[i := f] \<and> SLOT_BOUNDS p' = SLOT_BOUNDS p \<and>
    PREEMPTIBLE p' = PREEMPTIBLE p \<and> CURRENT_IDX p' = CURRENT_IDX p \<and> APIC_TICKS p' = APIC_TICKS p \<and>
    PREEMPT_SWITCHES p' = PREEMPT_SWITCHES p \<and> EOI_BASE p' = EOI_BASE p"
  using assms
  by (auto simp: register_task_def slot_bit slots_in_use_def table_ok_def bit_simps MAX_TASKS_def bit_exp_iff)

lemma unregister_task_spec:
  assumes "table_ok p" "i \<in> slots_in_use p"
  shows "\<exists>p'. unregister_task i p = Inr p' \<and> slots_in_use p' = slots_in_use p - {i} \<and> table_ok p' \<and>
    TASK_FRAMES p' = (TASK_FRAMES p)[i := FullFrame_ZERO] \<and> SLOT_BOUNDS p' = SLOT_BOUNDS p \<and>
    PREEMPTIBLE p' = PREEMPTIBLE p \<and> CURRENT_IDX p' = CURRENT_IDX p \<and> APIC_TICKS p' = APIC_TICKS p \<and>
    PREEMPT_SWITCHES p' = PREEMPT_SWITCHES p \<and> EOI_BASE p' = EOI_BASE p"
  using assms
  by (auto simp: unregister_task_def slot_bit slots_in_use_def table_ok_def bit_simps MAX_TASKS_def bit_exp_iff)

lemma frame_ok_eq:
  assumes "table_ok p"
  shows "frame_ok i p = Inr (i < MAX_TASKS \<and> fst (SLOT_BOUNDS p ! i) \<noteq> 0 \<and>
     valid_for (TASK_FRAMES p ! i) (fst (SLOT_BOUNDS p ! i)) (snd (SLOT_BOUNDS p ! i)))"
  using assms by (auto simp: frame_ok_def slot_bounds_def snapshot_def Let_def split: prod.split)

lemma valid_for_ZERO: "\<not> valid_for FullFrame_ZERO bottom tp"
  by (simp add: valid_for_def FullFrame_ZERO_def PREEMPT_MAGIC_def)

text \<open>A fresh frame passes its own validation and has the parity of a function entry.\<close>

lemma fresh_spec:
  assumes "16 dvd unat tp" "8 \<le> unat tp" "bottom \<le> tp - 8" "canonical (tp - 8)"
  shows "\<exists>f. fresh entry cs tp = Inr f \<and> valid_for f bottom tp \<and> f_rsp f = tp - 8 \<and> f_rip f = entry \<and>
     f_rsp f mod 16 = 8 \<and> f_rflags f = 0x202 \<and> f_cs f = ucast cs"
proof -
  have sub: "unat (tp - 8) = unat tp - 8" using assms(2) by (subst unat_sub) (simp_all add: word_le_nat_alt)
  obtain q where q: "unat tp = 16 * q" using assms(1) by (elim dvdE)
  then have "16 * q - 8 = 16 * (q - 1) + 8" using assms(2) by (cases q) simp_all
  then have "unat (tp - 8) mod 16 = 8" using sub q by simp
  then have "(tp - 8) mod 16 = 8" by (simp add: word_unat_eq_iff unat_mod)
  moreover have "sub_op tp 8 = Inr (tp - 8)" using assms(2) by (simp add: rust_arith sub)
  moreover have "tp - 8 \<le> tp" using sub by (simp add: word_le_nat_alt)
  moreover have "tp mod 16 = 0" using q by (simp add: word_unat_eq_iff unat_mod)
  ultimately show ?thesis using assms(3,4) by (simp add: fresh_def valid_for_iff)
qed

text \<open>What a timer interrupt can change: the two counters and the frame of the running slot.\<close>

lemma stub_effect_simps [simp]:
  "PREEMPTIBLE (stub_effect f p) = PREEMPTIBLE p" "CURRENT_IDX (stub_effect f p) = CURRENT_IDX p"
  "SLOT_USED (stub_effect f p) = SLOT_USED p" "SLOT_BOUNDS (stub_effect f p) = SLOT_BOUNDS p"
  "EOI_BASE (stub_effect f p) = EOI_BASE p" "APIC_TICKS (stub_effect f p) = APIC_TICKS p + 1"
  "current_idx (stub_effect f p) = current_idx p" "slots_in_use (stub_effect f p) = slots_in_use p"
  "length (TASK_FRAMES (stub_effect f p)) = length (TASK_FRAMES p)"
  by (simp_all add: stub_effect_def Let_def current_idx_def slots_in_use_def)

lemma stub_effect_table_ok [simp]: "table_ok (stub_effect f p) = table_ok p"
  by (simp add: table_ok_def)

lemma stub_effect_frames:
  "TASK_FRAMES (stub_effect f p) =
     (if yankable p then (TASK_FRAMES p)[current_idx p := f\<lparr>f_magic := PREEMPT_MAGIC\<rparr>] else TASK_FRAMES p)"
  by (simp add: stub_effect_def Let_def yankable_def current_idx_def)

lemma stub_effect_other: "i \<noteq> current_idx p \<Longrightarrow> TASK_FRAMES (stub_effect f p) ! i = TASK_FRAMES p ! i"
  by (simp add: stub_effect_frames)

section \<open>The table over time\<close>

text \<open>Everything that ever happens to the statics: the functions of the module, and a timer interrupt at any point between them.\<close>

inductive table_step :: "statics \<Rightarrow> statics \<Rightarrow> bool" where
  register: "register_task i f p = Inr p' \<Longrightarrow> table_step p p'"
| bounds: "set_slot_bounds i bottom tp p = Inr p' \<Longrightarrow> table_step p p'"
| release: "unregister_task i p = Inr p' \<Longrightarrow> table_step p p'"
| current: "table_step p (set_current i p)"
| fence: "table_step p (set_preemptible on p)"
| eoi: "table_step p (set_eoi_base a p)"
| tick: "table_step p (stub_effect f p)"

definition table_typed :: "statics \<Rightarrow> bool" where
  "table_typed p \<longleftrightarrow> table_ok p \<and> PREEMPTIBLE p \<in> {0, 1} \<and> (\<forall>i\<ge>MAX_TASKS. \<not> bit (SLOT_USED p) i) \<and>
     (\<forall>i<MAX_TASKS. bit (SLOT_USED p) i \<or> TASK_FRAMES p ! i = FullFrame_ZERO)"

lemma table_typed_boot: "table_typed statics_boot"
  by (simp add: table_typed_def statics_boot_def table_ok_def)

lemma table_step_typed: "table_step p p' \<Longrightarrow> table_typed p \<Longrightarrow> table_typed p'"
proof (induction rule: table_step.induct)
  case (register i f p p')
  then show ?case
    by (auto simp: register_task_def obind_eq_Inr assert_that_eq_Inr table_typed_def table_ok_def bit_simps nth_list_update
        MAX_TASKS_def split: if_splits)
next
  case (bounds i bottom tp p p')
  then show ?case by (auto simp: set_slot_bounds_def obind_eq_Inr table_typed_def table_ok_def)
next
  case (release i p p')
  then show ?case
    by (auto simp: unregister_task_def obind_eq_Inr assert_that_eq_Inr table_typed_def table_ok_def bit_simps nth_list_update
        MAX_TASKS_def split: if_splits)
next
  case (tick p f)
  then show ?case by (auto simp: table_typed_def stub_effect_frames yankable_def nth_list_update table_ok_def)
qed (simp_all add: table_typed_def table_ok_def set_current_def set_preemptible_def set_eoi_base_def)

lemma free_slot_refused: "table_typed p \<Longrightarrow> i \<notin> slots_in_use p \<Longrightarrow> frame_ok i p = Inr False"
  by (auto simp: table_typed_def frame_ok_eq slots_in_use_def valid_for_ZERO)

text \<open>
  C17. The frame table stays well formed: whatever is registered, released, fenced or interrupted, in any order, from the initial statics
  on, both tables keep one entry per slot, the fence is a boolean and no bit outside the table is set in the occupancy mask. A slot that
  is free holds no frame that passes validation, although the bounds of its last owner are still there, and a timer
  interrupt can never store one there.
\<close>

theorem table_well_formed:
  assumes "rtranclp table_step statics_boot p"
  shows "length (TASK_FRAMES p) = MAX_TASKS \<and> length (SLOT_BOUNDS p) = MAX_TASKS \<and> PREEMPTIBLE p \<in> {0, 1} \<and> unat (SLOT_USED p) < 2 ^ MAX_TASKS \<and>
     (\<forall>i f. i \<notin> slots_in_use p \<longrightarrow> frame_ok i p = Inr False \<and> frame_ok i (stub_effect f p) = Inr False)"
proof -
  have typed: "table_typed p" using assms by (induction rule: rtranclp_induct) (auto intro: table_typed_boot table_step_typed)
  then have "table_typed (stub_effect f p)" for f by (rule table_step_typed[OF table_step.tick])
  then have "frame_ok i (stub_effect f p) = Inr False" if "i \<notin> slots_in_use p" for i f
    using free_slot_refused[of "stub_effect f p" i] that by simp
  moreover have "unat (SLOT_USED p) < 2 ^ MAX_TASKS"
  proof -
    have "take_bit MAX_TASKS (SLOT_USED p) = SLOT_USED p" using typed by (intro bit_eqI) (auto simp: bit_take_bit_iff table_typed_def not_less[symmetric])
    then show ?thesis by (metis unsigned_take_bit_eq take_bit_nat_less_exp)
  qed
  ultimately show ?thesis using typed free_slot_refused[OF typed] by (simp add: table_typed_def table_ok_def)
qed

theorem table_well_formed_witness:
  "\<exists>p. rtranclp table_step statics_boot p \<and> slot_bounds 2 p = Some (0x1000, 0x2000) \<and> frame_ok 2 p = Inr False"
proof -
  define f where "f = FullFrame_ZERO\<lparr>f_rsp := 0x1800\<rparr>"
  define p1 where "p1 = statics_boot\<lparr>TASK_FRAMES := (TASK_FRAMES statics_boot)[2 := f], SLOT_USED := 4\<rparr>"
  define p2 where "p2 = p1\<lparr>SLOT_BOUNDS := (SLOT_BOUNDS p1)[2 := (0x1000, 0x2000)]\<rparr>"
  define p3 where "p3 = set_current 2 (set_preemptible True p2)"
  have "register_task 2 f statics_boot = Inr p1" by (simp add: register_task_def p1_def MAX_TASKS_def statics_boot_def)
  moreover have "set_slot_bounds 2 0x1000 0x2000 p1 = Inr p2" by (simp add: set_slot_bounds_def MAX_TASKS_def p2_def)
  ultimately have "table_step statics_boot p1" "table_step p1 p2" "table_step p2 (set_preemptible True p2)"
      "table_step (set_preemptible True p2) p3" "table_step p3 (stub_effect f p3)"
    unfolding p3_def by (auto intro: table_step.intros)
  then have run: "rtranclp table_step statics_boot (stub_effect f p3)" by (meson rtranclp.rtrancl_into_rtrancl rtranclp.rtrancl_refl)
  have "bit (4 :: u8) i \<longleftrightarrow> i = 2" for i using bit_exp_iff[where 'a = u8, of 2 i] by auto
  then have "2 \<in> slots_in_use (stub_effect f p3)"
    by (simp add: slots_in_use_def p3_def p2_def p1_def set_current_def set_preemptible_def MAX_TASKS_def)
  moreover have "table_ok (stub_effect f p3)" using table_well_formed[OF run] by (simp add: table_ok_def)
  ultimately obtain p where p: "unregister_task 2 (stub_effect f p3) = Inr p" "slots_in_use p = slots_in_use (stub_effect f p3) - {2}"
      "SLOT_BOUNDS p = SLOT_BOUNDS (stub_effect f p3)"
    using unregister_task_spec[of "stub_effect f p3" 2] by (elim meta_impE exE conjE)
  have step: "rtranclp table_step statics_boot p" by (rule rtranclp.rtrancl_into_rtrancl[OF run table_step.release[OF p(1)]])
  have "slot_bounds 2 p = Some (0x1000, 0x2000)"
    by (simp add: slot_bounds_def p(3) MAX_TASKS_def p3_def p2_def p1_def set_current_def set_preemptible_def statics_boot_def)
  moreover have "2 \<notin> slots_in_use p" using p(2) by simp
  then have "frame_ok 2 p = Inr False" using table_well_formed[OF step] by blast
  ultimately show ?thesis using step by blast
qed

end
