(* ===== verification/Serial.thy ===== *)
theory Serial
  imports Prelude
begin

text \<open>
  \<open>kernel/src/serial.rs\<close>: the polling driver of COM1 and the printing on top of it. A port write is an entry of a log. The
  reads of the line status register are a sequence, the \<open>n\<close>-th read returning \<open>lsr n\<close>, since the
  register changes behind the driver's back; the state of the driver is the number of reads so far and the log. The
  busy-wait of \<open>write_byte\<close> need not end, so it is a partial function and not returning is \<open>None\<close>.
\<close>

type_synonym port_log = "(u16 \<times> u8) list"

definition COM1 :: u16 where
  "COM1 = 0x3F8"

definition serial_init :: "port_log \<Rightarrow> port_log" where
  "serial_init log = log @
     [(COM1 + 1, 0x00),
      (COM1 + 3, 0x80),
      (COM1, 0x01),
      (COM1 + 1, 0x00),
      (COM1 + 3, 0x03),
      (COM1 + 2, 0xC7),
      (COM1 + 4, 0x0B)]"

partial_function (option) write_byte :: "(nat \<Rightarrow> u8) \<Rightarrow> u8 \<Rightarrow> nat \<Rightarrow> port_log \<Rightarrow> (nat \<times> port_log) option" where
  "write_byte lsr b n log =
     (if lsr n AND 0x20 = 0 then write_byte lsr b (n + 1) log
      else Some (n + 1, log @ [(COM1, b)]))"

text \<open>The bytes of the string, each newline preceded by a carriage return.\<close>

fun write_str :: "(nat \<Rightarrow> u8) \<Rightarrow> u8 list \<Rightarrow> nat \<Rightarrow> port_log \<Rightarrow> (nat \<times> port_log) option" where
  "write_str lsr [] n log = Some (n, log)"
| "write_str lsr (b # bs) n log =
     Option.bind (if b = 10 then write_byte lsr 13 n log else Some (n, log)) (\<lambda>(n, log).
     Option.bind (write_byte lsr b n log) (\<lambda>(n, log). write_str lsr bs n log))"

text \<open>
  \<open>_print\<close> and the macros. The \<open>Arguments\<close> of a format are the strings that formatting feeds to \<open>write_str\<close> of the sink, one after
  the other; \<open>write_fmt\<close> stops at the first error of the sink. The macro with a newline puts it at the end of the format string.
\<close>

type_synonym Arguments = "u8 list list"

definition sink_write_str :: "(nat \<Rightarrow> u8) \<Rightarrow> u8 list \<Rightarrow> nat \<Rightarrow> port_log \<Rightarrow> ((unit + unit) \<times> nat \<times> port_log) option" where
  "sink_write_str lsr s n log = Option.bind (write_str lsr s n log) (\<lambda>(n, log). Some (Inr (), n, log))"

fun write_fmt :: "(nat \<Rightarrow> u8) \<Rightarrow> Arguments \<Rightarrow> nat \<Rightarrow> port_log \<Rightarrow> ((unit + unit) \<times> nat \<times> port_log) option" where
  "write_fmt lsr [] n log = Some (Inr (), n, log)"
| "write_fmt lsr (s # args) n log =
     Option.bind (sink_write_str lsr s n log) (\<lambda>(r, n, log).
       case r of Inl e \<Rightarrow> Some (Inl e, n, log) | Inr _ \<Rightarrow> write_fmt lsr args n log)"

definition serial_print :: "(nat \<Rightarrow> u8) \<Rightarrow> Arguments \<Rightarrow> nat \<Rightarrow> port_log \<Rightarrow> (nat \<times> port_log) outcome option" where
  "serial_print lsr args n log =
     Option.bind (write_fmt lsr args n log) (\<lambda>(r, n, log).
       Some (case r of Inl _ \<Rightarrow> Inl (Failed ''serial write failed'') | Inr _ \<Rightarrow> Inr (n, log)))"

definition serial_println :: "(nat \<Rightarrow> u8) \<Rightarrow> Arguments \<Rightarrow> nat \<Rightarrow> port_log \<Rightarrow> (nat \<times> port_log) outcome option" where
  "serial_println lsr args n log = serial_print lsr (args @ [[10]]) n log"

section \<open>The busy-wait\<close>

abbreviation ready_at :: "(nat \<Rightarrow> u8) \<Rightarrow> nat \<Rightarrow> bool" where
  "ready_at lsr m \<equiv> lsr m AND 0x20 \<noteq> 0"

lemma write_byte_ready: "ready_at lsr m \<Longrightarrow> n \<le> m \<Longrightarrow> \<exists>n'. write_byte lsr b n log = Some (n', log @ [(COM1, b)])"
proof (induction "m - n" arbitrary: n)
  case 0
  then show ?case by (subst write_byte.simps) auto
next
  case (Suc k)
  show ?case
  proof (cases "ready_at lsr n")
    case False
    then have "write_byte lsr b n log = write_byte lsr b (n + 1) log" by (subst write_byte.simps) simp
    then show ?thesis using Suc.hyps(1)[of "n + 1"] Suc.hyps(2) Suc.prems by auto
  qed (subst write_byte.simps, auto)
qed

lemma write_byte_returns:
  assumes "write_byte lsr b n log = Some r"
  shows "\<exists>m\<ge>n. ready_at lsr m"
proof (rule write_byte.raw_induct[where P = "\<lambda>lsr b n log r. \<exists>m\<ge>n. ready_at lsr m", OF _ assms])
  fix wb and lsr :: "nat \<Rightarrow> u8" and b n log r
  assume ih: "\<And>lsr b n log r. wb lsr b n log = Some r \<Longrightarrow> \<exists>m\<ge>n. ready_at lsr m"
    and step: "(if lsr n AND 0x20 = 0 then wb lsr b (n + 1) log else Some (n + 1, log @ [(COM1, b)])) = Some r"
  show "\<exists>m\<ge>n. ready_at lsr m"
  proof (cases "ready_at lsr n")
    case False
    then have "wb lsr b (n + 1) log = Some r" using step by simp
    from ih[OF this] obtain m where "n + 1 \<le> m" "ready_at lsr m" by (elim exE conjE)
    then show ?thesis by (intro exI[of _ m]) simp
  qed (intro exI[of _ n], simp)
qed

text \<open>What reaches the wire.\<close>

definition crlf :: "u8 list \<Rightarrow> u8 list" where
  "crlf bs = concat (map (\<lambda>b. if b = 10 then [13, b] else [b]) bs)"

lemma write_str_delivers:
  assumes ready: "\<forall>n. \<exists>m\<ge>n. ready_at lsr m"
  shows "\<exists>n'. write_str lsr bs n log = Some (n', log @ map (Pair COM1) (crlf bs))"
proof (induction bs arbitrary: n log)
  case Nil
  then show ?case by (simp add: crlf_def)
next
  case (Cons b bs)
  have byte: "\<exists>n'. write_byte lsr c n log = Some (n', log @ [(COM1, c)])" for c n log
    using ready write_byte_ready by blast
  obtain n1 where n1: "(if b = 10 then write_byte lsr 13 n log else Some (n, log)) =
      Some (n1, log @ (if b = 10 then [(COM1, 13)] else []))"
    using byte[of 13 n log] by (cases "b = 10") auto
  obtain n2 where n2: "write_byte lsr b n1 (log @ (if b = 10 then [(COM1, 13)] else [])) =
      Some (n2, (log @ (if b = 10 then [(COM1, 13)] else [])) @ [(COM1, b)])"
    using byte by blast
  obtain n3 where "write_str lsr bs n2 ((log @ (if b = 10 then [(COM1, 13)] else [])) @ [(COM1, b)]) =
      Some (n3, ((log @ (if b = 10 then [(COM1, 13)] else [])) @ [(COM1, b)]) @ map (Pair COM1) (crlf bs))"
    using Cons.IH by blast
  then show ?case using n1 n2 by (auto simp: crlf_def)
qed

lemma crlf_append: "crlf (bs @ cs) = crlf bs @ crlf cs"
  by (simp add: crlf_def)

lemma serial_print_delivers:
  assumes ready: "\<forall>n. \<exists>m\<ge>n. ready_at lsr m"
  shows "\<exists>n'. serial_print lsr args n log = Some (Inr (n', log @ map (Pair COM1) (crlf (concat args))))"
proof -
  have "\<exists>n'. write_fmt lsr args n log = Some (Inr (), n', log @ map (Pair COM1) (crlf (concat args)))"
  proof (induction args arbitrary: n log)
    case (Cons s args)
    obtain n1 where n1: "write_str lsr s n log = Some (n1, log @ map (Pair COM1) (crlf s))" using write_str_delivers[OF ready] by blast
    obtain n2 where "write_fmt lsr args n1 (log @ map (Pair COM1) (crlf s)) =
        Some (Inr (), n2, (log @ map (Pair COM1) (crlf s)) @ map (Pair COM1) (crlf (concat args)))" using Cons.IH by blast
    then show ?case using n1 by (simp add: sink_write_str_def crlf_append)
  qed (simp add: crlf_def)
  then show ?thesis by (auto simp: serial_print_def)
qed

section \<open>The device\<close>

text \<open>
  The 16550 as its data sheet describes the write side: while the divisor latch bit of the line control register is set,
  ports 0 and 1 are the divisor, otherwise the transmit register and the interrupt enable register.
\<close>

record uart =
  dll :: u8
  dlm :: u8
  ier :: u8
  lcr :: u8
  fcr :: u8
  mcr :: u8
  sent :: "u8 list"

fun uart_write :: "u16 \<times> u8 \<Rightarrow> uart \<Rightarrow> uart" where
  "uart_write (p, v) u =
     (if p = COM1 then (if bit (lcr u) 7 then u\<lparr>dll := v\<rparr> else u\<lparr>sent := sent u @ [v]\<rparr>)
      else if p = COM1 + 1 then (if bit (lcr u) 7 then u\<lparr>dlm := v\<rparr> else u\<lparr>ier := v\<rparr>)
      else if p = COM1 + 2 then u\<lparr>fcr := v\<rparr>
      else if p = COM1 + 3 then u\<lparr>lcr := v\<rparr>
      else if p = COM1 + 4 then u\<lparr>mcr := v\<rparr>
      else u)"

lemma uart_sends: "\<not> bit (lcr u) 7 \<Longrightarrow> fold uart_write (map (Pair COM1) bs) u = u\<lparr>sent := sent u @ bs\<rparr>"
  by (induction bs arbitrary: u) simp_all

lemma serial_init_uart:
  assumes "\<not> bit (lcr u) 7"
  shows "fold uart_write (serial_init []) u = u\<lparr>ier := 0, dll := 1, dlm := 0, lcr := 3, fcr := 0xC7, mcr := 0x0B\<rparr>"
proof -
  have "bit (0x80 :: u8) 7" "\<not> bit (3 :: u8) 7" by (simp_all add: bit_numeral_rec)
  then show ?thesis using assms by (simp add: serial_init_def COM1_def)
qed

text \<open>
  C35. Serial output arrives: once \<open>serial::init\<close> has run on a UART outside divisor access, and as long as the transmitter becomes
  ready again and again, \<open>serial_println!\<close> returns for every format, its \<open>expect\<close> never fires, and the UART has sent exactly the formatted
  bytes and a newline, with a carriage return before every newline, at divisor 1 with eight data bits, and its interrupts stay off.
\<close>

theorem serial_delivers:
  assumes "\<forall>n. \<exists>m\<ge>n. lsr m AND 0x20 \<noteq> 0" "\<not> bit (lcr u) 7"
  shows "\<exists>n' log. serial_println lsr args n (serial_init []) = Some (Inr (n', log)) \<and>
     sent (fold uart_write log u) = sent u @ crlf (concat args @ [10]) \<and> ier (fold uart_write log u) = 0 \<and>
     (dlm (fold uart_write log u), dll (fold uart_write log u)) = (0, 1) \<and> lcr (fold uart_write log u) = 3"
proof -
  let ?bs = "crlf (concat args @ [10])"
  obtain n' where w: "serial_println lsr args n (serial_init []) = Some (Inr (n', serial_init [] @ map (Pair COM1) ?bs))"
    using serial_print_delivers[OF assms(1), of "args @ [[10]]"] unfolding serial_println_def concat_append by auto
  have "\<not> bit (3 :: u8) 7" by (simp add: bit_numeral_rec)
  then have eq: "fold uart_write (serial_init [] @ map (Pair COM1) ?bs) u =
      u\<lparr>ier := 0, dll := 1, dlm := 0, lcr := 3, fcr := 0xC7, mcr := 0x0B, sent := sent u @ ?bs\<rparr>"
    using serial_init_uart[OF assms(2)] by (simp add: uart_sends)
  show ?thesis by (rule exI[of _ n'], rule exI[of _ "serial_init [] @ map (Pair COM1) ?bs"]) (simp only: w eq, simp)
qed

theorem serial_delivers_witness:
  "\<exists>n' log. serial_println (\<lambda>i. if even i then 0 else 0x60) [[79], [75]] 0 (serial_init []) = Some (Inr (n', log)) \<and>
     sent (fold uart_write log \<lparr>dll = 12, dlm = 0, ier = 1, lcr = 0, fcr = 0, mcr = 0, sent = []\<rparr>) = [79, 75, 13, 10]"
proof -
  have "\<forall>n :: nat. \<exists>m\<ge>n. (if even m then 0 else 0x60 :: u8) AND 0x20 \<noteq> 0"
  proof
    fix n :: nat
    show "\<exists>m\<ge>n. (if even m then 0 else 0x60 :: u8) AND 0x20 \<noteq> 0" by (intro exI[of _ "2 * n + 1"]) simp
  qed
  from serial_delivers[OF this, of "\<lparr>dll = 12, dlm = 0, ier = 1, lcr = 0, fcr = 0, mcr = 0, sent = []\<rparr>" "[[79], [75]]" 0]
  obtain n' log where "serial_println (\<lambda>i. if even i then 0 else 0x60) [[79], [75]] 0 (serial_init []) = Some (Inr (n', log))"
     "sent (fold uart_write log \<lparr>dll = 12, dlm = 0, ier = 1, lcr = 0, fcr = 0, mcr = 0, sent = []\<rparr>) = [] @ crlf (concat [[79], [75]] @ [10])"
    unfolding uart.simps by (elim meta_impE exE conjE) simp_all
  then show ?thesis by (intro exI conjI) (simp_all add: crlf_def)
qed

text \<open>
  \<open>write_byte\<close> hangs exactly on a dead transmitter: it returns if and only if some later read of the line status
  register shows the transmit register empty; there is no timeout.
\<close>

lemma write_byte_returns_iff:
  "(\<exists>r. write_byte lsr b n log = Some r) \<longleftrightarrow> (\<exists>m. n \<le> m \<and> lsr m AND 0x20 \<noteq> 0)"
  using write_byte_ready write_byte_returns by blast

end
