(* ===== verification/Devices.thy ===== *)
theory Devices
  imports Preempt Serial
begin

text \<open>
  The hardware-facing state of the kernel: the tick counters and cached addresses of \<open>idt.rs\<close> and \<open>apic.rs\<close>, the
  interrupt controllers behind their lock (\<open>interrupts.rs\<close>), the interrupt flag, and the logs of what was written
  to ports and to memory-mapped registers. The PIC driver is the crate \<open>pic8259\<close>: it is the
  parameter \<open>api\<close>, with what its documentation promises in \<open>pic_laws\<close>. The lock around it is a spin lock, so
  taking it while it is held by the interrupted code never returns.
\<close>

section \<open>State\<close>

record 'p devices =
  TIMER_TICKS :: u64
  SYSCALL_HITS :: u64
  SPURIOUS_HITS :: u64
  LAPIC_VIRT :: u64
  TICKS_PER_10MS :: u64
  PICS :: 'p
  PICS_taken :: bool
  if_flag :: bool
  port_writes :: port_log
  port_reads :: "u16 list"
  mmio_writes :: "(u64 \<times> u32) list"
  preempts_of :: statics

definition devices_boot :: "'p \<Rightarrow> 'p devices" where
  "devices_boot p = \<lparr>TIMER_TICKS = 0, SYSCALL_HITS = 0, SPURIOUS_HITS = 0, LAPIC_VIRT = 0, TICKS_PER_10MS = 0,
     PICS = p, PICS_taken = False, if_flag = False, port_writes = [], port_reads = [], mmio_writes = [],
     preempts_of = statics_boot\<rparr>"

section \<open>The interrupt controllers\<close>

record 'p pic_api =
  pic_initialize :: "'p \<Rightarrow> 'p"
  read_masks :: "'p \<Rightarrow> u8 \<times> u8"
  write_masks :: "'p \<Rightarrow> u8 \<Rightarrow> u8 \<Rightarrow> 'p"
  notify_end_of_interrupt :: "'p \<Rightarrow> u8 \<Rightarrow> 'p"

text \<open>The masks read back as written, and an end of interrupt leaves them alone.\<close>

definition pic_laws :: "'p pic_api \<Rightarrow> bool" where
  "pic_laws api \<longleftrightarrow>
     (\<forall>p a b. read_masks api (write_masks api p a b) = (a, b)) \<and>
     (\<forall>p v. read_masks api (notify_end_of_interrupt api p v) = read_masks api p)"

definition PIC_1_OFFSET :: u8 where
  "PIC_1_OFFSET = 32"

definition PIC_2_OFFSET :: u8 where
  "PIC_2_OFFSET = PIC_1_OFFSET + 8"

definition lock_pics :: "'p devices \<Rightarrow> 'p devices outcome" where
  "lock_pics d =
     obind (assert_that (\<not> PICS_taken d) ''deadlock: spinning on the PICS lock'') (\<lambda>_. Inr (d\<lparr>PICS_taken := True\<rparr>))"

definition unlock_pics :: "'p devices \<Rightarrow> 'p devices" where
  "unlock_pics d = d\<lparr>PICS_taken := False\<rparr>"

definition with_pics :: "('p \<Rightarrow> 'p) \<Rightarrow> 'p devices \<Rightarrow> 'p devices outcome" where
  "with_pics f d = obind (lock_pics d) (\<lambda>d. Inr (unlock_pics (d\<lparr>PICS := f (PICS d)\<rparr>)))"

lemma with_pics_free: "\<not> PICS_taken d \<Longrightarrow> with_pics f d = Inr (d\<lparr>PICS := f (PICS d), PICS_taken := False\<rparr>)"
  by (simp add: with_pics_def lock_pics_def unlock_pics_def)

lemma with_pics_taken: "PICS_taken d \<Longrightarrow> with_pics f d = Inl (Failed ''deadlock: spinning on the PICS lock'')"
  by (simp add: with_pics_def lock_pics_def)

definition interrupts_init :: "'p pic_api \<Rightarrow> 'p devices \<Rightarrow> 'p devices outcome" where
  "interrupts_init api d = with_pics (\<lambda>p. write_masks api (pic_initialize api p) 0xFF 0xFF) d"

section \<open>Registers of the local APIC\<close>

definition EOI_OFFSET :: u64 where
  "EOI_OFFSET = 0xB0"

definition lapic_reg :: "u64 \<Rightarrow> u64 \<Rightarrow> string + u64" where
  "lapic_reg win_base off =
     (case checked_add win_base off of Some a \<Rightarrow> Inr a | None \<Rightarrow> Inl ''apic register address overflows'')"

definition mmio_write :: "u64 \<Rightarrow> u32 \<Rightarrow> 'p devices \<Rightarrow> 'p devices" where
  "mmio_write a v d = d\<lparr>mmio_writes := mmio_writes d @ [(a, v)]\<rparr>"

definition eoi :: "'p devices \<Rightarrow> ((string + unit) \<times> 'p devices) outcome" where
  "eoi d =
     (let win = LAPIC_VIRT d in
      if win = 0 then Inr (Inl ''apic: eoi before init'', d)
      else case lapic_reg win EOI_OFFSET of
             Inl e \<Rightarrow> Inl (Failed ''apic: EOI address overflow'')
           | Inr a \<Rightarrow> Inr (Inr (), mmio_write a 0 d))"

end
