(* ===== verification/Interrupts.thy ===== *)
theory Interrupts
  imports Devices
begin

text \<open>
  \<open>kernel/src/idt.rs\<close>, \<open>timer.rs\<close> and \<open>syscall.rs\<close>: the vectors, the descriptor table, every handler, the start of the
  PIT and the self test of the syscall gate. Handlers are functions on the device state; \<open>take_interrupt\<close> is what
  the processor does with a vector. The timer vector runs the naked stub, here by its effect on the statics
  (\<open>Stub\<close> shows that the instructions have it).
\<close>

section \<open>Vectors\<close>

definition TIMER_VECTOR :: u8 where
  "TIMER_VECTOR = 32"

definition KEYBOARD_VECTOR :: u8 where
  "KEYBOARD_VECTOR = 33"

definition SYSCALL_VECTOR :: u8 where
  "SYSCALL_VECTOR = 0x80"

definition LAPIC_TIMER_VECTOR :: u8 where
  "LAPIC_TIMER_VECTOR = 0xEF"

definition LAPIC_ERROR_VECTOR :: u8 where
  "LAPIC_ERROR_VECTOR = 0xFE"

definition SPURIOUS_APIC_VECTOR :: u8 where
  "SPURIOUS_APIC_VECTOR = 0xFF"

definition SPURIOUS_PIC_MASTER_VECTOR :: u8 where
  "SPURIOUS_PIC_MASTER_VECTOR = 39"

definition SPURIOUS_PIC_SLAVE_VECTOR :: u8 where
  "SPURIOUS_PIC_SLAVE_VECTOR = 47"

lemmas vector_defs = TIMER_VECTOR_def KEYBOARD_VECTOR_def SYSCALL_VECTOR_def LAPIC_TIMER_VECTOR_def LAPIC_ERROR_VECTOR_def
  SPURIOUS_APIC_VECTOR_def SPURIOUS_PIC_MASTER_VECTOR_def SPURIOUS_PIC_SLAVE_VECTOR_def

definition SOAK_TICKS_EACH :: u64 where
  "SOAK_TICKS_EACH = 100"

definition DOUBLE_FAULT_IST_INDEX :: u16 where
  "DOUBLE_FAULT_IST_INDEX = 0"

section \<open>The descriptor table\<close>

datatype handler = Breakpoint | Double_fault | Page_fault | General_protection | Stack_segment | Invalid_opcode
  | Divide_error | Timer | Keyboard | Syscall_stub | Lapic_preempt | Apic_error | Spurious | Spurious_pic_master
  | Spurious_pic_slave

record gate =
  gate_handler :: handler
  gate_ist :: "u16 option"

abbreviation plain_gate :: "handler \<Rightarrow> gate" where
  "plain_gate h \<equiv> \<lparr>gate_handler = h, gate_ist = None\<rparr>"

text \<open>The named exception entries stand at their architectural vectors; an entry never set is not present.\<close>

definition IDT :: "u8 \<rightharpoonup> gate" where
  "IDT = [3 \<mapsto> plain_gate Breakpoint,
     8 \<mapsto> \<lparr>gate_handler = Double_fault, gate_ist = Some DOUBLE_FAULT_IST_INDEX\<rparr>,
     14 \<mapsto> plain_gate Page_fault,
     13 \<mapsto> plain_gate General_protection,
     12 \<mapsto> plain_gate Stack_segment,
     6 \<mapsto> plain_gate Invalid_opcode,
     0 \<mapsto> plain_gate Divide_error,
     TIMER_VECTOR \<mapsto> plain_gate Timer,
     KEYBOARD_VECTOR \<mapsto> plain_gate Keyboard,
     SYSCALL_VECTOR \<mapsto> plain_gate Syscall_stub,
     LAPIC_TIMER_VECTOR \<mapsto> plain_gate Lapic_preempt,
     LAPIC_ERROR_VECTOR \<mapsto> plain_gate Apic_error,
     SPURIOUS_APIC_VECTOR \<mapsto> plain_gate Spurious,
     SPURIOUS_PIC_MASTER_VECTOR \<mapsto> plain_gate Spurious_pic_master,
     SPURIOUS_PIC_SLAVE_VECTOR \<mapsto> plain_gate Spurious_pic_slave]"

section \<open>The handlers\<close>

text \<open>\<open>fetch_add\<close> wraps; the \<open>+ 1\<close> on its result in the syscall stub does not.\<close>

definition timer_handler :: "'p pic_api \<Rightarrow> 'p devices \<Rightarrow> 'p devices outcome" where
  "timer_handler api d =
     with_pics (\<lambda>p. notify_end_of_interrupt api p TIMER_VECTOR) (d\<lparr>TIMER_TICKS := TIMER_TICKS d + 1\<rparr>)"

definition keyboard_handler :: "'p pic_api \<Rightarrow> 'p devices \<Rightarrow> 'p devices outcome" where
  "keyboard_handler api d =
     with_pics (\<lambda>p. notify_end_of_interrupt api p KEYBOARD_VECTOR) (d\<lparr>port_reads := port_reads d @ [0x60]\<rparr>)"

definition syscall_stub_handler :: "'p devices \<Rightarrow> 'p devices outcome" where
  "syscall_stub_handler d =
     (let before = SYSCALL_HITS d; d = d\<lparr>SYSCALL_HITS := before + 1\<rparr> in
      obind (add_op before 1) (\<lambda>n. Inr d))"

definition apic_error_handler :: "'p devices \<Rightarrow> 'p devices outcome" where
  "apic_error_handler d = obind (eoi d) (\<lambda>(r, d). Inr d)"

definition spurious_handler :: "'p devices \<Rightarrow> 'p devices outcome" where
  "spurious_handler d = obind (eoi (d\<lparr>SPURIOUS_HITS := SPURIOUS_HITS d + 1\<rparr>)) (\<lambda>(r, d). Inr d)"

definition spurious_pic_master_handler :: "'p devices \<Rightarrow> 'p devices outcome" where
  "spurious_pic_master_handler d = Inr (d\<lparr>SPURIOUS_HITS := SPURIOUS_HITS d + 1\<rparr>)"

definition spurious_pic_slave_handler :: "'p pic_api \<Rightarrow> 'p devices \<Rightarrow> 'p devices outcome" where
  "spurious_pic_slave_handler api d =
     with_pics (\<lambda>p. notify_end_of_interrupt api p SPURIOUS_PIC_MASTER_VECTOR) (d\<lparr>SPURIOUS_HITS := SPURIOUS_HITS d + 1\<rparr>)"

text \<open>The naked stub, for the frame \<open>f\<close> it would store: its effect on the statics and its write to the EOI register.\<close>

definition lapic_timer :: "FullFrame \<Rightarrow> 'p devices \<Rightarrow> 'p devices" where
  "lapic_timer f d =
     (let base = EOI_BASE (preempts_of d); d = d\<lparr>preempts_of := stub_effect f (preempts_of d)\<rparr> in
      if base = 0 then d else mmio_write base 0 d)"

fun run_handler :: "'p pic_api \<Rightarrow> FullFrame \<Rightarrow> handler \<Rightarrow> 'p devices \<Rightarrow> 'p devices outcome" where
  "run_handler api f Breakpoint d = Inr d"
| "run_handler api f Double_fault d = Inl (Failed ''EXCEPTION: double fault'')"
| "run_handler api f Page_fault d = Inl (Failed ''EXCEPTION: page fault'')"
| "run_handler api f General_protection d = Inl (Failed ''EXCEPTION: general protection fault'')"
| "run_handler api f Stack_segment d = Inl (Failed ''EXCEPTION: stack segment fault'')"
| "run_handler api f Invalid_opcode d = Inl (Failed ''EXCEPTION: invalid opcode'')"
| "run_handler api f Divide_error d = Inl (Failed ''EXCEPTION: divide error'')"
| "run_handler api f Timer d = timer_handler api d"
| "run_handler api f Keyboard d = keyboard_handler api d"
| "run_handler api f Syscall_stub d = syscall_stub_handler d"
| "run_handler api f Lapic_preempt d = Inr (lapic_timer f d)"
| "run_handler api f Apic_error d = apic_error_handler d"
| "run_handler api f Spurious d = spurious_handler d"
| "run_handler api f Spurious_pic_master d = spurious_pic_master_handler d"
| "run_handler api f Spurious_pic_slave d = spurious_pic_slave_handler api d"

text \<open>
  The processor takes vector \<open>v\<close>: a gate that is not present raises vector 11, and if that one is not present
  either, a double fault. The flag is off while a handler runs and comes back with \<open>iretq\<close>.
\<close>

definition gate_for :: "u8 \<Rightarrow> handler" where
  "gate_for v =
     (case IDT v of
        Some g \<Rightarrow> gate_handler g
      | None \<Rightarrow> (case IDT 11 of Some g \<Rightarrow> gate_handler g | None \<Rightarrow> Double_fault))"

definition take_interrupt :: "'p pic_api \<Rightarrow> FullFrame \<Rightarrow> u8 \<Rightarrow> 'p devices \<Rightarrow> 'p devices outcome" where
  "take_interrupt api f v d =
     obind (run_handler api f (gate_for v) (d\<lparr>if_flag := False\<rparr>)) (\<lambda>d'. Inr (d'\<lparr>if_flag := if_flag d\<rparr>))"

section \<open>The syscall self test\<close>

definition syscall_self_test :: "'p pic_api \<Rightarrow> FullFrame \<Rightarrow> 'p devices \<Rightarrow> 'p devices outcome" where
  "syscall_self_test api f d =
     obind (take_interrupt api f 0x80 d) (\<lambda>d.
     obind (take_interrupt api f 0x80 d) (\<lambda>d.
     obind (assert_that (SYSCALL_HITS d = 2) ''syscall stub fired twice but handler saw another count'') (\<lambda>_. Inr d)))"

section \<open>The PIT\<close>

definition PIT_CMD :: u16 where
  "PIT_CMD = 0x43"

definition PIT_CH0 :: u16 where
  "PIT_CH0 = 0x40"

definition PIT_INPUT_HZ :: u32 where
  "PIT_INPUT_HZ = 1193182"

definition TARGET_HZ :: u32 where
  "TARGET_HZ = 100"

text \<open>\<open>u16::try_from\<close>, then the three port writes and the unmasking of IRQ0 under the lock.\<close>

definition timer_init :: "'p pic_api \<Rightarrow> 'p devices \<Rightarrow> 'p devices outcome" where
  "timer_init api d =
     (let quotient = PIT_INPUT_HZ div TARGET_HZ in
      obind (assert_that (unat quotient < 2 ^ 16) ''PIT divisor fits in u16'') (\<lambda>_.
        let divisor = ucast quotient :: u16;
            d = d\<lparr>port_writes := port_writes d @
              [(PIT_CMD, 0x36), (PIT_CH0, ucast (divisor AND 0xFF)), (PIT_CH0, ucast (drop_bit 8 divisor))]\<rparr> in
        obind (assert_that (\<not> if_flag d) ''timer::init must run with interrupts disabled'') (\<lambda>_.
          with_pics (\<lambda>p. let (m0, m1) = read_masks api p in write_masks api p (m0 AND NOT 1) m1) d)))"

section \<open>Interrupts that arrive while the kernel runs\<close>

text \<open>
  \<open>irq0_open\<close>: the PIC passes IRQ0 on to a processor that accepts it. \<open>poll_irq0\<close> handles one tick of the PIT that is asserted
  if it can be; one that cannot be delivered yet is left to a later moment. A moment is
  what arrives between two instructions of a loop: ticks of the PIT and timer interrupts of the local APIC.
\<close>

definition irq0_open :: "'p pic_api \<Rightarrow> 'p devices \<Rightarrow> bool" where
  "irq0_open api d \<longleftrightarrow> if_flag d \<and> \<not> bit (fst (read_masks api (PICS d))) 0"

definition poll_irq0 :: "'p pic_api \<Rightarrow> 'p devices \<Rightarrow> 'p devices outcome" where
  "poll_irq0 api d = (if irq0_open api d then take_interrupt api FullFrame_ZERO TIMER_VECTOR d else Inr d)"

record moment =
  pit_ticks :: nat
  lapic_frames :: "FullFrame list"

fun irq0s :: "'p pic_api \<Rightarrow> nat \<Rightarrow> 'p devices \<Rightarrow> 'p devices outcome" where
  "irq0s api 0 d = Inr d"
| "irq0s api (Suc n) d = obind (poll_irq0 api d) (irq0s api n)"

fun lapic_irqs :: "'p pic_api \<Rightarrow> FullFrame list \<Rightarrow> 'p devices \<Rightarrow> 'p devices outcome" where
  "lapic_irqs api [] d = Inr d"
| "lapic_irqs api (f # fs) d =
     obind (if if_flag d then take_interrupt api f LAPIC_TIMER_VECTOR d else Inr d) (lapic_irqs api fs)"

definition elapse :: "'p pic_api \<Rightarrow> moment \<Rightarrow> 'p devices \<Rightarrow> 'p devices outcome" where
  "elapse api mo d = obind (irq0s api (pit_ticks mo) d) (lapic_irqs api (lapic_frames mo))"

section \<open>What a vector leads to\<close>

lemma gate_for_simps [simp]:
  "gate_for TIMER_VECTOR = Timer" "gate_for KEYBOARD_VECTOR = Keyboard" "gate_for SYSCALL_VECTOR = Syscall_stub"
  "gate_for LAPIC_TIMER_VECTOR = Lapic_preempt" "gate_for LAPIC_ERROR_VECTOR = Apic_error" "gate_for SPURIOUS_APIC_VECTOR = Spurious"
  "gate_for SPURIOUS_PIC_MASTER_VECTOR = Spurious_pic_master" "gate_for SPURIOUS_PIC_SLAVE_VECTOR = Spurious_pic_slave"
  "gate_for 3 = Breakpoint"
  by (simp_all add: gate_for_def IDT_def vector_defs)

text \<open>The vectors the kernel expects; everything else ends in a panic.\<close>

definition expected_vectors :: "u8 set" where
  "expected_vectors = {3, TIMER_VECTOR, KEYBOARD_VECTOR, SYSCALL_VECTOR, LAPIC_TIMER_VECTOR, LAPIC_ERROR_VECTOR,
     SPURIOUS_APIC_VECTOR, SPURIOUS_PIC_MASTER_VECTOR, SPURIOUS_PIC_SLAVE_VECTOR}"

lemma gate_for_other:
  "v \<notin> expected_vectors \<Longrightarrow>
    gate_for v \<in> {Double_fault, Page_fault, General_protection, Stack_segment, Invalid_opcode, Divide_error}"
  by (auto simp: gate_for_def IDT_def expected_vectors_def vector_defs split: option.splits if_splits)

lemma expected_vectorE:
  assumes "v \<in> expected_vectors"
  obtains "v = 3" | "v = TIMER_VECTOR" | "v = KEYBOARD_VECTOR" | "v = SYSCALL_VECTOR" | "v = LAPIC_TIMER_VECTOR"
    | "v = LAPIC_ERROR_VECTOR" | "v = SPURIOUS_APIC_VECTOR" | "v = SPURIOUS_PIC_MASTER_VECTOR" | "v = SPURIOUS_PIC_SLAVE_VECTOR"
  using assms unfolding expected_vectors_def by blast

lemma take_other: "v \<notin> expected_vectors \<Longrightarrow> \<exists>e. take_interrupt api f v d = Inl e"
  using gate_for_other[of v] by (auto simp: take_interrupt_def)

lemma eoi_unmapped: "LAPIC_VIRT d = 0 \<Longrightarrow> eoi d = Inr (Inl ''apic: eoi before init'', d)"
  by (simp add: eoi_def)

lemma eoi_mapped:
  "LAPIC_VIRT d \<noteq> 0 \<Longrightarrow> unat (LAPIC_VIRT d) + 0xB0 < 2 ^ 64 \<Longrightarrow> eoi d = Inr (Inr (), mmio_write (LAPIC_VIRT d + EOI_OFFSET) 0 d)"
  by (simp add: eoi_def lapic_reg_def checked_add_def EOI_OFFSET_def Let_def)

text \<open>A device state in which no handler can fail: lock free, counters and addresses not at the end of their range.\<close>

definition calm :: "'p devices \<Rightarrow> bool" where
  "calm d \<longleftrightarrow> \<not> PICS_taken d \<and> unat (LAPIC_VIRT d) + 0xB0 < 2 ^ 64 \<and> SYSCALL_HITS d \<noteq> - 1"

text \<open>The one acknowledgement each vector gets: at the PIC, or at the local APIC.\<close>

definition pic_ack :: "'p pic_api \<Rightarrow> u8 \<Rightarrow> 'p \<Rightarrow> 'p" where
  "pic_ack api v p =
     (if v = TIMER_VECTOR \<or> v = KEYBOARD_VECTOR then notify_end_of_interrupt api p v
      else if v = SPURIOUS_PIC_SLAVE_VECTOR then notify_end_of_interrupt api p SPURIOUS_PIC_MASTER_VECTOR
      else p)"

definition lapic_ack :: "u8 \<Rightarrow> 'p devices \<Rightarrow> (u64 \<times> u32) list" where
  "lapic_ack v d =
     (if v = LAPIC_TIMER_VECTOR then (if EOI_BASE (preempts_of d) = 0 then [] else [(EOI_BASE (preempts_of d), 0)])
      else if v = LAPIC_ERROR_VECTOR \<or> v = SPURIOUS_APIC_VECTOR then
        (if LAPIC_VIRT d = 0 then [] else [(LAPIC_VIRT d + EOI_OFFSET, 0)])
      else [])"

lemmas handler_defs = take_interrupt_def timer_handler_def keyboard_handler_def syscall_stub_handler_def apic_error_handler_def
  spurious_handler_def spurious_pic_master_handler_def spurious_pic_slave_handler_def lapic_timer_def mmio_write_def

lemma take_expected:
  assumes "calm d" "v \<in> expected_vectors"
  shows "\<exists>d'. take_interrupt api f v d = Inr d' \<and> PICS d' = pic_ack api v (PICS d) \<and>
     mmio_writes d' = mmio_writes d @ lapic_ack v d \<and> PICS_taken d' = False \<and> if_flag d' = if_flag d \<and>
     preempts_of d' = (if v = LAPIC_TIMER_VECTOR then stub_effect f (preempts_of d) else preempts_of d) \<and>
     TIMER_TICKS d' = TIMER_TICKS d + (if v = TIMER_VECTOR then 1 else 0)"
proof -
  have free: "\<not> PICS_taken d" and win: "unat (LAPIC_VIRT d) + 0xB0 < 2 ^ 64" and hits: "SYSCALL_HITS d \<noteq> - 1"
    using assms(1) by (simp_all add: calm_def)
  have inc: "add_op (SYSCALL_HITS d) 1 = Inr (SYSCALL_HITS d + 1)"
  proof -
    have "unat (SYSCALL_HITS d) \<noteq> 2 ^ 64 - 1" using hits by (simp add: word_unat_eq_iff unat_max_word)
    then show ?thesis using unat_u64_less[of "SYSCALL_HITS d"] by (intro add_op_no_overflow) simp
  qed
  note ne = vector_defs pic_ack_def lapic_ack_def
  from assms(2) show ?thesis
  proof (cases rule: expected_vectorE)
    case 6
    then show ?thesis using win free by (cases "LAPIC_VIRT d = 0") (simp_all add: handler_defs eoi_unmapped eoi_mapped, simp_all add: ne)
  next
    case 7
    then show ?thesis using win free by (cases "LAPIC_VIRT d = 0") (simp_all add: handler_defs eoi_unmapped eoi_mapped, simp_all add: ne)
  qed (simp_all add: handler_defs with_pics_free free inc Let_def, simp_all add: ne free)
qed

section \<open>Time passing\<close>

text \<open>
  \<open>ticked api d d'\<close>: \<open>d'\<close> comes from \<open>d\<close> by interrupts alone. Masks, flag, lock and cached values are as before.
\<close>

definition ticked :: "'p pic_api \<Rightarrow> 'p devices \<Rightarrow> 'p devices \<Rightarrow> bool" where
  "ticked api d d' \<longleftrightarrow> \<not> PICS_taken d' \<and> if_flag d' = if_flag d \<and> read_masks api (PICS d') = read_masks api (PICS d) \<and>
     LAPIC_VIRT d' = LAPIC_VIRT d \<and> TICKS_PER_10MS d' = TICKS_PER_10MS d \<and> SYSCALL_HITS d' = SYSCALL_HITS d \<and>
     port_writes d' = port_writes d \<and> (\<exists>fs. preempts_of d' = fold stub_effect fs (preempts_of d))"

lemma no_stubs: "\<exists>fs. p = fold stub_effect fs p"
  by (rule exI[of _ "[]"]) simp

lemma ticked_refl: "\<not> PICS_taken d \<Longrightarrow> ticked api d d"
  by (simp add: ticked_def no_stubs)

lemma ticked_trans: "ticked api a b \<Longrightarrow> ticked api b c \<Longrightarrow> ticked api a c"
proof -
  assume ab: "ticked api a b" and bc: "ticked api b c"
  then obtain fs gs where "preempts_of b = fold stub_effect fs (preempts_of a)" "preempts_of c = fold stub_effect gs (preempts_of b)"
    unfolding ticked_def by (elim conjE exE)
  then have "preempts_of c = fold stub_effect (fs @ gs) (preempts_of a)" by simp
  then show "ticked api a c" using ab bc unfolding ticked_def by (intro conjI exI[of _ "fs @ gs"]) simp_all
qed

lemma ticked_free: "ticked api d d' \<Longrightarrow> \<not> PICS_taken d'"
  by (simp add: ticked_def)

lemma ticked_open: "ticked api d d' \<Longrightarrow> irq0_open api d' = irq0_open api d"
  by (simp add: ticked_def irq0_open_def)

lemma poll_irq0_spec:
  assumes "pic_laws api" "\<not> PICS_taken d"
  shows "\<exists>d'. poll_irq0 api d = Inr d' \<and> ticked api d d' \<and> preempts_of d' = preempts_of d \<and>
     TIMER_TICKS d' = TIMER_TICKS d + (if irq0_open api d then 1 else 0)"
  using assms by (simp add: poll_irq0_def take_interrupt_def timer_handler_def with_pics_free ticked_def pic_laws_def no_stubs)

lemma irq0s_spec:
  assumes "pic_laws api" "\<not> PICS_taken d"
  shows "\<exists>d'. irq0s api n d = Inr d' \<and> ticked api d d' \<and> preempts_of d' = preempts_of d \<and>
     TIMER_TICKS d' = TIMER_TICKS d + (if irq0_open api d then of_nat n else 0)"
  using assms(2)
proof (induction n arbitrary: d)
  case 0
  then show ?case by (simp add: ticked_refl)
next
  case (Suc n)
  obtain d1 where d1: "poll_irq0 api d = Inr d1" "ticked api d d1" "preempts_of d1 = preempts_of d"
      "TIMER_TICKS d1 = TIMER_TICKS d + (if irq0_open api d then 1 else 0)"
    using poll_irq0_spec[OF assms(1) Suc.prems] by (elim exE conjE)
  obtain d2 where d2: "irq0s api n d1 = Inr d2" "ticked api d1 d2" "preempts_of d2 = preempts_of d1"
      "TIMER_TICKS d2 = TIMER_TICKS d1 + (if irq0_open api d1 then of_nat n else 0)"
    using Suc.IH[OF ticked_free[OF d1(2)]] by (elim exE conjE)
  show ?case
    using d1(1,3,4) d2(1,3,4) ticked_trans[OF d1(2) d2(2)] ticked_open[OF d1(2)]
    by (intro exI[of _ d2]) (simp add: algebra_simps)
qed

lemma lapic_irqs_spec:
  assumes "\<not> PICS_taken d"
  shows "\<exists>d'. lapic_irqs api fs d = Inr d' \<and> ticked api d d' \<and> TIMER_TICKS d' = TIMER_TICKS d \<and>
     preempts_of d' = (if if_flag d then fold stub_effect fs (preempts_of d) else preempts_of d)"
  using assms
proof (induction fs arbitrary: d)
  case Nil
  then show ?case by (simp add: ticked_refl)
next
  case (Cons f fs)
  define d1 where "d1 = (if if_flag d then (lapic_timer f (d\<lparr>if_flag := False\<rparr>))\<lparr>if_flag := True\<rparr> else d)"
  have d1: "ticked api d d1" "TIMER_TICKS d1 = TIMER_TICKS d" "if_flag d1 = if_flag d"
      "preempts_of d1 = (if if_flag d then stub_effect f (preempts_of d) else preempts_of d)"
    using Cons.prems no_stubs[of "preempts_of d"]
    by (simp_all add: d1_def ticked_def lapic_timer_def mmio_write_def Let_def exI[of _ "[f]"])
  have step: "lapic_irqs api (f # fs) d = lapic_irqs api fs d1" by (simp add: d1_def take_interrupt_def)
  obtain d2 where d2: "lapic_irqs api fs d1 = Inr d2" "ticked api d1 d2" "TIMER_TICKS d2 = TIMER_TICKS d1"
      "preempts_of d2 = (if if_flag d1 then fold stub_effect fs (preempts_of d1) else preempts_of d1)"
    using Cons.IH[OF ticked_free[OF d1(1)]] by (elim exE conjE)
  show ?case
    unfolding step using d2(1,3,4) d1(2-4) ticked_trans[OF d1(1) d2(2)] by (intro exI[of _ d2]) simp
qed

lemma elapse_spec:
  assumes "pic_laws api" "\<not> PICS_taken d"
  shows "\<exists>d'. elapse api mo d = Inr d' \<and> ticked api d d' \<and>
     TIMER_TICKS d' = TIMER_TICKS d + (if irq0_open api d then of_nat (pit_ticks mo) else 0) \<and>
     preempts_of d' = (if if_flag d then fold stub_effect (lapic_frames mo) (preempts_of d) else preempts_of d)"
proof -
  obtain d1 where d1: "irq0s api (pit_ticks mo) d = Inr d1" "ticked api d d1" "preempts_of d1 = preempts_of d"
      "TIMER_TICKS d1 = TIMER_TICKS d + (if irq0_open api d then of_nat (pit_ticks mo) else 0)"
    using irq0s_spec[OF assms, of "pit_ticks mo"] by (elim exE conjE)
  obtain d2 where d2: "lapic_irqs api (lapic_frames mo) d1 = Inr d2" "ticked api d1 d2" "TIMER_TICKS d2 = TIMER_TICKS d1"
      "preempts_of d2 = (if if_flag d1 then fold stub_effect (lapic_frames mo) (preempts_of d1) else preempts_of d1)"
    using lapic_irqs_spec[OF ticked_free[OF d1(2)], of api "lapic_frames mo"] by (elim exE conjE)
  have "if_flag d1 = if_flag d" using d1(2) by (simp add: ticked_def)
  then show ?thesis
    using d1 d2 ticked_trans[OF d1(2) d2(2)] by (intro exI[of _ d2]) (simp add: elapse_def)
qed

text \<open>\<open>timer::init\<close> programs the divisor 11931 and unmasks IRQ0 alone.\<close>

lemma timer_init_spec:
  assumes "\<not> PICS_taken d" "\<not> if_flag d"
  shows "timer_init api d = Inr (d\<lparr>port_writes := port_writes d @ [(PIT_CMD, 0x36), (PIT_CH0, 0x9B), (PIT_CH0, 0x2E)],
     PICS := write_masks api (PICS d) (fst (read_masks api (PICS d)) AND NOT 1) (snd (read_masks api (PICS d))), PICS_taken := False\<rparr>)"
proof -
  have "PIT_INPUT_HZ div TARGET_HZ = 11931" by (simp add: PIT_INPUT_HZ_def TARGET_HZ_def)
  moreover have "(ucast (ucast (11931 :: u32) AND 0xFF :: u16) :: u8) = 0x9B"
    "(ucast (drop_bit 8 (ucast (11931 :: u32) :: u16)) :: u8) = 0x2E" by simp_all
  ultimately show ?thesis using assms by (simp add: timer_init_def with_pics_free Let_def split: prod.splits)
qed

section \<open>Properties\<close>

text \<open>
  C16. Which interrupts the kernel survives, and how it acknowledges them: in a calm state an interrupt returns if and only if
  its vector is one of the nine expected ones. The timer and keyboard vectors are acknowledged once at the PIC under their
  own vector, the phantom of the slave once under the master's spurious vector, the phantom of the master not at all; the three
  vectors of the local APIC are acknowledged by one write of zero to its EOI register if it is mapped, and nothing else is
  acknowledged anywhere.
\<close>

theorem interrupts_acknowledged:
  assumes "calm d"
  shows "((\<exists>d'. take_interrupt api f v d = Inr d') \<longleftrightarrow> v \<in> expected_vectors) \<and>
     (\<forall>d'. take_interrupt api f v d = Inr d' \<longrightarrow>
        PICS d' = pic_ack api v (PICS d) \<and> mmio_writes d' = mmio_writes d @ lapic_ack v d \<and> if_flag d' = if_flag d)"
proof (cases "v \<in> expected_vectors")
  case True
  then show ?thesis using take_expected[OF assms True, of api f] by (elim exE conjE) (intro conjI; simp)
next
  case False
  then obtain e where "take_interrupt api f v d = Inl e" using take_other[OF False, of api f d] by (elim exE)
  then show ?thesis using False by simp
qed

text \<open>A PIC for the examples: the masks and the vectors acknowledged so far.\<close>

definition logged_pic :: "((u8 \<times> u8) \<times> u8 list) pic_api" where
  "logged_pic = \<lparr>pic_initialize = (\<lambda>p. p), read_masks = fst, write_masks = (\<lambda>p a b. ((a, b), snd p)),
     notify_end_of_interrupt = (\<lambda>p v. (fst p, snd p @ [v]))\<rparr>"

lemma logged_pic_laws: "pic_laws logged_pic"
  by (simp add: pic_laws_def logged_pic_def)

theorem interrupts_acknowledged_witness:
  "\<exists>d'. take_interrupt logged_pic FullFrame_ZERO 47 (devices_boot ((0xFF, 0xFF), [])) = Inr d' \<and> snd (PICS d') = [39]"
proof -
  have c: "calm (devices_boot ((0xFF :: u8, 0xFF :: u8), [] :: u8 list))" by (simp add: calm_def devices_boot_def)
  have "47 \<in> expected_vectors" by (simp add: expected_vectors_def vector_defs)
  then obtain d' where d': "take_interrupt logged_pic FullFrame_ZERO 47 (devices_boot ((0xFF, 0xFF), [])) = Inr d'"
      "PICS d' = pic_ack logged_pic 47 (PICS (devices_boot ((0xFF, 0xFF), [])))"
    using interrupts_acknowledged[OF c, of logged_pic FullFrame_ZERO 47] by blast
  then show ?thesis by (simp add: pic_ack_def vector_defs logged_pic_def devices_boot_def)
qed

text \<open>
  The syscall self test passes exactly when nobody has used the gate before: it needs the counter at zero, and leaves it at two.
\<close>

lemma syscall_self_test_passes_iff:
  "(\<exists>d'. syscall_self_test api f d = Inr d' \<and> SYSCALL_HITS d' = 2) \<longleftrightarrow> SYSCALL_HITS d = 0"
proof -
  have v: "gate_for 0x80 = Syscall_stub" using gate_for_simps(3) by (simp add: SYSCALL_VECTOR_def)
  show ?thesis
  proof (cases "SYSCALL_HITS d = 0")
    case True
    moreover have "add_op (0 :: u64) 1 = Inr 1" "add_op (1 :: u64) 1 = Inr 2" by (simp_all add: rust_arith)
    ultimately show ?thesis by (simp add: syscall_self_test_def take_interrupt_def v syscall_stub_handler_def Let_def)
  next
    case False
    then have "SYSCALL_HITS d + 1 + 1 \<noteq> 2" by (simp add: add.assoc)
    then show ?thesis using False
      by (auto simp: syscall_self_test_def take_interrupt_def v syscall_stub_handler_def Let_def obind_eq_Inr assert_that_eq_Inr)
  qed
qed

end
