(* ===== verification/Frames.thy ===== *)
theory Frames
  imports Prelude
begin

text \<open>
  The memory map the bootloader hands over and the contract of a frame
  allocator (the trait \<open>FrameAllocator<Size4KiB>\<close>, implemented by \<open>bump.rs\<close> and
  \<open>buddy.rs\<close> and called by \<open>memory.rs\<close>).

  A \<open>PhysFrame\<close> is represented by its start address; the specification counts
  frames by number, address divided by 4096. A memory region keeps what the
  kernel reads of it: the two bounds, and whether its kind is \<open>Usable\<close>.
\<close>

record memory_region =
  r_start :: u64
  r_end :: u64
  r_usable :: bool

section \<open>The frames of a region\<close>

text \<open>
  \<open>cursor_frames r na\<close>: the numbers of the whole frames of \<open>r\<close> that lie at or
  above address \<open>na\<close>, without the zero page. A region that is not usable has none.
\<close>

definition cursor_frames :: "memory_region \<Rightarrow> nat \<Rightarrow> nat list" where
  "cursor_frames r na =
     (if r_usable r
      then [max (max 1 (align_up (unat (r_start r)) 4096 div 4096)) (align_up na 4096 div 4096)
              ..< unat (r_end r) div 4096]
      else [])"

abbreviation region_frames :: "memory_region \<Rightarrow> nat list" where
  "region_frames r \<equiv> cursor_frames r 0"

definition map_frames :: "memory_region list \<Rightarrow> nat list" where
  "map_frames rs = concat (map region_frames rs)"

text \<open>
  What the kernel takes for granted of the map: usable memory lies below
  \<open>2 ^ 52\<close>, the architectural limit of a physical address, and no frame belongs
  to two usable regions.
\<close>

definition phys_map :: "memory_region list \<Rightarrow> bool" where
  "phys_map rs \<longleftrightarrow>
     (\<forall>r\<in>set rs. r_usable r \<longrightarrow> unat (r_start r) \<le> 2 ^ 52 \<and> unat (r_end r) \<le> 2 ^ 52) \<and>
     distinct (map_frames rs)"

lemma cursor_frames_pos: "f \<in> set (cursor_frames r na) \<Longrightarrow> 0 < f"
  by (auto simp: cursor_frames_def split: if_splits)

lemma cursor_frames_subset: "set (cursor_frames r na) \<subseteq> set (region_frames r)"
  by (auto simp: cursor_frames_def align_up_def)

lemma cursor_frames_distinct: "distinct (cursor_frames r na)"
  by (simp add: cursor_frames_def)

lemma cursor_frames_limit:
  "r_usable r \<Longrightarrow> f \<in> set (cursor_frames r na) \<Longrightarrow> 4096 * f + 4096 \<le> unat (r_end r)"
  by (auto simp: cursor_frames_def)

lemma map_frames_Nil [simp]: "map_frames [] = []"
  and map_frames_Cons [simp]: "map_frames (r # rs) = region_frames r @ map_frames rs"
  and map_frames_append [simp]: "map_frames (rs @ rs') = map_frames rs @ map_frames rs'"
  by (simp_all add: map_frames_def)

lemma map_frames_pos: "f \<in> set (map_frames rs) \<Longrightarrow> 0 < f"
  by (auto simp: map_frames_def dest: cursor_frames_pos)

lemma phys_map_distinct: "phys_map rs \<Longrightarrow> distinct (map_frames rs)"
  by (simp add: phys_map_def)

lemma phys_map_bounds:
  "phys_map rs \<Longrightarrow> i < length rs \<Longrightarrow> r_usable (rs ! i) \<Longrightarrow>
     unat (r_start (rs ! i)) \<le> 2 ^ 52 \<and> unat (r_end (rs ! i)) \<le> 2 ^ 52"
  by (simp add: phys_map_def)

section \<open>The contract of a frame allocator\<close>

text \<open>
  \<open>avail s\<close> are the frames the allocator still owns. An allocation on a non-empty
  \<open>avail\<close> hands out one frame of it and no longer owns that frame; on an empty one
  it answers \<open>None\<close>. No frame is owned twice, and the zero page never.
\<close>

locale frame_allocator =
  fixes allocate :: "'s \<Rightarrow> (u64 option \<times> 's) outcome"
    and avail :: "'s \<Rightarrow> nat multiset"
    and invar :: "'s \<Rightarrow> bool"
  assumes exhausted: "invar s \<Longrightarrow> avail s = {#} \<Longrightarrow>
      \<exists>s'. allocate s = Inr (None, s') \<and> invar s' \<and> avail s' = {#}"
    and handout: "invar s \<Longrightarrow> avail s \<noteq> {#} \<Longrightarrow>
      \<exists>a s'. allocate s = Inr (Some a, s') \<and> 4096 dvd unat a \<and>
             avail s = add_mset (unat a div 4096) (avail s') \<and> invar s'"
    and owned_once: "invar s \<Longrightarrow> count (avail s) f \<le> 1"
    and no_zero_page: "invar s \<Longrightarrow> 0 \<notin># avail s"

text \<open>\<open>n\<close> requests in a row, stopping at the first \<open>None\<close>; the addresses in order.\<close>

fun allocate_many ::
  "('s \<Rightarrow> (u64 option \<times> 's) outcome) \<Rightarrow> nat \<Rightarrow> 's \<Rightarrow> (u64 list \<times> 's) outcome" where
  "allocate_many alloc 0 s = Inr ([], s)"
| "allocate_many alloc (Suc n) s =
     obind (alloc s) (\<lambda>(oa, s').
       case oa of
         None \<Rightarrow> Inr ([], s')
       | Some a \<Rightarrow> obind (allocate_many alloc n s') (\<lambda>(as, s''). Inr (a # as, s'')))"

context frame_allocator
begin

lemma allocate_cases:
  assumes "invar s"
  obtains (none) s' where "avail s = {#}" "allocate s = Inr (None, s')" "invar s'" "avail s' = {#}"
  | (some) a s' where "allocate s = Inr (Some a, s')" "4096 dvd unat a"
      "avail s = add_mset (unat a div 4096) (avail s')" "invar s'"
  using assms exhausted handout by (cases "avail s = {#}") blast+

lemma allocate_SomeD:
  assumes "invar s" "allocate s = Inr (Some a, s')"
  shows "4096 dvd unat a \<and> 4096 \<le> unat a \<and>
    avail s = add_mset (unat a div 4096) (avail s') \<and> invar s' \<and> unat a div 4096 \<notin># avail s'"
  using assms(1)
proof (cases rule: allocate_cases)
  case none
  then show ?thesis using assms(2) by simp
next
  case (some b t)
  then have eq: "b = a" "t = s'" using assms(2) by simp_all
  have "unat a div 4096 \<noteq> 0" using some no_zero_page[OF assms(1)] eq by (metis union_single_eq_member)
  moreover have "unat a div 4096 \<notin># avail s'"
    using some eq owned_once[OF assms(1), of "unat a div 4096"]
    by (simp add: not_in_iff)
  ultimately show ?thesis using some eq by auto
qed

lemma allocate_many_spec:
  assumes "invar s"
  shows "\<exists>as s'. allocate_many allocate n s = Inr (as, s') \<and> invar s' \<and>
     length as = min n (size (avail s)) \<and>
     avail s = mset (map (\<lambda>a. unat a div 4096) as) + avail s' \<and>
     (\<forall>a\<in>set as. 4096 dvd unat a \<and> 4096 \<le> unat a)"
  using assms
proof (induction n arbitrary: s)
  case (Suc n)
  from Suc.prems show ?case
  proof (cases rule: allocate_cases)
    case (some a s')
    from Suc.IH[OF some(4)] obtain as s'' where
      "allocate_many allocate n s' = Inr (as, s'')" "invar s''"
      "length as = min n (size (avail s'))"
      "avail s' = mset (map (\<lambda>a. unat a div 4096) as) + avail s''"
      "\<forall>a\<in>set as. 4096 dvd unat a \<and> 4096 \<le> unat a" by blast
    then show ?thesis using some allocate_SomeD[OF Suc.prems some(1)] by simp
  qed simp
qed simp

lemma allocate_many_distinct:
  assumes "invar s" "allocate_many allocate n s = Inr (as, s')"
  shows "distinct as"
proof -
  have "avail s = mset (map (\<lambda>a. unat a div 4096) as) + avail s'"
    using allocate_many_spec[OF assms(1), of n] assms(2) by auto
  then have "count (mset (map (\<lambda>a. unat a div 4096) as)) f \<le> 1" for f
    using owned_once[OF assms(1), of f] by simp
  then have "distinct (map (\<lambda>a. unat a div 4096) as)"
    using distinct_iff_count_le_1 by blast
  then show ?thesis by (simp add: distinct_map)
qed

end

end
