(* ===== verification/Bump.thy ===== *)
theory Bump
  imports Frames
begin

text \<open>
  The bump frame allocator of \<open>kernel/src/memory/bump.rs\<close>: a cursor
  (\<open>region_idx\<close>, \<open>next_addr\<close>) that walks the memory map once and never goes back.
  The loop of \<open>allocate_frame\<close> either returns or moves to the next region, so it
  ends after at most as many rounds as there are regions left.
\<close>

record BootFrameAllocator =
  bt_regions :: "memory_region list"
  bt_region_idx :: nat
  bt_next_addr :: u64

definition boot_new :: "memory_region list \<Rightarrow> BootFrameAllocator" where
  "boot_new rs = \<lparr>bt_regions = rs, bt_region_idx = 0, bt_next_addr = 0\<rparr>"

definition boot_advance :: "BootFrameAllocator \<Rightarrow> BootFrameAllocator" where
  "boot_advance s = s\<lparr>bt_region_idx := Suc (bt_region_idx s), bt_next_addr := 0\<rparr>"

function boot_allocate_frame :: "BootFrameAllocator \<Rightarrow> u64 option \<times> BootFrameAllocator" where
  "boot_allocate_frame s =
     (if bt_region_idx s < length (bt_regions s) then
        let region = bt_regions s ! bt_region_idx s in
        if \<not> r_usable region then boot_allocate_frame (boot_advance s)
        else
          case checked_next_multiple_of (r_start region) 4096 of
            None \<Rightarrow> boot_allocate_frame (boot_advance s)
          | Some aligned \<Rightarrow>
              let addr = max (max aligned (bt_next_addr s)) 0x1000 in
              (case checked_add addr 4096 of
                 None \<Rightarrow> (None, s)
               | Some frame_end \<Rightarrow>
                   if r_end region < frame_end then boot_allocate_frame (boot_advance s)
                   else (Some addr, s\<lparr>bt_next_addr := frame_end\<rparr>))
      else (None, s))"
  by pat_completeness auto
termination
  by (relation "measure (\<lambda>s. length (bt_regions s) - bt_region_idx s)")
     (auto simp: boot_advance_def)

declare boot_allocate_frame.simps [simp del]

section \<open>What the cursor still has to hand out\<close>

definition cursor_pending :: "memory_region list \<Rightarrow> nat \<Rightarrow> u64 \<Rightarrow> nat list" where
  "cursor_pending rs i na =
     (if i < length rs
      then cursor_frames (rs ! i) (unat na) @ map_frames (drop (Suc i) rs)
      else [])"

definition boot_pending :: "BootFrameAllocator \<Rightarrow> nat list" where
  "boot_pending s = cursor_pending (bt_regions s) (bt_region_idx s) (bt_next_addr s)"

definition boot_inv :: "BootFrameAllocator \<Rightarrow> bool" where
  "boot_inv s \<longleftrightarrow> phys_map (bt_regions s) \<and> 4096 dvd unat (bt_next_addr s) \<and>
     unat (bt_next_addr s) \<le> 2 ^ 52"

lemma cursor_pending_advance:
  "i < length rs \<Longrightarrow>
   cursor_pending rs i na = cursor_frames (rs ! i) (unat na) @ cursor_pending rs (Suc i) 0"
  by (cases "Suc i < length rs")
     (simp_all add: cursor_pending_def Cons_nth_drop_Suc[symmetric])

lemma cursor_pending_subset: "set (cursor_pending rs i na) \<subseteq> set (map_frames rs)"
proof (cases "i < length rs")
  case True
  then have "rs = take i rs @ rs ! i # drop (Suc i) rs" by (simp add: id_take_nth_drop)
  then have "set (map_frames rs) =
      set (map_frames (take i rs)) \<union> set (region_frames (rs ! i)) \<union> set (map_frames (drop (Suc i) rs))"
    by (metis (no_types, lifting) map_frames_Cons map_frames_append set_append Un_assoc)
  then show ?thesis using True cursor_frames_subset[of "rs ! i" "unat na"]
    by (auto simp: cursor_pending_def)
qed (simp add: cursor_pending_def)

lemma cursor_pending_distinct:
  assumes "phys_map rs"
  shows "distinct (cursor_pending rs i na)"
proof (cases "i < length rs")
  case True
  then have "rs = take i rs @ rs ! i # drop (Suc i) rs" by (simp add: id_take_nth_drop)
  then have "distinct (region_frames (rs ! i) @ map_frames (drop (Suc i) rs))"
    using phys_map_distinct[OF assms]
    by (metis (no_types, lifting) map_frames_Cons map_frames_append distinct_append)
  then show ?thesis
    using True cursor_frames_subset[of "rs ! i" "unat na"] cursor_frames_distinct[of "rs ! i" "unat na"]
    by (auto simp: cursor_pending_def)
qed (simp add: cursor_pending_def)

text \<open>
  The one arithmetic step of the loop: for an aligned cursor inside a usable
  region the candidate address is the first frame of \<open>cursor_frames\<close>, and the end
  test asks whether that list is empty.
\<close>

lemma cursor_candidate:
  assumes "r_usable r" "4096 dvd unat na"
    and "checked_next_multiple_of (r_start r) 4096 = Some aligned"
    and "checked_add (max (max aligned na) 0x1000) 4096 = Some frame_end"
  defines "addr \<equiv> max (max aligned na) (0x1000 :: u64)"
  shows "4096 dvd unat addr \<and> unat frame_end = unat addr + 4096 \<and>
     cursor_frames r (unat na) = [unat addr div 4096 ..< unat (r_end r) div 4096] \<and>
     cursor_frames r (unat frame_end) = [Suc (unat addr div 4096) ..< unat (r_end r) div 4096]"
proof -
  have al: "unat aligned = align_up (unat (r_start r)) 4096"
    using assms(3) by (simp add: rust_arith)
  have fe: "unat frame_end = unat addr + 4096"
    using assms(4) unfolding addr_def by (simp add: rust_arith)
  have addr: "unat addr = max (max (unat aligned) (unat na)) 4096"
    unfolding addr_def by (simp add: unat_max)
  have dvd: "4096 dvd unat addr"
    using assms(2) by (simp add: addr al max_def)
  define q where "q = unat addr div 4096"
  have q: "unat addr = 4096 * q" using dvd by (simp add: q_def)
  obtain p where p: "unat na = 4096 * p" using assms(2) by (auto elim: dvdE)
  obtain k where k: "align_up (unat (r_start r)) 4096 = 4096 * k"
    by (metis align_up_dvd dvdE)
  have "max (max 1 k) p = q"
    using addr q unfolding al p k by (simp add: max_def split: if_splits)
  moreover from this have "max (max 1 k) (Suc q) = Suc q" by simp
  moreover have "align_up (unat na) 4096 = 4096 * p" by (simp add: align_up_id p)
  moreover have "align_up (unat frame_end) 4096 = 4096 * Suc q"
    using align_up_id[of 4096 "4096 * Suc q"] by (simp add: fe q add.commute)
  ultimately show ?thesis
    using assms(1) dvd fe by (auto simp: cursor_frames_def k q)
qed

lemma cursor_no_overflow:
  assumes "unat (r_start r) \<le> 2 ^ 52" "unat na \<le> 2 ^ 52"
  obtains aligned frame_end where
    "checked_next_multiple_of (r_start r) 4096 = Some (aligned :: u64)"
    "checked_add (max (max aligned na) 0x1000) 4096 = Some (frame_end :: u64)"
proof -
  have "align_up (unat (r_start r)) 4096 < 2 ^ 53"
    using align_up_less[of 4096 "unat (r_start r)"] assms(1) by simp
  then obtain aligned :: u64 where a: "checked_next_multiple_of (r_start r) 4096 = Some aligned"
    "unat aligned < 2 ^ 53"
    using checked_next_multiple_of_eq_None[of "4096 :: u64" "r_start r"]
    by (cases "checked_next_multiple_of (r_start r) 4096") (simp_all add: rust_arith)
  then have "unat (max (max aligned na) 0x1000) + 4096 < 2 ^ 64"
    using assms(2) by (simp add: unat_max)
  then have "checked_add (max (max aligned na) 0x1000) 4096 \<noteq> None"
    by (simp add: rust_arith)
  with a that show ?thesis by blast
qed

section \<open>The allocator refines the list of pending frames\<close>

lemma boot_inv_advance: "boot_inv s \<Longrightarrow> boot_inv (boot_advance s)"
  by (simp add: boot_inv_def boot_advance_def)

text \<open>One round of the loop: skip a region with nothing left, or hand out its first frame.\<close>

lemma boot_allocate_round:
  assumes "boot_inv s" and i: "bt_region_idx s < length (bt_regions s)"
  defines "fs \<equiv> cursor_frames (bt_regions s ! bt_region_idx s) (unat (bt_next_addr s))"
  shows "(fs = [] \<and> boot_allocate_frame s = boot_allocate_frame (boot_advance s)) \<or>
     (\<exists>a e. boot_allocate_frame s = (Some a, s\<lparr>bt_next_addr := e\<rparr>) \<and>
        fs = unat a div 4096 # cursor_frames (bt_regions s ! bt_region_idx s) (unat e) \<and>
        4096 dvd unat a \<and> 4096 dvd unat e \<and> unat e \<le> 2 ^ 52)"
proof (cases "r_usable (bt_regions s ! bt_region_idx s)")
  case False
  then show ?thesis
    using i by (simp add: boot_allocate_frame.simps[of s] fs_def cursor_frames_def)
next
  case True
  let ?r = "bt_regions s ! bt_region_idx s" and ?na = "bt_next_addr s"
  have b: "unat (r_start ?r) \<le> 2 ^ 52" "unat (r_end ?r) \<le> 2 ^ 52"
      "4096 dvd unat ?na" "unat ?na \<le> 2 ^ 52"
    using assms(1) phys_map_bounds[OF _ i True] by (simp_all add: boot_inv_def)
  obtain aligned frame_end where
    al: "checked_next_multiple_of (r_start ?r) 4096 = Some aligned" and
    fe: "checked_add (max (max aligned ?na) 0x1000) 4096 = Some frame_end"
    using cursor_no_overflow[OF b(1,4)] by metis
  define addr where "addr = max (max aligned ?na) (0x1000 :: u64)"
  have cand: "4096 dvd unat addr" "unat frame_end = unat addr + 4096"
      "fs = [unat addr div 4096 ..< unat (r_end ?r) div 4096]"
      "cursor_frames ?r (unat frame_end) = [Suc (unat addr div 4096) ..< unat (r_end ?r) div 4096]"
    using cursor_candidate[OF True b(3) al fe] unfolding addr_def fs_def by blast+
  show ?thesis
  proof (cases "r_end ?r < frame_end")
    case True
    then have "unat (r_end ?r) div 4096 \<le> unat addr div 4096"
      using cand(1,2) by (auto simp: word_less_nat_alt elim!: dvdE)
    then have "fs = []" using cand(3) by simp
    then show ?thesis
      using True i \<open>r_usable ?r\<close> al fe by (simp add: boot_allocate_frame.simps[of s] Let_def)
  next
    case False
    then have le: "unat frame_end \<le> unat (r_end ?r)" by (simp add: word_less_nat_alt)
    then have "unat addr div 4096 < unat (r_end ?r) div 4096"
      using cand(1,2) by (auto elim!: dvdE)
    then have "fs = unat addr div 4096 # cursor_frames ?r (unat frame_end)"
      unfolding cand(3,4) by (rule upt_conv_Cons)
    moreover have "boot_allocate_frame s = (Some addr, s\<lparr>bt_next_addr := frame_end\<rparr>)"
      using False i \<open>r_usable ?r\<close> al fe
      by (simp add: boot_allocate_frame.simps[of s] Let_def addr_def)
    moreover have "4096 dvd unat frame_end" using cand(1,2) by simp
    moreover have "unat frame_end \<le> 2 ^ 52" using le b(2) by simp
    ultimately show ?thesis using cand(1) by blast
  qed
qed

definition pending_step :: "nat list \<Rightarrow> u64 option \<Rightarrow> nat list \<Rightarrow> bool" where
  "pending_step fs oa fs' \<longleftrightarrow>
     (case fs of [] \<Rightarrow> oa = None \<and> fs' = []
      | f # rest \<Rightarrow> (\<exists>a. oa = Some a \<and> unat a = 4096 * f) \<and> fs' = rest)"

lemma boot_allocate_frame_refines:
  assumes "boot_inv s" "boot_allocate_frame s = (oa, s')"
  shows "pending_step (boot_pending s) oa (boot_pending s') \<and> boot_inv s' \<and>
     bt_regions s' = bt_regions s"
  using assms
proof (induction "length (bt_regions s) - bt_region_idx s" arbitrary: s rule: less_induct)
  case less
  show ?case
  proof (cases "bt_region_idx s < length (bt_regions s)")
    case False
    then show ?thesis
      using less.prems
      by (auto simp: boot_allocate_frame.simps[of s] boot_pending_def cursor_pending_def pending_step_def)
  next
    case True
    note pend = cursor_pending_advance[OF True]
    from boot_allocate_round[OF less.prems(1) True] show ?thesis
    proof (elim disjE conjE exE)
      assume e: "cursor_frames (bt_regions s ! bt_region_idx s) (unat (bt_next_addr s)) = []"
        and eq: "boot_allocate_frame s = boot_allocate_frame (boot_advance s)"
      have "boot_pending s = boot_pending (boot_advance s)"
        using pend[of "bt_next_addr s"] e by (simp add: boot_pending_def boot_advance_def)
      moreover have "bt_regions (boot_advance s) = bt_regions s" by (simp add: boot_advance_def)
      moreover have "length (bt_regions (boot_advance s)) - bt_region_idx (boot_advance s)
          < length (bt_regions s) - bt_region_idx s"
        using True by (simp add: boot_advance_def)
      ultimately show ?thesis
        using less.hyps[of "boot_advance s"] boot_inv_advance[OF less.prems(1)] less.prems(2) eq
        by simp
    next
      fix a e
      assume eq: "boot_allocate_frame s = (Some a, s\<lparr>bt_next_addr := e\<rparr>)"
        and fs: "cursor_frames (bt_regions s ! bt_region_idx s) (unat (bt_next_addr s)) =
          unat a div 4096 # cursor_frames (bt_regions s ! bt_region_idx s) (unat e)"
        and d: "4096 dvd unat a" "4096 dvd unat e" "unat e \<le> 2 ^ 52"
      have s': "oa = Some a" "s' = s\<lparr>bt_next_addr := e\<rparr>" using eq less.prems(2) by auto
      show ?thesis
        using pend[of "bt_next_addr s"] pend[of e] fs d less.prems(1)
        by (auto simp: s' boot_pending_def pending_step_def boot_inv_def)
    qed
  qed
qed

interpretation boot: frame_allocator
  "\<lambda>s. Inr (boot_allocate_frame s)" "\<lambda>s. mset (boot_pending s)" boot_inv
proof unfold_locales
  fix s
  assume inv: "boot_inv s"
  obtain oa s' where r: "boot_allocate_frame s = (oa, s')" by (cases "boot_allocate_frame s")
  note step = boot_allocate_frame_refines[OF inv r]
  show "mset (boot_pending s) = {#} \<Longrightarrow>
      \<exists>s'. Inr (boot_allocate_frame s) = Inr (None, s') \<and> boot_inv s' \<and> mset (boot_pending s') = {#}"
    using step by (simp add: pending_step_def r)
  show "mset (boot_pending s) \<noteq> {#} \<Longrightarrow>
      \<exists>a s'. Inr (boot_allocate_frame s) = Inr (Some a, s') \<and> 4096 dvd unat a \<and>
        mset (boot_pending s) = add_mset (unat a div 4096) (mset (boot_pending s')) \<and> boot_inv s'"
    using step by (cases "boot_pending s") (auto simp: pending_step_def r)
  have "distinct (boot_pending s)"
    using inv by (simp add: boot_pending_def boot_inv_def cursor_pending_distinct)
  then show "\<And>f. count (mset (boot_pending s)) f \<le> 1"
    by (simp only: distinct_iff_count_le_1)
  have "0 \<notin> set (boot_pending s)"
    unfolding boot_pending_def using cursor_pending_subset map_frames_pos by blast
  then show "0 \<notin># mset (boot_pending s)" by simp
qed

lemma boot_new_inv: "phys_map rs \<Longrightarrow> boot_inv (boot_new rs)"
  by (simp add: boot_inv_def boot_new_def)

lemma boot_new_pending: "boot_pending (boot_new rs) = map_frames rs"
  by (cases rs) (simp_all add: boot_pending_def boot_new_def cursor_pending_def)

end
