(* ===== verification/Buddy.thy ===== *)
theory Buddy
  imports Bump
begin

text \<open>
  The buddy frame allocator of \<open>kernel/src/memory/buddy.rs\<close>. It starts as a bump
  cursor (\<open>bump_one\<close>), turns the rest of the map into power-of-two free lists
  (\<open>activate\<close>), and from then on splits (\<open>take_block\<close>) and merges
  (\<open>deallocate_frame\<close>). An address is a \<open>u64\<close>, and the buddy of a block is found by
  exclusive-or, as in the source.
\<close>

definition BUDDY_MAX_ORDER :: nat where
  "BUDDY_MAX_ORDER = 12"

definition BUDDY_ORDERS :: nat where
  "BUDDY_ORDERS = BUDDY_MAX_ORDER + 1"

definition FRAME_SIZE :: u64 where
  "FRAME_SIZE = 4096"

definition MIN_ADDR :: u64 where
  "MIN_ADDR = 0x1000"

record BuddyFrameAllocator =
  bd_regions :: "memory_region list"
  bd_region_idx :: nat
  bd_next_addr :: u64
  bd_active :: bool
  bd_free_lists :: "u64 list list"
  bd_allocated :: u64

definition buddy_new :: "memory_region list \<Rightarrow> BuddyFrameAllocator" where
  "buddy_new rs =
     \<lparr>bd_regions = rs, bd_region_idx = 0, bd_next_addr = 0, bd_active = False,
      bd_free_lists = replicate BUDDY_ORDERS [], bd_allocated = 0\<rparr>"

text \<open>\<open>1u64 << (order + 12)\<close>: the size in bytes of a block.\<close>

definition block_size :: "nat \<Rightarrow> u64" where
  "block_size order = push_bit (order + 12) 1"

lemma unat_block_size: "order \<le> BUDDY_MAX_ORDER \<Longrightarrow> unat (block_size order) = 2 ^ (order + 12)"
  by (simp add: block_size_def unat_power_two BUDDY_MAX_ORDER_def)

section \<open>Bump mode\<close>

function bump_one :: "BuddyFrameAllocator \<Rightarrow> u64 option \<times> BuddyFrameAllocator" where
  "bump_one s =
     (if bd_region_idx s < length (bd_regions s) then
        let region = bd_regions s ! bd_region_idx s;
            skip = s\<lparr>bd_region_idx := bd_region_idx s + 1, bd_next_addr := 0\<rparr> in
        if \<not> r_usable region then bump_one skip
        else
          case checked_next_multiple_of (r_start region) FRAME_SIZE of
            None \<Rightarrow> bump_one skip
          | Some aligned \<Rightarrow>
              let addr = max (max aligned (bd_next_addr s)) MIN_ADDR in
              (case checked_add addr FRAME_SIZE of
                 None \<Rightarrow> (None, s)
               | Some frame_end \<Rightarrow>
                   if r_end region < frame_end then bump_one skip
                   else (Some addr, s\<lparr>bd_next_addr := frame_end\<rparr>))
      else (None, s))"
  by pat_completeness auto
termination
  by (relation "measure (\<lambda>s. length (bd_regions s) - bd_region_idx s)") auto

declare bump_one.simps [simp del]

section \<open>Carving the rest of the map into free lists\<close>

text \<open>The inner \<open>loop\<close> of \<open>activate\<close>: the largest order that fits and is aligned at \<open>start\<close>.\<close>

fun fit_order :: "u64 \<Rightarrow> u64 \<Rightarrow> nat \<Rightarrow> nat" where
  "fit_order remaining start order =
     (let size = block_size order in
      if size \<le> remaining \<and> start mod size = 0 then order
      else if order = 0 then order
      else fit_order remaining start (order - 1))"

declare fit_order.simps [simp del]

lemma fit_order_le: "fit_order remaining start order \<le> order"
proof (induction remaining start order rule: fit_order.induct)
  case (1 remaining start order)
  then show ?case
    by (subst fit_order.simps) (force simp: Let_def)
qed

text \<open>The \<open>while\<close> loop of \<open>activate\<close>, over one region.\<close>

function carve :: "u64 list list \<Rightarrow> u64 \<Rightarrow> u64 \<Rightarrow> u64 list list outcome" where
  "carve fl start end =
     obind (add_op start FRAME_SIZE) (\<lambda>frame_end.
       if frame_end \<le> end then
         (let remaining = end - start;
              order = fit_order remaining start BUDDY_MAX_ORDER;
              size = block_size order in
          obind (add_op start size) (\<lambda>start'.
            carve (fl[order := fl ! order @ [start]]) start' end))
       else Inr fl)"
  by pat_completeness auto
termination
proof (relation "measure (\<lambda>(fl, start, end). unat end - unat start)", goal_cases)
  case (2 fl start "end" frame_end remaining order size start')
  then have "order \<le> BUDDY_MAX_ORDER" by (simp add: fit_order_le)
  then have "0 < unat size" using 2 by (simp add: unat_block_size)
  then show ?case using 2 by (simp add: rust_arith FRAME_SIZE_def word_le_nat_alt)
qed simp

declare carve.simps [simp del]

definition activate_region ::
  "nat \<Rightarrow> u64 \<Rightarrow> nat \<Rightarrow> memory_region \<Rightarrow> u64 list list \<Rightarrow> u64 list list outcome" where
  "activate_region region_idx next_addr i r fl =
     (if \<not> r_usable r then Inr fl
      else if r_end r \<le> r_start r then Inr fl
      else
        obind (next_multiple_of (r_start r) FRAME_SIZE) (\<lambda>a.
          let start = max a MIN_ADDR;
              end = r_end r AND NOT (FRAME_SIZE - 1) in
          if i = region_idx then
            obind (next_multiple_of next_addr FRAME_SIZE) (\<lambda>n. carve fl (max start n) end)
          else if i < region_idx then Inr fl
          else carve fl start end))"

fun activate_from ::
  "nat \<Rightarrow> u64 \<Rightarrow> nat \<Rightarrow> memory_region list \<Rightarrow> u64 list list \<Rightarrow> u64 list list outcome" where
  "activate_from region_idx next_addr i [] fl = Inr fl"
| "activate_from region_idx next_addr i (r # rs) fl =
     obind (activate_region region_idx next_addr i r fl)
       (activate_from region_idx next_addr (Suc i) rs)"

definition activate :: "BuddyFrameAllocator \<Rightarrow> BuddyFrameAllocator outcome" where
  "activate s =
     obind (assert_that (\<not> bd_active s) ''buddy activate called twice'') (\<lambda>_.
     obind (activate_from (bd_region_idx s) (bd_next_addr s) 0 (bd_regions s) (bd_free_lists s))
       (\<lambda>fl. Inr (s\<lparr>bd_free_lists := fl, bd_region_idx := length (bd_regions s),
                    bd_next_addr := - 1, bd_active := True\<rparr>)))"

section \<open>Counting, splitting and merging\<close>

fun free_frames_from :: "nat \<Rightarrow> u64 \<Rightarrow> u64 list list \<Rightarrow> u64 outcome" where
  "free_frames_from order n [] = Inr n"
| "free_frames_from order n (xs # rest) =
     obind (mul_op (of_nat (length xs)) (push_bit order 1)) (\<lambda>k.
     obind (add_op n k) (\<lambda>n'. free_frames_from (Suc order) n' rest))"

definition free_frames :: "BuddyFrameAllocator \<Rightarrow> u64 outcome" where
  "free_frames s = free_frames_from 0 0 (bd_free_lists s)"

definition allocated_frames :: "BuddyFrameAllocator \<Rightarrow> u64" where
  "allocated_frames s = bd_allocated s"

function take_block :: "u64 list list \<Rightarrow> nat \<Rightarrow> (u64 option \<times> u64 list list) outcome" where
  "take_block fl order =
     (if BUDDY_MAX_ORDER < order then Inr (None, fl)
      else if fl ! order \<noteq> [] then
        Inr (Some (last (fl ! order)), fl[order := butlast (fl ! order)])
      else
        obind (take_block fl (order + 1)) (\<lambda>(r, fl').
          case r of
            None \<Rightarrow> Inr (None, fl')
          | Some higher \<Rightarrow>
              let half = block_size order in
              obind (add_op higher half) (\<lambda>hi.
                Inr (Some higher, fl'[order := fl' ! order @ [hi]]))))"
  by pat_completeness auto
termination
  by (relation "measure (\<lambda>(fl, order). BUDDY_ORDERS - order)") (auto simp: BUDDY_ORDERS_def)

declare take_block.simps [simp del]

definition buddy_allocate_frame ::
  "BuddyFrameAllocator \<Rightarrow> (u64 option \<times> BuddyFrameAllocator) outcome" where
  "buddy_allocate_frame s =
     obind
       (if bd_active s
        then obind (take_block (bd_free_lists s) 0)
               (\<lambda>(r, fl). Inr (r, s\<lparr>bd_free_lists := fl\<rparr>))
        else Inr (bump_one s))
       (\<lambda>(r, s').
          case r of
            None \<Rightarrow> Inr (None, s')
          | Some addr \<Rightarrow>
              obind (assert_that (addr mod FRAME_SIZE = 0) ''addr % FRAME_SIZE'') (\<lambda>_.
              obind (assert_that (MIN_ADDR \<le> addr) ''buddy handed out the zero page'') (\<lambda>_.
              obind (add_op (bd_allocated s') 1) (\<lambda>n.
                Inr (Some addr, s'\<lparr>bd_allocated := n\<rparr>)))))"

text \<open>
  The \<open>loop\<close> of \<open>deallocate_frame\<close>. Past the last order the array index would
  panic; the loop never gets there, because it stops at \<open>BUDDY_MAX_ORDER\<close>.
\<close>

function merge_up :: "u64 list list \<Rightarrow> u64 \<Rightarrow> nat \<Rightarrow> u64 list list outcome" where
  "merge_up fl addr order =
     (if BUDDY_MAX_ORDER < order then Inl OutOfBounds
      else if order = BUDDY_MAX_ORDER then Inr (fl[order := fl ! order @ [addr]])
      else
        let buddy = addr XOR block_size order in
        case position (\<lambda>a. a = buddy) (fl ! order) of
          Some pos \<Rightarrow>
            merge_up (fl[order := swap_remove (fl ! order) pos]) (min addr buddy) (order + 1)
        | None \<Rightarrow> Inr (fl[order := fl ! order @ [addr]]))"
  by pat_completeness auto
termination
  by (relation "measure (\<lambda>(fl, addr, order). BUDDY_ORDERS - order)") (auto simp: BUDDY_ORDERS_def)

declare merge_up.simps [simp del]

definition deallocate_frame :: "BuddyFrameAllocator \<Rightarrow> u64 \<Rightarrow> BuddyFrameAllocator outcome" where
  "deallocate_frame s addr =
     obind (assert_that (bd_active s) ''buddy free before activate'') (\<lambda>_.
     obind (assert_that (addr mod FRAME_SIZE = 0) ''buddy free of unaligned frame'') (\<lambda>_.
     obind (assert_that (MIN_ADDR \<le> addr) ''buddy free of the zero page'') (\<lambda>_.
     obind (merge_up (bd_free_lists s) addr 0) (\<lambda>fl.
       Inr (s\<lparr>bd_free_lists := fl, bd_allocated := saturating_sub (bd_allocated s) 1\<rparr>)))))"

section \<open>The frames behind the free lists\<close>

text \<open>
  The abstraction: a free list of order \<open>k\<close> stands for the multiset of the frame
  numbers of its blocks, \<open>2 ^ k\<close> per block, and the allocator for the sum over the
  orders. A frame with count two would be owned twice.
\<close>

definition block_frames :: "nat \<Rightarrow> u64 \<Rightarrow> nat list" where
  "block_frames k a = [unat a div 4096 ..< unat a div 4096 + 2 ^ k]"

definition order_frames :: "nat \<Rightarrow> u64 list \<Rightarrow> nat multiset" where
  "order_frames k xs = mset (concat (map (block_frames k) xs))"

definition free_mset :: "u64 list list \<Rightarrow> nat multiset" where
  "free_mset fl = (\<Sum>k<length fl. order_frames k (fl ! k))"

definition wf_lists :: "u64 list list \<Rightarrow> bool" where
  "wf_lists fl \<longleftrightarrow> length fl = BUDDY_ORDERS \<and>
     (\<forall>k<BUDDY_ORDERS. \<forall>a\<in>set (fl ! k). 2 ^ (k + 12) dvd unat a)"

lemma order_frames_simps [simp]:
  "order_frames k [] = {#}"
  "order_frames k (x # xs) = mset (block_frames k x) + order_frames k xs"
  "order_frames k (xs @ ys) = order_frames k xs + order_frames k ys"
  by (simp_all add: order_frames_def)

lemma order_frames_mset_cong:
  assumes "mset xs = mset ys"
  shows "order_frames k xs = order_frames k ys"
proof -
  have "order_frames k zs = \<Sum>\<^sub># (image_mset (\<lambda>a. mset (block_frames k a)) (mset zs))" for zs
    by (induction zs) simp_all
  then show ?thesis using assms by simp
qed

lemma free_mset_update:
  assumes "k < length fl"
  shows "free_mset (fl[k := xs]) + order_frames k (fl ! k) = free_mset fl + order_frames k xs"
proof -
  let ?rest = "\<lambda>l. \<Sum>j\<in>{..<length fl} - {k}. order_frames j (l ! j)"
  have "free_mset fl = order_frames k (fl ! k) + ?rest fl"
    using assms by (simp add: free_mset_def sum.remove)
  moreover have "free_mset (fl[k := xs]) = order_frames k xs + ?rest (fl[k := xs])"
    using assms by (simp add: free_mset_def sum.remove)
  moreover have "?rest (fl[k := xs]) = ?rest fl" by (rule sum.cong) auto
  ultimately show ?thesis by simp
qed

lemma free_mset_push:
  "k < length fl \<Longrightarrow> free_mset (fl[k := fl ! k @ [a]]) = mset (block_frames k a) + free_mset fl"
  using free_mset_update[of k fl "fl ! k @ [a]"] by simp

lemma free_mset_remove:
  assumes "k < length fl" "mset (fl ! k) = add_mset a (mset xs)"
  shows "free_mset fl = mset (block_frames k a) + free_mset (fl[k := xs])"
  using free_mset_update[OF assms(1), of xs] order_frames_mset_cong[of "fl ! k" "a # xs" k] assms(2)
  by (simp add: ac_simps)

lemma free_mset_empty: "(\<forall>k<length fl. fl ! k = []) \<Longrightarrow> free_mset fl = {#}"
  by (simp add: free_mset_def)

lemma wf_lists_length [simp]: "wf_lists fl \<Longrightarrow> length fl = BUDDY_ORDERS"
  by (simp add: wf_lists_def)

lemma wf_lists_aligned:
  "wf_lists fl \<Longrightarrow> k \<le> BUDDY_MAX_ORDER \<Longrightarrow> a \<in> set (fl ! k) \<Longrightarrow> 2 ^ (k + 12) dvd unat a"
  by (simp add: wf_lists_def BUDDY_ORDERS_def)

lemma wf_lists_update:
  assumes "wf_lists fl" "\<forall>a\<in>set xs. 2 ^ (k + 12) dvd unat a"
  shows "wf_lists (fl[k := xs])"
proof -
  have "2 ^ (j + 12) dvd unat a" if "j < BUDDY_ORDERS" "a \<in> set (fl[k := xs] ! j)" for j a
    using that assms by (cases "j = k") (auto simp: wf_lists_def)
  then show ?thesis using assms(1) by (simp add: wf_lists_def)
qed

lemma block_frames_member:
  assumes "a \<in> set (fl ! k)" "k < length fl" "f \<in> set (block_frames k a)"
  shows "f \<in># free_mset fl"
proof -
  obtain xs where "mset (fl ! k) = add_mset a (mset xs)"
    using assms(1) by (metis ex_mset mset_add set_mset_mset)
  then show ?thesis using free_mset_remove[OF assms(2)] assms(3) by simp
qed

text \<open>Alignment leaves room for the whole block below the end of the address space.\<close>

lemma aligned_room:
  assumes "2 ^ k dvd unat (a :: u64)" "k \<le> 64"
  shows "unat a + 2 ^ k \<le> 2 ^ 64"
proof -
  obtain q where q: "unat a = 2 ^ k * q" using assms(1) by (auto elim: dvdE)
  obtain j where j: "64 = k + j" using assms(2) by (metis le_add_diff_inverse)
  have "2 ^ k * q < 2 ^ k * 2 ^ j"
    using unat_u64_less[of a] unfolding q j power_add .
  then have "Suc q \<le> 2 ^ j" by simp
  then have "2 ^ k * Suc q \<le> 2 ^ k * 2 ^ j" by (rule mult_le_mono2)
  then show ?thesis by (simp add: q j power_add algebra_simps)
qed

lemma double_block: "(2 :: nat) ^ (Suc k + 12) = 2 ^ (k + 12) * 2"
  by (simp only: add_Suc power_Suc mult.commute)

text \<open>A block is its two halves; the buddies of a block of order \<open>k\<close> are those halves.\<close>

lemma split_block:
  assumes "2 ^ (Suc k + 12) dvd unat a" "k < BUDDY_MAX_ORDER"
  shows "add_op a (block_size k) = Inr (a + block_size k)"
    and "unat (a + block_size k) = unat a + 2 ^ (k + 12)"
    and "2 ^ (k + 12) dvd unat (a + block_size k)"
    and "block_frames (Suc k) a = block_frames k a @ block_frames k (a + block_size k)"
proof -
  have size: "unat (block_size k) = 2 ^ (k + 12)" using assms(2) by (simp add: unat_block_size)
  have "unat a + 2 ^ (Suc k + 12) \<le> 2 ^ 64"
    using aligned_room[OF assms(1)] assms(2) by (simp add: BUDDY_MAX_ORDER_def)
  moreover have "(2 :: nat) ^ (k + 12) < 2 ^ (Suc k + 12)" by simp
  ultimately have room: "unat a + unat (block_size k) < 2 ^ 64"
    unfolding size by linarith
  then show "add_op a (block_size k) = Inr (a + block_size k)"
    by (simp add: add_op_no_overflow)
  show u: "unat (a + block_size k) = unat a + 2 ^ (k + 12)"
    using room size unat_add_no_overflow[of a "block_size k"] by simp
  have "2 ^ (k + 12) dvd unat a"
    using assms(1) by (rule dvd_trans[rotated]) (simp add: le_imp_power_dvd)
  then show "2 ^ (k + 12) dvd unat (a + block_size k)" unfolding u by simp
  have "unat (a + block_size k) div 4096 = unat a div 4096 + 2 ^ k"
    unfolding u by (simp add: power_add)
  then show "block_frames (Suc k) a = block_frames k a @ block_frames k (a + block_size k)"
    using upt_add_eq_append[of "unat a div 4096" "unat a div 4096 + 2 ^ k" "2 ^ k"]
    by (simp add: block_frames_def mult_2 add.assoc)
qed

lemma buddy_pair:
  assumes "2 ^ (k + 12) dvd unat a" "k < BUDDY_MAX_ORDER"
  defines "b \<equiv> a XOR block_size k"
  shows "2 ^ (Suc k + 12) dvd unat (min a b)"
    and "(min a b = a \<and> b = a + block_size k) \<or> (min a b = b \<and> a = b + block_size k)"
proof -
  let ?S = "2 ^ (k + 12) :: nat"
  have b: "unat b = (if odd (unat a div ?S) then unat a - ?S else unat a + ?S)"
    unfolding b_def block_size_def using assms(2)
    by (intro unat_xor_bit) (simp add: BUDDY_MAX_ORDER_def)
  obtain q where q: "unat a = ?S * q" using assms(1) by (auto elim: dvdE)
  have qdiv: "unat a div ?S = q" using q by simp
  have size: "unat (block_size k) = ?S" using assms(2) by (simp add: unat_block_size)
  show "2 ^ (Suc k + 12) dvd unat (min a b)"
  proof (cases "odd q")
    case True
    then obtain p where p: "q = 2 * p + 1" by (auto elim: oddE)
    then have "unat b = ?S * (2 * p)" using b qdiv q by (simp add: algebra_simps)
    then have "unat (min a b) = ?S * 2 * p" using q p by (simp add: unat_min min.absorb2)
    then show ?thesis unfolding double_block by simp
  next
    case False
    then obtain p where p: "q = 2 * p" by (auto elim: evenE)
    have "unat b = unat a + ?S" using b qdiv False by simp
    then have "unat (min a b) = ?S * 2 * p" using q p by (simp add: unat_min)
    then show ?thesis unfolding double_block by simp
  qed
  show "(min a b = a \<and> b = a + block_size k) \<or> (min a b = b \<and> a = b + block_size k)"
  proof (cases "odd q")
    case True
    then have "?S \<le> unat a" using q by (cases q) simp_all
    then have sum: "unat a = unat b + unat (block_size k)"
      using True b qdiv size by simp
    then have "a = b + block_size k"
      using unat_u64_less[of a] by (simp add: word_unat_eq_iff unat_add_no_overflow)
    then show ?thesis using sum by (simp add: min_absorb2 word_le_nat_alt)
  next
    case False
    then have sum: "unat b = unat a + unat (block_size k)" using b qdiv size by simp
    then have "b = a + block_size k"
      using unat_u64_less[of b] by (simp add: word_unat_eq_iff unat_add_no_overflow)
    then show ?thesis using sum by (simp add: min_absorb1 word_le_nat_alt)
  qed
qed

lemma buddy_merge:
  assumes "2 ^ (k + 12) dvd unat a" "k < BUDDY_MAX_ORDER"
  defines "b \<equiv> a XOR block_size k"
  shows "mset (block_frames (Suc k) (min a b)) = mset (block_frames k a) + mset (block_frames k b)"
proof -
  note pair = buddy_pair[OF assms(1,2), folded b_def]
  have "mset (block_frames (Suc k) (min a b)) =
      mset (block_frames k (min a b)) + mset (block_frames k (min a b + block_size k))"
    using split_block(4)[OF pair(1) assms(2)] by simp
  then show ?thesis using pair(2) by (auto simp: union_commute)
qed

section \<open>Splitting and merging on the multiset of free frames\<close>

lemma take_block_top: "BUDDY_MAX_ORDER < k \<Longrightarrow> take_block fl k = Inr (None, fl)"
  by (simp add: take_block.simps)

lemma take_block_spec:
  assumes "wf_lists fl"
  shows "\<exists>r fl'. take_block fl k = Inr (r, fl') \<and> wf_lists fl' \<and> (\<forall>j<k. fl' ! j = fl ! j) \<and>
     (case r of
        None \<Rightarrow> fl' = fl \<and> (\<forall>j. k \<le> j \<and> j \<le> BUDDY_MAX_ORDER \<longrightarrow> fl ! j = [])
      | Some a \<Rightarrow> 2 ^ (k + 12) dvd unat a \<and>
                  free_mset fl = mset (block_frames k a) + free_mset fl')"
  using assms
proof (induction fl k rule: take_block.induct)
  case (1 fl k)
  show ?case
  proof (cases "BUDDY_MAX_ORDER < k")
    case True
    then show ?thesis using "1.prems" by (auto simp: take_block.simps)
  next
    case k: False
    then have len: "k < length fl" using "1.prems" by (simp add: BUDDY_ORDERS_def)
    show ?thesis
    proof (cases "fl ! k = []")
      case False
      let ?fl = "fl[k := butlast (fl ! k)]"
      have al: "\<forall>a\<in>set (fl ! k). 2 ^ (k + 12) dvd unat a"
        using wf_lists_aligned "1.prems" k by auto
      have "wf_lists ?fl" using al "1.prems" by (intro wf_lists_update) (auto dest: in_set_butlastD)
      moreover have "free_mset fl = mset (block_frames k (last (fl ! k))) + free_mset ?fl"
        using free_mset_remove[OF len mset_butlast_last[OF False]] .
      ultimately show ?thesis using False k al by (simp add: take_block.simps)
    next
      case True
      from "1.IH"[OF k] True "1.prems" obtain r fl' where
        IH: "take_block fl (k + 1) = Inr (r, fl')" "wf_lists fl'" "\<forall>j<k + 1. fl' ! j = fl ! j"
          "case r of
             None \<Rightarrow> fl' = fl \<and> (\<forall>j. k + 1 \<le> j \<and> j \<le> BUDDY_MAX_ORDER \<longrightarrow> fl ! j = [])
           | Some a \<Rightarrow> 2 ^ (k + 1 + 12) dvd unat a \<and>
                       free_mset fl = mset (block_frames (k + 1) a) + free_mset fl'"
        by auto
      show ?thesis
      proof (cases r)
        case None
        have "fl ! j = []" if "k \<le> j" "j \<le> BUDDY_MAX_ORDER" for j
          using that IH(4) None True by (cases "j = k") auto
        then show ?thesis using IH None True k by (simp add: take_block.simps[of fl k])
      next
        case (Some a)
        have "k < BUDDY_MAX_ORDER"
        proof (rule ccontr)
          assume "\<not> k < BUDDY_MAX_ORDER"
          then show False using IH(1) Some take_block_top[of "k + 1" fl] by simp
        qed
        moreover have "2 ^ (Suc k + 12) dvd unat a" using IH(4) Some by simp
        ultimately have sp: "add_op a (block_size k) = Inr (a + block_size k)"
            "2 ^ (k + 12) dvd unat (a + block_size k)" "2 ^ (k + 12) dvd unat a"
            "block_frames (Suc k) a = block_frames k a @ block_frames k (a + block_size k)"
          using split_block[of k a] dvd_trans[of "2 ^ (k + 12)" "2 ^ (Suc k + 12)" "unat a"]
          by (simp_all add: le_imp_power_dvd)
        let ?fl = "fl'[k := fl' ! k @ [a + block_size k]]"
        have "fl' ! k = []" using IH(3) True by simp
        then have "wf_lists ?fl" using IH(2) sp by (intro wf_lists_update) auto
        moreover have "free_mset ?fl = mset (block_frames k (a + block_size k)) + free_mset fl'"
          using free_mset_push[of k fl'] len IH(2) "1.prems" by simp
        moreover have "take_block fl k = Inr (Some a, ?fl)"
          using IH(1) Some True k sp by (simp add: take_block.simps[of fl k])
        ultimately show ?thesis using IH(3,4) Some sp by simp
      qed
    qed
  qed
qed

lemma merge_up_spec:
  assumes "wf_lists fl" "k \<le> BUDDY_MAX_ORDER" "2 ^ (k + 12) dvd unat a"
  shows "\<exists>fl'. merge_up fl a k = Inr fl' \<and> wf_lists fl' \<and>
     free_mset fl' = mset (block_frames k a) + free_mset fl"
  using assms
proof (induction fl a k rule: merge_up.induct)
  case (1 fl a k)
  have len: "k < length fl" using "1.prems" by (simp add: BUDDY_ORDERS_def)
  have al: "\<forall>x\<in>set (fl ! k). 2 ^ (k + 12) dvd unat x"
    using wf_lists_aligned "1.prems" by auto
  define b where "b = a XOR block_size k"
  have push: "wf_lists (fl[k := fl ! k @ [a]])"
      "free_mset (fl[k := fl ! k @ [a]]) = mset (block_frames k a) + free_mset fl"
    using "1.prems" al free_mset_push[OF len] by (auto intro!: wf_lists_update)
  show ?case
  proof (cases "k = BUDDY_MAX_ORDER")
    case True
    then show ?thesis using push unfolding merge_up.simps[of fl a k] by simp
  next
    case False
    then have k: "k < BUDDY_MAX_ORDER" using "1.prems" by simp
    show ?thesis
    proof (cases "position (\<lambda>x. x = b) (fl ! k)")
      case None
      then show ?thesis
        using push k by (simp add: merge_up.simps[of fl a k] b_def[symmetric] Let_def)
    next
      case (Some pos)
      let ?fl = "fl[k := swap_remove (fl ! k) pos]"
      have bpos: "fl ! k ! pos = b" using position_eq_Some[OF Some] by simp
      have rem: "mset (fl ! k) = add_mset b (mset (swap_remove (fl ! k) pos))"
        using mset_position_remove[OF Some] bpos by simp
      have "set (swap_remove (fl ! k) pos) \<subseteq> set (fl ! k)"
        by (metis rem insert_subset set_mset_add_mset_insert set_mset_mset subset_refl subset_insertI)
      then have "wf_lists ?fl" using al "1.prems"(1) by (intro wf_lists_update) auto
      then obtain fl' where fl': "merge_up ?fl (min a b) (k + 1) = Inr fl'" "wf_lists fl'"
          "free_mset fl' = mset (block_frames (k + 1) (min a b)) + free_mset ?fl"
        using "1.IH"[OF _ _ b_def, of pos] Some k buddy_pair(1)[OF "1.prems"(3) k, folded b_def]
        by (auto simp: b_def)
      have "merge_up fl a k = Inr fl'"
        using fl'(1) Some k by (simp add: merge_up.simps[of fl a k] b_def[symmetric] Let_def)
      moreover have "free_mset fl' = mset (block_frames k a) + free_mset fl"
        using fl'(3) buddy_merge[OF "1.prems"(3) k, folded b_def] free_mset_remove[OF len rem]
        by (simp add: ac_simps)
      ultimately show ?thesis using fl'(2) by blast
    qed
  qed
qed

section \<open>Freeing what was just taken gives the same lists back\<close>

text \<open>No free block has a free buddy: below the top order everything that can merge has merged.\<close>

definition coalesced :: "u64 list list \<Rightarrow> bool" where
  "coalesced fl \<longleftrightarrow>
     (\<forall>k<BUDDY_MAX_ORDER. \<forall>a\<in>set (fl ! k). a XOR block_size k \<notin> set (fl ! k))"

lemma xor_block_size_aligned:
  assumes "2 ^ (Suc k + 12) dvd unat a" "k < BUDDY_MAX_ORDER"
  shows "a XOR block_size k = a + block_size k" "min a (a + block_size k) = a"
proof -
  obtain q where "unat a = 2 ^ (k + 12) * (2 * q)"
    using assms(1) unfolding double_block by (auto elim!: dvdE)
  then have "even (unat a div 2 ^ (k + 12))" by simp
  then have "unat (a XOR block_size k) = unat a + 2 ^ (k + 12)"
    unfolding block_size_def using assms(2)
    by (subst unat_xor_bit) (simp_all add: BUDDY_MAX_ORDER_def)
  then show "a XOR block_size k = a + block_size k"
    using split_block(2)[OF assms] by (simp add: word_unat_eq_iff)
  show "min a (a + block_size k) = a"
    using split_block(2)[OF assms] by (simp add: min_absorb1 word_le_nat_alt)
qed

lemma merge_up_take_block:
  assumes "wf_lists fl" "coalesced fl" "take_block fl k = Inr (Some a, fl')"
  shows "merge_up fl' a k = Inr fl"
  using assms
proof (induction fl k arbitrary: fl' rule: take_block.induct)
  case (1 fl k)
  have k: "k \<le> BUDDY_MAX_ORDER"
    using "1.prems"(3) by (simp add: take_block.simps[of fl k] split: if_splits)
  then have len: "k < length fl" using "1.prems"(1) by (simp add: BUDDY_ORDERS_def)
  show ?case
  proof (cases "fl ! k = []")
    case False
    then have r: "a = last (fl ! k)" "fl' = fl[k := butlast (fl ! k)]"
      using "1.prems"(3) k by (simp_all add: take_block.simps[of fl k])
    have restored: "fl'[k := fl' ! k @ [a]] = fl"
      using False len by (simp add: r)
    show ?thesis
    proof (cases "k = BUDDY_MAX_ORDER")
      case True
      then show ?thesis using restored unfolding merge_up.simps[of fl' a k] by simp
    next
      case ne: False
      have "a XOR block_size k \<notin> set (fl ! k)"
        using "1.prems"(2) k ne False unfolding coalesced_def r by simp
      then have "\<forall>x\<in>set (fl' ! k). x \<noteq> a XOR block_size k"
        using len by (auto simp: r dest: in_set_butlastD)
      then have "position (\<lambda>x. x = a XOR block_size k) (fl' ! k) = None"
        by (simp add: position_eq_None)
      then show ?thesis
        using restored k ne unfolding merge_up.simps[of fl' a k] Let_def by simp
    qed
  next
    case True
    obtain r fl1 where t: "take_block fl (k + 1) = Inr (r, fl1)" "wf_lists fl1"
        "\<forall>j<k + 1. fl1 ! j = fl ! j"
        "case r of None \<Rightarrow> True | Some a \<Rightarrow> 2 ^ (k + 1 + 12) dvd unat a"
      using take_block_spec[OF "1.prems"(1), of "k + 1"] by (auto split: option.splits)
    obtain h where r: "r = Some h"
      using "1.prems"(3) t(1) True k by (cases r) (simp_all add: take_block.simps[of fl k])
    have k': "k < BUDDY_MAX_ORDER"
      using t(1) r k take_block_top[of "k + 1" fl] by (cases "k = BUDDY_MAX_ORDER") simp_all
    have al: "2 ^ (Suc k + 12) dvd unat h" using t(4) r by simp
    have a: "a = h" "fl' = fl1[k := fl1 ! k @ [h + block_size k]]"
      using "1.prems"(3) t(1) True k r split_block(1)[OF al k']
      by (auto simp: take_block.simps[of fl k])
    have e: "fl1 ! k = []" using t(3) True by simp
    have fl': "fl' ! k = [h + block_size k]" "fl'[k := []] = fl1"
      using e len t(2) "1.prems"(1) list_update_id[of fl1 k] by (simp_all add: a)
    have "merge_up fl1 h (k + 1) = Inr fl"
      using "1.IH"[of fl1] k True t(1) r "1.prems" a(1) by simp
    then show ?thesis
      using k' fl' xor_block_size_aligned[OF al k']
      by (simp add: merge_up.simps[of fl' h k] Let_def a(1) swap_remove_def)
  qed
qed

section \<open>Bump mode is the bump allocator\<close>

definition as_boot :: "BuddyFrameAllocator \<Rightarrow> BootFrameAllocator" where
  "as_boot s = \<lparr>bt_regions = bd_regions s, bt_region_idx = bd_region_idx s,
                bt_next_addr = bd_next_addr s\<rparr>"

definition with_cursor :: "BuddyFrameAllocator \<Rightarrow> BootFrameAllocator \<Rightarrow> BuddyFrameAllocator" where
  "with_cursor s t = s\<lparr>bd_region_idx := bt_region_idx t, bd_next_addr := bt_next_addr t\<rparr>"

lemma bump_one_eq_boot:
  "bump_one s = (case boot_allocate_frame (as_boot s) of (oa, t) \<Rightarrow> (oa, with_cursor s t))"
proof (induction "length (bd_regions s) - bd_region_idx s" arbitrary: s rule: less_induct)
  case less
  let ?skip = "s\<lparr>bd_region_idx := bd_region_idx s + 1, bd_next_addr := 0\<rparr>"
  have same: "with_cursor s (as_boot s) = s"
    "with_cursor s (as_boot s\<lparr>bt_next_addr := e\<rparr>) = s\<lparr>bd_next_addr := e\<rparr>" for e
    by (simp_all add: as_boot_def with_cursor_def)
  have fields: "bt_regions (as_boot s) = bd_regions s" "bt_region_idx (as_boot s) = bd_region_idx s"
    "bt_next_addr (as_boot s) = bd_next_addr s" by (simp_all add: as_boot_def)
  show ?case
  proof (cases "bd_region_idx s < length (bd_regions s)")
    case False
    then show ?thesis
      by (simp add: bump_one.simps[of s] boot_allocate_frame.simps[of "as_boot s"] fields same)
  next
    case True
    have "as_boot ?skip = boot_advance (as_boot s)" "with_cursor ?skip = with_cursor s"
      by (auto simp: as_boot_def boot_advance_def with_cursor_def)
    with True less[of ?skip] have skip: "bump_one ?skip =
        (case boot_allocate_frame (boot_advance (as_boot s)) of (oa, t) \<Rightarrow> (oa, with_cursor s t))"
      by simp
    show ?thesis
      using True skip
      unfolding bump_one.simps[of s] boot_allocate_frame.simps[of "as_boot s"] fields
        FRAME_SIZE_def MIN_ADDR_def Let_def
      by (auto simp: same split: option.split)
  qed
qed

section \<open>The allocator in both modes\<close>

definition buddy_avail :: "BuddyFrameAllocator \<Rightarrow> nat multiset" where
  "buddy_avail s =
     (if bd_active s then free_mset (bd_free_lists s) else mset (boot_pending (as_boot s)))"

definition buddy_inv :: "BuddyFrameAllocator \<Rightarrow> bool" where
  "buddy_inv s \<longleftrightarrow>
     (if bd_active s then wf_lists (bd_free_lists s)
      else boot_inv (as_boot s) \<and> bd_free_lists s = replicate BUDDY_ORDERS []) \<and>
     (\<forall>f. count (buddy_avail s) f \<le> 1) \<and> 0 \<notin># buddy_avail s \<and>
     unat (bd_allocated s) + size (buddy_avail s) < 2 ^ 64"

text \<open>The asserts and the counter of \<open>allocate_frame\<close>, once a block has been taken.\<close>

lemma buddy_handout:
  assumes "4096 dvd unat addr" "unat addr div 4096 \<noteq> 0" "unat (bd_allocated s) + 1 < 2 ^ 64"
  shows "addr mod FRAME_SIZE = 0" "MIN_ADDR \<le> addr"
    "add_op (bd_allocated s) 1 = Inr (bd_allocated s + 1)"
    "unat (bd_allocated s + 1) = unat (bd_allocated s) + 1"
proof -
  show "addr mod FRAME_SIZE = 0"
    using assms(1) by (simp add: FRAME_SIZE_def word_unat_eq_iff unat_mod)
  show "MIN_ADDR \<le> addr"
    using assms(2) by (simp add: MIN_ADDR_def word_le_nat_alt div_eq_0_iff)
  show "add_op (bd_allocated s) 1 = Inr (bd_allocated s + 1)"
    using assms(3) by (simp add: add_op_no_overflow)
  show "unat (bd_allocated s + 1) = unat (bd_allocated s) + 1"
    using assms(3) by (simp add: unat_add_no_overflow)
qed

text \<open>
  What \<open>take_block 0\<close> or \<open>bump_one\<close> did to the frames, whichever mode is on: the
  common first half of \<open>allocate_frame\<close>.
\<close>

lemma buddy_take_one:
  assumes "buddy_inv s"
  obtains (none) s' where
      "(if bd_active s
        then obind (take_block (bd_free_lists s) 0) (\<lambda>(r, fl). Inr (r, s\<lparr>bd_free_lists := fl\<rparr>))
        else Inr (bump_one s)) = Inr (None, s')"
      "buddy_avail s = {#}" "buddy_avail s' = {#}" "buddy_inv s'"
  | (some) a s' where
      "(if bd_active s
        then obind (take_block (bd_free_lists s) 0) (\<lambda>(r, fl). Inr (r, s\<lparr>bd_free_lists := fl\<rparr>))
        else Inr (bump_one s)) = Inr (Some a, s')"
      "4096 dvd unat a" "buddy_avail s = add_mset (unat a div 4096) (buddy_avail s')"
      "bd_allocated s' = bd_allocated s" "bd_active s' = bd_active s"
      "if bd_active s then wf_lists (bd_free_lists s')
       else boot_inv (as_boot s') \<and> bd_free_lists s' = replicate BUDDY_ORDERS []"
proof (cases "bd_active s")
  case True
  then have wf: "wf_lists (bd_free_lists s)" using assms by (simp add: buddy_inv_def)
  from take_block_spec[OF wf, of 0] obtain r fl where
    t: "take_block (bd_free_lists s) 0 = Inr (r, fl)" "wf_lists fl" and
    c: "case r of
          None \<Rightarrow> fl = bd_free_lists s \<and>
                  (\<forall>j. 0 \<le> j \<and> j \<le> BUDDY_MAX_ORDER \<longrightarrow> bd_free_lists s ! j = [])
        | Some a \<Rightarrow> 2 ^ (0 + 12) dvd unat a \<and>
                    free_mset (bd_free_lists s) = mset (block_frames 0 a) + free_mset fl"
    by blast
  show ?thesis
  proof (cases r)
    case None
    then have "free_mset (bd_free_lists s) = {#}"
      using c wf by (intro free_mset_empty) (simp add: BUDDY_ORDERS_def)
    then show ?thesis using none[of s] True t None c assms by (simp add: buddy_avail_def)
  next
    case (Some a)
    then show ?thesis
      using some[of a "s\<lparr>bd_free_lists := fl\<rparr>"] True t c
      by (simp add: buddy_avail_def block_frames_def)
  qed
next
  case False
  then have inv: "boot_inv (as_boot s)" "bd_free_lists s = replicate BUDDY_ORDERS []"
    using assms by (simp_all add: buddy_inv_def)
  obtain oa t where b: "boot_allocate_frame (as_boot s) = (oa, t)"
    by (cases "boot_allocate_frame (as_boot s)")
  note ref = boot_allocate_frame_refines[OF inv(1) b]
  have t: "as_boot (with_cursor s t) = t"
    using ref by (simp add: as_boot_def with_cursor_def)
  have one: "bump_one s = (oa, with_cursor s t)" by (simp add: bump_one_eq_boot b)
  have keep: "bd_active (with_cursor s t) = bd_active s" "bd_allocated (with_cursor s t) = bd_allocated s"
    "bd_free_lists (with_cursor s t) = bd_free_lists s" by (simp_all add: with_cursor_def)
  have av: "buddy_avail s = mset (boot_pending (as_boot s))"
    "buddy_avail (with_cursor s t) = mset (boot_pending t)"
    using False keep t by (simp_all add: buddy_avail_def)
  show ?thesis
  proof (cases "boot_pending (as_boot s)")
    case Nil
    then have e: "oa = None" "boot_pending t = []" using ref by (simp_all add: pending_step_def)
    have "buddy_inv (with_cursor s t)"
      using assms False keep t ref inv(2) e av by (simp add: buddy_inv_def)
    then show ?thesis using none[of "with_cursor s t"] False one e av Nil by simp
  next
    case (Cons f fs)
    then obtain a where e: "oa = Some a" "unat a = 4096 * f" "boot_pending t = fs"
      using ref by (auto simp: pending_step_def)
    then show ?thesis
      using some[of a "with_cursor s t"] False one av Cons keep ref inv(2) t by simp
  qed
qed

interpretation buddy: frame_allocator buddy_allocate_frame buddy_avail buddy_inv
proof unfold_locales
  fix s
  assume inv: "buddy_inv s"
  show "\<And>f. count (buddy_avail s) f \<le> 1" "0 \<notin># buddy_avail s"
    using inv by (simp_all add: buddy_inv_def)
  show "\<exists>s'. buddy_allocate_frame s = Inr (None, s') \<and> buddy_inv s' \<and> buddy_avail s' = {#}"
    if "buddy_avail s = {#}"
    using inv
  proof (cases rule: buddy_take_one)
    case (none s')
    then show ?thesis by (simp add: buddy_allocate_frame_def)
  qed (use that in simp)
  show "\<exists>a s'. buddy_allocate_frame s = Inr (Some a, s') \<and> 4096 dvd unat a \<and>
      buddy_avail s = add_mset (unat a div 4096) (buddy_avail s') \<and> buddy_inv s'"
    if "buddy_avail s \<noteq> {#}"
    using inv
  proof (cases rule: buddy_take_one)
    case (some a s')
    have lim: "unat (bd_allocated s) + size (buddy_avail s) < 2 ^ 64"
      and nz: "unat a div 4096 \<noteq> 0"
      using inv some(3) by (auto simp: buddy_inv_def)
    have "unat (bd_allocated s') + 1 < 2 ^ 64" using lim some(3,4) by simp
    note h = buddy_handout[OF some(2) nz this]
    let ?s = "s'\<lparr>bd_allocated := bd_allocated s' + 1\<rparr>"
    have "as_boot ?s = as_boot s'" by (simp add: as_boot_def)
    then have av: "buddy_avail ?s = buddy_avail s'" by (simp add: buddy_avail_def)
    have "count (buddy_avail s') f \<le> count (buddy_avail s) f" for f
      by (simp add: some(3))
    then have "\<And>f. count (buddy_avail s') f \<le> 1" "0 \<notin># buddy_avail s'"
      using inv some(3) unfolding buddy_inv_def by (meson order_trans, auto)
    then have "buddy_inv ?s"
      using some(3-6) lim h(4) av \<open>as_boot ?s = as_boot s'\<close> by (simp add: buddy_inv_def)
    moreover have "buddy_allocate_frame s = Inr (Some a, ?s)"
      using some(1) h(1-3) by (simp add: buddy_allocate_frame_def)
    ultimately show ?thesis using some(2,3) av by auto
  qed (use that in simp)
qed

section \<open>Freeing a frame\<close>

lemma count_add_new:
  "\<lbrakk>\<forall>g. count M g \<le> 1; f \<notin># M\<rbrakk> \<Longrightarrow> \<forall>g. count (add_mset f M) g \<le> 1"
  by (simp add: not_in_iff)

lemma deallocate_frame_spec:
  assumes inv: "buddy_inv s" and act: "bd_active s"
    and a: "4096 dvd unat a" "4096 \<le> unat a" "unat a div 4096 \<notin># buddy_avail s"
    and out: "0 < unat (bd_allocated s)"
  shows "\<exists>s'. deallocate_frame s a = Inr s' \<and> buddy_inv s' \<and> bd_active s' \<and>
     buddy_avail s' = add_mset (unat a div 4096) (buddy_avail s) \<and>
     unat (bd_allocated s') = unat (bd_allocated s) - 1"
proof -
  have "wf_lists (bd_free_lists s)" using inv act by (simp add: buddy_inv_def)
  then obtain fl where fl: "merge_up (bd_free_lists s) a 0 = Inr fl" "wf_lists fl"
      "free_mset fl = mset (block_frames 0 a) + free_mset (bd_free_lists s)"
    using merge_up_spec[of "bd_free_lists s" 0 a] a(1) by auto
  let ?s = "s\<lparr>bd_free_lists := fl, bd_allocated := saturating_sub (bd_allocated s) 1\<rparr>"
  have av: "buddy_avail ?s = add_mset (unat a div 4096) (buddy_avail s)"
    using fl(3) act by (simp add: buddy_avail_def block_frames_def)
  have al: "unat (bd_allocated ?s) = unat (bd_allocated s) - 1" by (simp add: rust_arith)
  have "unat a div 4096 \<noteq> 0" using a(2) by (simp add: div_eq_0_iff)
  then have "buddy_inv ?s"
    using inv act out fl(2) av al a(3) count_add_new[of "buddy_avail s" "unat a div 4096"]
    by (simp add: buddy_inv_def)
  moreover have "deallocate_frame s a = Inr ?s"
    using act a fl(1)
    by (simp add: deallocate_frame_def FRAME_SIZE_def MIN_ADDR_def word_le_nat_alt
        word_unat_eq_iff unat_mod)
  ultimately show ?thesis using av al act by auto
qed

lemma deallocate_frame_errors:
  "\<not> bd_active s \<Longrightarrow> deallocate_frame s a = Inl (Failed ''buddy free before activate'')"
  "bd_active s \<Longrightarrow> \<not> 4096 dvd unat a \<Longrightarrow>
     deallocate_frame s a = Inl (Failed ''buddy free of unaligned frame'')"
  "bd_active s \<Longrightarrow> 4096 dvd unat a \<Longrightarrow> unat a < 4096 \<Longrightarrow>
     deallocate_frame s a = Inl (Failed ''buddy free of the zero page'')"
proof -
  have al: "a mod FRAME_SIZE = 0 \<longleftrightarrow> 4096 dvd unat a"
    by (simp add: FRAME_SIZE_def word_unat_eq_iff unat_mod dvd_eq_mod_eq_0)
  have lo: "MIN_ADDR \<le> a \<longleftrightarrow> 4096 \<le> unat a" by (simp add: MIN_ADDR_def word_le_nat_alt)
  show "\<not> bd_active s \<Longrightarrow> deallocate_frame s a = Inl (Failed ''buddy free before activate'')"
    by (simp add: deallocate_frame_def)
  show "bd_active s \<Longrightarrow> \<not> 4096 dvd unat a \<Longrightarrow>
     deallocate_frame s a = Inl (Failed ''buddy free of unaligned frame'')"
    by (simp add: deallocate_frame_def al)
  show "bd_active s \<Longrightarrow> 4096 dvd unat a \<Longrightarrow> unat a < 4096 \<Longrightarrow>
     deallocate_frame s a = Inl (Failed ''buddy free of the zero page'')"
    by (simp add: deallocate_frame_def al lo)
qed

section \<open>Coalescing is kept\<close>

lemma xor_block_size_cancel: "(a XOR block_size k) XOR block_size k = a"
  by (simp add: xor.assoc)

lemma xor_block_size_neq: "k < BUDDY_MAX_ORDER \<Longrightarrow> a XOR block_size k \<noteq> a"
proof
  assume k: "k < BUDDY_MAX_ORDER" and eq: "a XOR block_size k = a"
  have "block_size k = a XOR (a XOR block_size k)" by (simp add: xor.assoc[symmetric])
  then have "block_size k = 0" unfolding eq by simp
  moreover have "unat (block_size k) = 2 ^ (k + 12)" using k by (simp add: unat_block_size)
  ultimately show False by simp
qed

lemma coalesced_shrink:
  "coalesced fl \<Longrightarrow> (\<And>k. k < BUDDY_MAX_ORDER \<Longrightarrow> set (fl' ! k) \<subseteq> set (fl ! k)) \<Longrightarrow> coalesced fl'"
  unfolding coalesced_def by blast

lemma coalesced_push:
  assumes "coalesced fl" "k < length fl"
    and "k < BUDDY_MAX_ORDER \<Longrightarrow> a XOR block_size k \<notin> set (fl ! k)"
  shows "coalesced (fl[k := fl ! k @ [a]])"
  unfolding coalesced_def
proof (intro allI impI ballI)
  fix j x
  assume j: "j < BUDDY_MAX_ORDER" and x: "x \<in> set (fl[k := fl ! k @ [a]] ! j)"
  show "x XOR block_size j \<notin> set (fl[k := fl ! k @ [a]] ! j)"
  proof (cases "j = k")
    case False
    then show ?thesis using assms(1) j x by (simp add: coalesced_def)
  next
    case True
    have "y XOR block_size k \<noteq> a" if "y \<in> set (fl ! k)" for y
      using that assms(3) j True xor_block_size_cancel by metis
    then show ?thesis
      using assms j x True xor_block_size_neq[OF j] by (auto simp: coalesced_def)
  qed
qed

lemma coalesced_merge_up:
  assumes "coalesced fl" "length fl = BUDDY_ORDERS" "merge_up fl a k = Inr fl'"
  shows "coalesced fl' \<and> length fl' = BUDDY_ORDERS"
  using assms
proof (induction fl a k rule: merge_up.induct)
  case (1 fl a k)
  have k: "k \<le> BUDDY_MAX_ORDER"
    using "1.prems"(3) unfolding merge_up.simps[of fl a k] by (simp split: if_splits)
  then have len: "k < length fl" using "1.prems"(2) by (simp add: BUDDY_ORDERS_def)
  show ?case
  proof (cases "k = BUDDY_MAX_ORDER")
    case True
    then have "fl' = fl[k := fl ! k @ [a]]"
      using "1.prems"(3) unfolding merge_up.simps[of fl a k] by simp
    then show ?thesis using coalesced_push[OF "1.prems"(1) len] True "1.prems"(2) by simp
  next
    case False
    show ?thesis
    proof (cases "position (\<lambda>x. x = a XOR block_size k) (fl ! k)")
      case None
      then have "fl' = fl[k := fl ! k @ [a]]"
        using "1.prems"(3) k False unfolding merge_up.simps[of fl a k] Let_def by simp
      moreover have "a XOR block_size k \<notin> set (fl ! k)" using None by (auto simp: position_eq_None)
      ultimately show ?thesis using coalesced_push[OF "1.prems"(1) len] "1.prems"(2) by simp
    next
      case (Some pos)
      let ?fl = "fl[k := swap_remove (fl ! k) pos]"
      have "set (swap_remove (fl ! k) pos) \<subseteq> set (fl ! k)"
        using mset_position_remove[OF Some]
        by (metis set_mset_add_mset_insert set_mset_mset subset_insertI)
      then have "coalesced ?fl"
        using len
        by (intro coalesced_shrink[OF "1.prems"(1)]) (auto simp: nth_list_update split: if_splits)
      then show ?thesis
        using "1.IH"[of "a XOR block_size k" pos] k False Some "1.prems"(2,3)
        unfolding merge_up.simps[of fl a k] Let_def by simp
    qed
  qed
qed

lemma coalesced_take_block:
  assumes "wf_lists fl" "coalesced fl" "take_block fl k = Inr (r, fl')"
  shows "coalesced fl'"
  using assms
proof (induction fl k arbitrary: r fl' rule: take_block.induct)
  case (1 fl k)
  show ?case
  proof (cases "BUDDY_MAX_ORDER < k \<or> fl ! k \<noteq> []")
    case True
    then have "fl' = fl \<or> (k < length fl \<and> fl' = fl[k := butlast (fl ! k)])"
      using "1.prems"(1,3) unfolding take_block.simps[of fl k]
      by (auto simp: BUDDY_ORDERS_def split: if_splits)
    then have "set (fl' ! j) \<subseteq> set (fl ! j)" if "j < BUDDY_MAX_ORDER" for j
      by (auto simp: nth_list_update dest: in_set_butlastD split: if_splits)
    then show ?thesis by (intro coalesced_shrink[OF "1.prems"(2)])
  next
    case False
    then have k: "k < length fl" using "1.prems"(1) by (simp add: BUDDY_ORDERS_def)
    obtain r1 fl1 where t: "take_block fl (k + 1) = Inr (r1, fl1)" "wf_lists fl1"
        "\<forall>j<k + 1. fl1 ! j = fl ! j"
      using take_block_spec[OF "1.prems"(1), of "k + 1"] by blast
    have co: "coalesced fl1" using "1.IH" False "1.prems"(1,2) t(1) by simp
    have "fl1 ! k = []" using t(3) False by simp
    then have "coalesced (fl1[k := fl1 ! k @ [x]])" for x
      using coalesced_push[OF co, of k x] k t(2) "1.prems"(1) by simp
    then show ?thesis
      using "1.prems"(3) False t(1) co unfolding take_block.simps[of fl k]
      by (auto simp: obind_eq_Inr Let_def split: option.splits)
  qed
qed

end
