(* ===== verification/Activate.thy ===== *)
theory Activate
  imports Buddy
begin

text \<open>
  What \<open>activate\<close> of \<open>buddy.rs\<close> leaves behind: the free lists hold exactly the
  frames the bump cursor had not handed out, and, where usable regions do not
  touch, no two of them could still be merged. Also the frame counter
  \<open>free_frames\<close>, which adds up the lists without overflowing.
\<close>

section \<open>The frame counter\<close>

lemma size_order_frames: "size (order_frames k xs) = length xs * 2 ^ k"
  by (induction xs) (simp_all add: block_frames_def)

lemma size_free_mset: "size (free_mset fl) = (\<Sum>k<length fl. length (fl ! k) * 2 ^ k)"
  by (simp add: free_mset_def size_multiset_sum size_order_frames)

lemma free_frames_from_eq:
  assumes "order + length fl \<le> 64"
    and "unat n + (\<Sum>k<length fl. length (fl ! k) * 2 ^ (order + k)) < 2 ^ 64"
  shows "\<exists>c. free_frames_from order n fl = Inr c \<and>
     unat c = unat n + (\<Sum>k<length fl. length (fl ! k) * 2 ^ (order + k))"
  using assms
proof (induction order n fl rule: free_frames_from.induct)
  case (2 order n xs rest)
  let ?S = "\<Sum>k<length rest. length (rest ! k) * 2 ^ (Suc order + k)"
  have split: "(\<Sum>k<length (xs # rest). length ((xs # rest) ! k) * 2 ^ (order + k)) =
      length xs * 2 ^ order + ?S"
    unfolding length_Cons sum.lessThan_Suc_shift by simp
  have o: "order < 64" using "2.prems"(1) by simp
  have lim: "unat n + length xs * 2 ^ order + ?S < 2 ^ 64"
    using "2.prems"(2) unfolding split by simp
  then have prod: "length xs * 2 ^ order < 2 ^ 64" by linarith
  moreover have "length xs \<le> length xs * 2 ^ order" by simp
  ultimately have "length xs < 2 ^ 64" by (rule order.strict_trans1[rotated])
  then have len: "unat (of_nat (length xs) :: u64) = length xs"
    by (intro of_nat_inverse[OF refl]) simp
  have pw: "unat (push_bit order 1 :: u64) = 2 ^ order"
    using o by (simp add: unat_power_two)
  obtain k :: u64 where k: "mul_op (of_nat (length xs)) (push_bit order 1) = Inr k"
      "unat k = length xs * 2 ^ order"
    using prod len pw by (auto simp: mul_op_def checked_mul_def unat_word_ariths)
  obtain n' where n': "add_op n k = Inr n'" "unat n' = unat n + length xs * 2 ^ order"
    using lim k(2) unat_add_no_overflow[of n k] by (auto simp: add_op_no_overflow)
  have "\<exists>c. free_frames_from (Suc order) n' rest = Inr c \<and> unat c = unat n' + ?S"
    using "2.IH"[OF k(1) n'(1)] "2.prems"(1) lim n'(2) by simp
  then show ?case unfolding split using k n' by (simp add: add.assoc)
qed simp

lemma free_frames_count:
  assumes "buddy_inv s" "bd_active s"
  shows "\<exists>c. free_frames s = Inr c \<and> unat c = size (buddy_avail s)"
proof -
  have wf: "wf_lists (bd_free_lists s)" and lim: "size (free_mset (bd_free_lists s)) < 2 ^ 64"
    using assms by (simp_all add: buddy_inv_def buddy_avail_def)
  have "0 + length (bd_free_lists s) \<le> 64"
    using wf by (simp add: BUDDY_ORDERS_def BUDDY_MAX_ORDER_def)
  from free_frames_from_eq[OF this, of 0] lim show ?thesis
    using assms(2) by (simp add: free_frames_def size_free_mset buddy_avail_def)
qed

section \<open>Carving one region\<close>

lemma fit_order_spec:
  assumes "4096 \<le> unat remaining" "4096 dvd unat start" "order \<le> BUDDY_MAX_ORDER"
  defines "k \<equiv> fit_order remaining start order"
  shows "2 ^ (k + 12) \<le> unat remaining \<and> 2 ^ (k + 12) dvd unat start \<and>
     (k < order \<longrightarrow> \<not> (2 ^ (Suc k + 12) \<le> unat remaining \<and> 2 ^ (Suc k + 12) dvd unat start))"
  using assms(1-3) unfolding k_def
proof (induction remaining start order rule: fit_order.induct)
  case (1 remaining start order)
  have size: "unat (block_size order) = 2 ^ (order + 12)"
    using "1.prems"(3) by (simp add: unat_block_size)
  have fits: "block_size order \<le> remaining \<and> start mod block_size order = 0 \<longleftrightarrow>
      2 ^ (order + 12) \<le> unat remaining \<and> 2 ^ (order + 12) dvd unat start"
    by (simp add: word_le_nat_alt word_unat_eq_iff unat_mod size dvd_eq_mod_eq_0)
  show ?case
  proof (cases "2 ^ (order + 12) \<le> unat remaining \<and> 2 ^ (order + 12) dvd unat start")
    case True
    then show ?thesis using fits by (simp add: fit_order.simps[of remaining start order])
  next
    case False
    show ?thesis
    proof (cases "order = 0")
      case True
      then show ?thesis using False "1.prems" by simp
    next
      case ne: False
      then have eq: "fit_order remaining start order = fit_order remaining start (order - 1)"
        using False fits by (subst fit_order.simps) (auto simp: Let_def)
      have IH: "2 ^ (fit_order remaining start (order - 1) + 12) \<le> unat remaining \<and>
          2 ^ (fit_order remaining start (order - 1) + 12) dvd unat start \<and>
          (fit_order remaining start (order - 1) < order - 1 \<longrightarrow>
            \<not> (2 ^ (Suc (fit_order remaining start (order - 1)) + 12) \<le> unat remaining \<and>
               2 ^ (Suc (fit_order remaining start (order - 1)) + 12) dvd unat start))"
        using "1.IH"[OF refl] False fits ne "1.prems" by simp
      have "fit_order remaining start (order - 1) \<le> order - 1" by (rule fit_order_le)
      then show ?thesis
        using IH False ne unfolding eq
        by (cases "fit_order remaining start (order - 1) = order - 1") auto
    qed
  qed
qed


text \<open>One round of the carving loop: the largest aligned block that fits, at \<open>start\<close>.\<close>

lemma carve_round:
  assumes "4096 dvd unat start" "4096 dvd unat end" "unat end \<le> 2 ^ 52" "unat start < unat end"
  obtains k start' where
    "k \<le> BUDDY_MAX_ORDER" "2 ^ (k + 12) dvd unat start" "unat start' = unat start + 2 ^ (k + 12)"
    "unat start' \<le> unat end" "4096 dvd unat start'"
    "k < BUDDY_MAX_ORDER \<Longrightarrow> 2 ^ (Suc k + 12) dvd unat start \<Longrightarrow>
       unat end < unat start + 2 ^ (Suc k + 12)"
    "\<And>fl. carve fl start end = carve (fl[k := fl ! k @ [start]]) start' end"
proof -
  define k where "k = fit_order (end - start) start BUDDY_MAX_ORDER"
  have step: "unat start + 4096 \<le> unat end"
    using assms(1,2,4) by (auto elim!: dvdE)
  have rem: "unat (end - start) = unat end - unat start"
    using assms(4) by (simp add: unat_sub_if')
  have fit: "2 ^ (k + 12) \<le> unat end - unat start \<and> 2 ^ (k + 12) dvd unat start \<and>
      (k < BUDDY_MAX_ORDER \<longrightarrow> \<not> (2 ^ (Suc k + 12) \<le> unat end - unat start \<and>
                                2 ^ (Suc k + 12) dvd unat start))"
    using fit_order_spec[of "end - start" start BUDDY_MAX_ORDER] step assms(1) rem
    unfolding k_def by simp
  have k: "k \<le> BUDDY_MAX_ORDER" unfolding k_def by (rule fit_order_le)
  have size: "unat (block_size k) = 2 ^ (k + 12)" using k by (rule unat_block_size)
  have bound: "unat start + 2 ^ (k + 12) \<le> unat end" using fit assms(4) by linarith
  define start' where "start' = start + block_size k"
  have add: "add_op start (block_size k) = Inr start'" "unat start' = unat start + 2 ^ (k + 12)"
    using bound assms(3) size unat_add_no_overflow[of start "block_size k"]
    by (simp_all add: start'_def add_op_no_overflow)
  have "add_op start FRAME_SIZE = Inr (start + FRAME_SIZE)" "start + FRAME_SIZE \<le> end"
    using step assms(3) unat_add_no_overflow[of start FRAME_SIZE]
    by (simp_all add: add_op_no_overflow FRAME_SIZE_def word_le_nat_alt)
  then have eq: "carve fl start end = carve (fl[k := fl ! k @ [start]]) start' end" for fl
    using add(1) by (subst carve.simps) (simp add: Let_def k_def[symmetric])
  have "4096 dvd unat start'"
    using add(2) assms(1) by (simp add: power_add)
  moreover have "unat end < unat start + 2 ^ (Suc k + 12)"
    if "k < BUDDY_MAX_ORDER" "2 ^ (Suc k + 12) dvd unat start"
    using that fit by linarith
  moreover have "unat start' \<le> unat end" using add(2) bound by simp
  ultimately show ?thesis using k fit add(2) eq by (intro that[of k start']) simp_all
qed

lemma carve_stop:
  assumes "unat end \<le> unat start" "unat start \<le> 2 ^ 53"
  shows "carve fl start end = Inr fl"
proof -
  have "add_op start FRAME_SIZE = Inr (start + FRAME_SIZE)" "\<not> start + FRAME_SIZE \<le> end"
    using assms unat_add_no_overflow[of start FRAME_SIZE]
    by (simp_all add: add_op_no_overflow FRAME_SIZE_def word_le_nat_alt)
  then show ?thesis by (subst carve.simps) simp
qed

text \<open>The induction that both facts about \<open>carve\<close> follow: up to \<open>end\<close>, round by round.\<close>

lemma carve_induct [consumes 4, case_names stop round]:
  assumes "4096 dvd unat start" "4096 dvd unat end" "unat end \<le> 2 ^ 52" "unat start \<le> 2 ^ 53"
    and "\<And>fl start. unat end \<le> unat start \<Longrightarrow> carve fl start end = Inr fl \<Longrightarrow> P fl start"
    and "\<And>fl start k start'. unat start < unat end \<Longrightarrow> 4096 dvd unat start \<Longrightarrow>
       k \<le> BUDDY_MAX_ORDER \<Longrightarrow> 2 ^ (k + 12) dvd unat start \<Longrightarrow>
       unat start' = unat start + 2 ^ (k + 12) \<Longrightarrow> unat start' \<le> unat end \<Longrightarrow>
       (k < BUDDY_MAX_ORDER \<and> 2 ^ (Suc k + 12) dvd unat start \<longrightarrow>
          unat end < unat start + 2 ^ (Suc k + 12)) \<Longrightarrow>
       carve fl start end = carve (fl[k := fl ! k @ [start]]) start' end \<Longrightarrow>
       P (fl[k := fl ! k @ [start]]) start' \<Longrightarrow> P fl start"
  shows "P fl start"
  using assms(1,4)
proof (induction "unat end - unat start" arbitrary: fl start rule: less_induct)
  case less
  show ?case
  proof (cases "unat end \<le> unat start")
    case True
    then show ?thesis using assms(5) carve_stop less.prems by blast
  next
    case False
    then have lt: "unat start < unat end" by simp
    obtain k start' where r: "k \<le> BUDDY_MAX_ORDER" "2 ^ (k + 12) dvd unat start"
      "unat start' = unat start + 2 ^ (k + 12)" "unat start' \<le> unat end" "4096 dvd unat start'"
      "k < BUDDY_MAX_ORDER \<Longrightarrow> 2 ^ (Suc k + 12) dvd unat start \<Longrightarrow>
       unat end < unat start + 2 ^ (Suc k + 12)"
      "\<And>fl. carve fl start end = carve (fl[k := fl ! k @ [start]]) start' end"
      using carve_round[OF less.prems(1) assms(2,3) lt] by blast
    have "unat start < unat start'" using r(3) by simp
    then have "unat end - unat start' < unat end - unat start" using lt by (rule diff_less_mono2)
    moreover have "unat start' \<le> 2 ^ 53" using r(4) assms(3) by simp
    ultimately have "P (fl[k := fl ! k @ [start]]) start'"
      using less.hyps r(5) by blast
    then show ?thesis using assms(6)[OF lt less.prems(1) r(1-4) _ r(7)] r(6) by blast
  qed
qed

lemma carve_spec:
  assumes "4096 dvd unat start" "4096 dvd unat end" "unat end \<le> 2 ^ 52" "unat start \<le> 2 ^ 53"
  shows "wf_lists fl \<Longrightarrow> \<exists>fl'. carve fl start end = Inr fl' \<and> wf_lists fl' \<and>
     free_mset fl' = free_mset fl + mset [unat start div 4096 ..< unat end div 4096]"
  using assms
proof (induction fl start rule: carve_induct)
  case (stop fl start)
  then show ?case by (simp add: div_le_mono)
next
  case (round fl start k start')
  let ?fl = "fl[k := fl ! k @ [start]]"
  have len: "k < length fl" using round by (simp add: BUDDY_ORDERS_def)
  have "wf_lists ?fl"
    using round wf_lists_aligned[of fl k] by (intro wf_lists_update) auto
  then obtain fl' where fl': "carve ?fl start' end = Inr fl'" "wf_lists fl'"
      "free_mset fl' = free_mset ?fl + mset [unat start' div 4096 ..< unat end div 4096]"
    using round by blast
  have s': "unat start' div 4096 = unat start div 4096 + 2 ^ k"
    using round by (simp add: power_add)
  have "unat start' div 4096 \<le> unat end div 4096" using round by (intro div_le_mono)
  then have "[unat start div 4096 ..< unat end div 4096] =
      block_frames k start @ [unat start' div 4096 ..< unat end div 4096]"
    using s' upt_add_eq_append[of "unat start div 4096" "unat start' div 4096"
        "unat end div 4096 - unat start' div 4096"]
    by (simp add: block_frames_def)
  then have "free_mset fl' = free_mset fl + mset [unat start div 4096 ..< unat end div 4096]"
    using fl'(3) free_mset_push[OF len, of start] by (simp add: ac_simps)
  moreover have "carve fl start end = Inr fl'" using fl'(1) by (simp only: round(8))
  ultimately show ?case using fl'(2) by blast
qed

section \<open>The whole map\<close>

lemma unat_and_not_page: "unat (x AND NOT (FRAME_SIZE - 1)) = unat x div 4096 * 4096"
proof -
  have mask: "FRAME_SIZE - 1 = mask 12" by (simp add: FRAME_SIZE_def mask_eq_exp_minus_1)
  have "x AND NOT (FRAME_SIZE - 1) = push_bit 12 (drop_bit 12 x)"
    unfolding mask by (rule bit_word_eqI) (auto simp: bit_simps)
  also have "\<dots> = x div 4096 * 4096" by (simp add: push_bit_eq_mult drop_bit_eq_div)
  finally have "unat (x AND NOT (FRAME_SIZE - 1)) = unat x div 4096 * 4096 mod 2 ^ 64"
    by (simp add: unat_word_ariths unat_div mod_mult_left_eq)
  moreover have "unat x div 4096 * 4096 < 2 ^ 64"
    using unat_u64_less[of x] by (rule le_less_trans[rotated]) simp
  ultimately show ?thesis by simp
qed

text \<open>
  \<open>region_share\<close>: the frames \<open>activate\<close> owes to region number \<open>i\<close>, which are the
  ones the cursor (\<open>region_idx\<close>, \<open>next_addr\<close>) has not passed.
\<close>

definition region_share :: "nat \<Rightarrow> u64 \<Rightarrow> nat \<Rightarrow> memory_region \<Rightarrow> nat list" where
  "region_share region_idx next_addr i r =
     (if i = region_idx then cursor_frames r (unat next_addr)
      else if i < region_idx then [] else region_frames r)"

fun shares :: "nat \<Rightarrow> u64 \<Rightarrow> nat \<Rightarrow> memory_region list \<Rightarrow> nat list" where
  "shares region_idx next_addr i [] = []"
| "shares region_idx next_addr i (r # rs) =
     region_share region_idx next_addr i r @ shares region_idx next_addr (Suc i) rs"

lemma shares_after: "region_idx < i \<Longrightarrow> shares region_idx next_addr i rs = map_frames rs"
  by (induction rs arbitrary: i) (simp_all add: region_share_def)

lemma shares_pending:
  "i \<le> region_idx \<Longrightarrow> shares region_idx next_addr i rs = cursor_pending rs (region_idx - i) next_addr"
proof (induction rs arbitrary: i)
  case (Cons r rs)
  show ?case
  proof (cases "i = region_idx")
    case True
    then show ?thesis by (simp add: shares_after region_share_def cursor_pending_def)
  next
    case False
    then have "region_idx - i = Suc (region_idx - Suc i)" using Cons.prems by simp
    then show ?thesis
      using False Cons.prems Cons.IH[of "Suc i"] by (simp add: region_share_def cursor_pending_def)
  qed
qed (simp add: cursor_pending_def)

text \<open>
  Where region \<open>i\<close> has something left, \<open>activate\<close> carves one interval; elsewhere it
  does nothing.
\<close>

lemma next_page:
  assumes "unat a \<le> 2 ^ 52"
  shows "\<exists>c. next_multiple_of a FRAME_SIZE = Inr c \<and> unat c = align_up (unat a) 4096 \<and>
     unat c \<le> 2 ^ 53"
proof -
  have "align_up (unat a) 4096 < 2 ^ 53"
    using align_up_less[of 4096 "unat a"] assms by simp
  moreover from this have "unat (of_nat (align_up (unat a) 4096) :: u64) = align_up (unat a) 4096"
    by (intro of_nat_inverse[OF refl]) simp
  ultimately show ?thesis
    by (intro exI[of _ "of_nat (align_up (unat a) 4096)"]) (simp add: rust_arith FRAME_SIZE_def)
qed

lemma activate_region_cases:
  assumes "r_usable r \<longrightarrow> unat (r_start r) \<le> 2 ^ 52 \<and> unat (r_end r) \<le> 2 ^ 52"
    and "4096 dvd unat next_addr" "unat next_addr \<le> 2 ^ 52"
  obtains (skip) "\<And>fl. activate_region region_idx next_addr i r fl = Inr fl"
      "region_share region_idx next_addr i r = []"
  | (carve) start "end" where
      "\<And>fl. activate_region region_idx next_addr i r fl = carve fl start end"
      "4096 dvd unat start" "4096 dvd unat end" "unat end \<le> 2 ^ 52" "unat start \<le> 2 ^ 53"
      "region_share region_idx next_addr i r = [unat start div 4096 ..< unat end div 4096]"
proof (cases "r_usable r \<and> \<not> r_end r \<le> r_start r \<and> \<not> i < region_idx")
  case False
  have empty: "cursor_frames r na = []" if "r_end r \<le> r_start r" for na
  proof -
    have "unat (r_end r) div 4096 \<le> align_up (unat (r_start r)) 4096 div 4096"
      using that align_up_ge[of 4096 "unat (r_start r)"]
      by (intro div_le_mono) (simp add: word_le_nat_alt)
    then show ?thesis by (simp add: cursor_frames_def)
  qed
  show ?thesis
  proof (rule skip)
    show "region_share region_idx next_addr i r = []"
      using False empty by (auto simp: region_share_def cursor_frames_def)
    show "activate_region region_idx next_addr i r fl = Inr fl" for fl
      using False next_page[of "r_start r"] assms(1)
      by (auto simp: activate_region_def)
  qed
next
  case True
  obtain a where a: "next_multiple_of (r_start r) FRAME_SIZE = Inr a"
    "unat a = align_up (unat (r_start r)) 4096" "unat a \<le> 2 ^ 53"
    using next_page[of "r_start r"] assms(1) True by auto
  have n: "next_multiple_of next_addr FRAME_SIZE = Inr next_addr"
    using next_page[OF assms(3)] assms(2) by (auto simp: align_up_id word_unat_eq_iff[symmetric])
  define start where "start = (if i = region_idx then max (max a MIN_ADDR) next_addr else max a MIN_ADDR)"
  have dvd: "4096 dvd unat start"
    using a(2) assms(2) by (auto simp: start_def unat_max max_def MIN_ADDR_def)
  show ?thesis
  proof (rule carve[of start "r_end r AND NOT (FRAME_SIZE - 1)"])
    show "activate_region region_idx next_addr i r fl = carve fl start (r_end r AND NOT (FRAME_SIZE - 1))" for fl
      using True a(1) n by (simp add: activate_region_def start_def)
    show "unat start \<le> 2 ^ 53"
      using a(3) assms(3) by (auto simp: start_def unat_max MIN_ADDR_def)
    have "unat (r_end r) div 4096 * 4096 \<le> unat (r_end r)" by simp
    then show "unat (r_end r AND NOT (FRAME_SIZE - 1)) \<le> 2 ^ 52"
      using assms(1) True unfolding unat_and_not_page by linarith
    obtain p k where pk: "unat next_addr = 4096 * p" "align_up (unat (r_start r)) 4096 = 4096 * k"
      using assms(2) align_up_dvd by (metis dvdE)
    have "max (4096 * x) (4096 * y) = 4096 * max x y" for x y :: nat by (simp add: max_def)
    then have "unat start div 4096 = (if i = region_idx then max (max k 1) p else max k 1)"
      using a(2) pk by (auto simp: start_def unat_max MIN_ADDR_def)
    then show "region_share region_idx next_addr i r =
        [unat start div 4096 ..< unat (r_end r AND NOT (FRAME_SIZE - 1)) div 4096]"
      using True pk
      by (auto simp: region_share_def cursor_frames_def unat_and_not_page align_up_id align_up_def max.commute)
  qed (simp_all add: dvd unat_and_not_page)
qed

lemma activate_from_spec:
  assumes "4096 dvd unat next_addr" "unat next_addr \<le> 2 ^ 52"
  shows "\<forall>r\<in>set rs. r_usable r \<longrightarrow> unat (r_start r) \<le> 2 ^ 52 \<and> unat (r_end r) \<le> 2 ^ 52 \<Longrightarrow>
    wf_lists fl \<Longrightarrow>
    \<exists>fl'. activate_from region_idx next_addr i rs fl = Inr fl' \<and> wf_lists fl' \<and>
      free_mset fl' = free_mset fl + mset (shares region_idx next_addr i rs)"
proof (induction rs arbitrary: i fl)
  case (Cons r rs)
  have "\<exists>fl'. activate_region region_idx next_addr i r fl = Inr fl' \<and> wf_lists fl' \<and>
      free_mset fl' = free_mset fl + mset (region_share region_idx next_addr i r)"
  proof (rule activate_region_cases[of r next_addr region_idx i, OF _ assms])
    show "r_usable r \<longrightarrow> unat (r_start r) \<le> 2 ^ 52 \<and> unat (r_end r) \<le> 2 ^ 52" using Cons.prems by simp
  next
    fix start "end"
    assume carve: "\<And>fl. activate_region region_idx next_addr i r fl = carve fl start end"
      "4096 dvd unat start" "4096 dvd unat end" "unat end \<le> 2 ^ 52" "unat start \<le> 2 ^ 53"
      "region_share region_idx next_addr i r = [unat start div 4096 ..< unat end div 4096]"
    show ?thesis using carve_spec[OF carve(2-5) Cons.prems(2)] carve(1,6) by simp
  qed (use Cons.prems in auto)
  then obtain fl1 where fl1: "activate_region region_idx next_addr i r fl = Inr fl1" "wf_lists fl1"
    "free_mset fl1 = free_mset fl + mset (region_share region_idx next_addr i r)"
    by blast
  with Cons.IH[of fl1 "Suc i"] Cons.prems(1) show ?case by (auto simp: ac_simps)
qed simp

lemma activate_spec:
  assumes "buddy_inv s" "\<not> bd_active s"
  obtains s' where "activate s = Inr s'" "bd_active s'" "buddy_inv s'"
    "buddy_avail s' = buddy_avail s" "bd_allocated s' = bd_allocated s"
proof -
  let ?ri = "bd_region_idx s" and ?na = "bd_next_addr s"
  have inv: "boot_inv (as_boot s)" "bd_free_lists s = replicate BUDDY_ORDERS []"
    using assms by (simp_all add: buddy_inv_def)
  then have na: "4096 dvd unat ?na" "unat ?na \<le> 2 ^ 52"
    and rs: "\<forall>r\<in>set (bd_regions s). r_usable r \<longrightarrow>
        unat (r_start r) \<le> 2 ^ 52 \<and> unat (r_end r) \<le> 2 ^ 52"
    by (auto simp: boot_inv_def as_boot_def phys_map_def)
  have "wf_lists (bd_free_lists s)" "free_mset (bd_free_lists s) = {#}"
    using inv(2) free_mset_empty by (simp_all add: wf_lists_def)
  then obtain fl where fl: "activate_from ?ri ?na 0 (bd_regions s) (bd_free_lists s) = Inr fl"
    "wf_lists fl" "free_mset fl = mset (shares ?ri ?na 0 (bd_regions s))"
    using activate_from_spec[OF na rs, of "bd_free_lists s" ?ri 0] by auto
  let ?s' = "s\<lparr>bd_free_lists := fl, bd_region_idx := length (bd_regions s), bd_next_addr := - 1,
      bd_active := True\<rparr>"
  have avail: "buddy_avail ?s' = buddy_avail s"
    using fl(3) assms(2) by (simp add: buddy_avail_def shares_pending boot_pending_def as_boot_def)
  show ?thesis
  proof (rule that[of ?s'])
    show "activate s = Inr ?s'" using assms(2) fl(1) by (simp add: activate_def)
    show "buddy_inv ?s'" using assms fl(2) avail by (simp add: buddy_inv_def)
  qed (simp_all add: avail)
qed

lemma activate_twice: "bd_active s \<Longrightarrow> activate s = Inl (Failed ''buddy activate called twice'')"
  by (simp add: activate_def)

end
