(* ===== verification/Memory.thy ===== *)
theory Memory
  imports Activate
begin

text \<open>
  \<open>kernel/src/memory.rs\<close> and \<open>kernel/src/memory/heap.rs\<close>: the boot-time memory summary, the
  self tests, the mapping of the heap and of the MMIO window, and \<open>memory::init\<close>, which
  composes them for either frame allocator (the record \<open>FrameAlloc\<close>; the locale \<open>memory_policy\<close> is what
  \<open>init\<close> needs of it). The paging code (\<open>Page\<close>, \<open>VirtAddr\<close>, \<open>Mapper::map_to\<close>) is the
  \<open>x86_64\<close> crate: it is the parameter \<open>api\<close> of the definitions, and \<open>paging_laws\<close> states what its
  documentation promises. A page or a frame is named by its start address.
\<close>

section \<open>Constants\<close>

definition PHYS_MEM_OFFSET :: u64 where
  "PHYS_MEM_OFFSET = 0xFFFF800000000000"

definition HEAP_START :: u64 where
  "HEAP_START = 0xFFFF900000000000"

definition MMIO_WINDOW :: u64 where
  "MMIO_WINDOW = 0xFFFFA00000000000"

section \<open>The summary of the memory map\<close>

fun usable_summary_from :: "u64 \<Rightarrow> u64 \<Rightarrow> memory_region list \<Rightarrow> (u64 \<times> u64) outcome" where
  "usable_summary_from bytes n [] = Inr (bytes, n)"
| "usable_summary_from bytes n (r # rs) =
     (if \<not> r_usable r then usable_summary_from bytes n rs
      else if r_end r < r_start r then usable_summary_from bytes n rs
      else obind (add_op n 1)
        (\<lambda>n'. usable_summary_from (saturating_add bytes (r_end r - r_start r)) n' rs))"

definition usable_summary :: "memory_region list \<Rightarrow> (u64 \<times> u64) outcome" where
  "usable_summary rs = usable_summary_from 0 0 rs"

section \<open>The self tests\<close>

definition self_test_reclaim :: "BuddyFrameAllocator \<Rightarrow> BuddyFrameAllocator outcome" where
  "self_test_reclaim s =
     obind (free_frames s) (\<lambda>before.
     obind (buddy_allocate_frame s) (\<lambda>(frame, s1).
       case frame of
         None \<Rightarrow> Inl (Failed ''buddy self-test: no frame to take'')
       | Some a \<Rightarrow>
           obind (free_frames s1) (\<lambda>mid.
           obind (add_op mid 1) (\<lambda>mid1.
           obind (assert_that (before = mid1) ''buddy self-test: allocate didnt consume a frame'') (\<lambda>_.
           obind (deallocate_frame s1 a) (\<lambda>s2.
           obind (free_frames s2) (\<lambda>after.
           obind (assert_that (before = after) ''buddy self-test: free didnt return the frame'') (\<lambda>_.
             Inr s2))))))))"

text \<open>The bump allocator never takes a frame back; its test only says so.\<close>

definition self_test_reclaim_bump :: "BootFrameAllocator \<Rightarrow> BootFrameAllocator outcome" where
  "self_test_reclaim_bump s = Inr s"

fun sum_u64 :: "u64 \<Rightarrow> u64 list \<Rightarrow> u64 outcome" where
  "sum_u64 acc [] = Inr acc"
| "sum_u64 acc (x # xs) = obind (add_op acc x) (\<lambda>acc'. sum_u64 acc' xs)"

text \<open>The result is what the closing message prints: the length and the sum.\<close>

definition self_test :: "u64 \<Rightarrow> bool \<Rightarrow> (nat \<times> u64) option outcome" where
  "self_test region_count enabled =
     (if \<not> enabled then Inr None
      else
        let v = [0xC0FFEE, region_count] @ map of_nat [0..<64] in
        obind (assert_that (v ! 0 = 0xC0FFEE) ''heap readback mismatch'') (\<lambda>_.
        obind (assert_that (length v = 66) ''heap vec length mismatch'') (\<lambda>_.
        obind (sum_u64 0 v) (\<lambda>sum. Inr (Some (length v, sum))))))"

section \<open>Mapping pages\<close>

datatype page_flag = PRESENT | WRITABLE | NO_CACHE | NO_EXECUTE

datatype map_to_error = FrameAllocationFailed | ParentEntryHugePage | PageAlreadyMapped u64

text \<open>
  What the code uses of the paging crate: \<open>'m\<close> is the mapper (the page tables), \<open>'a\<close> the frame
  allocator that \<open>map_to\<close> draws page-table frames from.
\<close>

record ('m, 'a) paging_api =
  virt_new :: "u64 \<Rightarrow> u64 outcome"
  phys_new :: "u64 \<Rightarrow> u64 outcome"
  containing_address :: "u64 \<Rightarrow> u64"
  range_inclusive :: "u64 \<Rightarrow> u64 \<Rightarrow> u64 list"
  map_to :: "'m \<Rightarrow> u64 \<Rightarrow> u64 \<Rightarrow> page_flag set \<Rightarrow> 'a \<Rightarrow> ((map_to_error + unit) \<times> 'm \<times> 'a) outcome"
  translate :: "'m \<Rightarrow> u64 \<Rightarrow> (u64 \<times> page_flag set) option"

definition map_mmio_window ::
  "('m, 'a) paging_api \<Rightarrow> 'm \<Rightarrow> 'a \<Rightarrow> u64 \<Rightarrow> ((string + u64) \<times> 'm \<times> 'a) outcome" where
  "map_mmio_window api m s phys =
     (if phys mod 4096 \<noteq> 0 then Inr (Inl ''mmio phys address is not 4KiB-aligned'', m, s)
      else
        obind (virt_new api MMIO_WINDOW) (\<lambda>virt.
          let flags = {PRESENT, WRITABLE, NO_CACHE, NO_EXECUTE};
              page = containing_address api virt in
          if translate api m virt \<noteq> None
          then Inr (Inl ''mmio window already occupied'', m, s)
          else
            obind (phys_new api phys) (\<lambda>p.
            obind (map_to api m page (containing_address api p) flags s) (\<lambda>(r, m', s').
              case r of
                Inl _ \<Rightarrow> Inr (Inl ''mmio window map failed (frames out?)'', m', s')
              | Inr _ \<Rightarrow> Inr (Inr virt, m', s')))))"

fun heap_map_error :: "map_to_error \<Rightarrow> string" where
  "heap_map_error FrameAllocationFailed = ''heap map: out of frames for page tables''"
| "heap_map_error ParentEntryHugePage = ''heap map: huge page blocks heap range''"
| "heap_map_error (PageAlreadyMapped _) = ''heap page already mapped''"

text \<open>The \<open>for page in\<close> loop of \<open>map_heap\<close>; \<open>alloc\<close> is the allocator's \<open>allocate_frame\<close>.\<close>

fun map_pages ::
  "('a \<Rightarrow> (u64 option \<times> 'a) outcome) \<Rightarrow> ('m, 'a) paging_api \<Rightarrow> page_flag set \<Rightarrow> u64 list \<Rightarrow> 'm \<Rightarrow> 'a
    \<Rightarrow> ((string + unit) \<times> 'm \<times> 'a) outcome" where
  "map_pages alloc api flags [] m s = Inr (Inr (), m, s)"
| "map_pages alloc api flags (page # pages) m s =
     obind (alloc s) (\<lambda>(frame, s1).
       case frame of
         None \<Rightarrow> Inr (Inl ''out of frames for heap'', m, s1)
       | Some f \<Rightarrow>
           obind (map_to api m page f flags s1) (\<lambda>(r, m1, s2).
             case r of
               Inl e \<Rightarrow> Inr (Inl (heap_map_error e), m1, s2)
             | Inr _ \<Rightarrow> map_pages alloc api flags pages m1 s2))"

definition map_heap ::
  "('a \<Rightarrow> (u64 option \<times> 'a) outcome) \<Rightarrow> ('m, 'a) paging_api \<Rightarrow> u64 \<Rightarrow> u64 \<Rightarrow> 'm \<Rightarrow> 'a
    \<Rightarrow> ((string + unit) \<times> 'm \<times> 'a) outcome" where
  "map_heap alloc api start heap_size m s =
     (if heap_size = 0 then Inr (Inl ''heap size is zero'', m, s)
      else
        case checked_add start heap_size of
          None \<Rightarrow> Inr (Inl ''heap range overflows'', m, s)
        | Some end_addr \<Rightarrow>
            obind (virt_new api start) (\<lambda>v.
            obind (virt_new api (end_addr - 1)) (\<lambda>w.
              map_pages alloc api {PRESENT, WRITABLE, NO_EXECUTE}
                (range_inclusive api (containing_address api v) (containing_address api w)) m s)))"

text \<open>
  \<open>heap::init\<close>: on success the global allocator owns the range [\<open>HEAP_START\<close>, \<open>HEAP_START + size\<close>),
  the first component of the result.
\<close>

definition heap_init ::
  "('a \<Rightarrow> (u64 option \<times> 'a) outcome) \<Rightarrow> ('m, 'a) paging_api \<Rightarrow> u64 \<Rightarrow> 'm \<Rightarrow> 'a
    \<Rightarrow> ((string + u64 \<times> u64) \<times> 'm \<times> 'a) outcome" where
  "heap_init alloc api heap_size m s =
     obind (map_heap alloc api HEAP_START heap_size m s) (\<lambda>(r, m', s').
       case r of
         Inl e \<Rightarrow> Inr (Inl e, m', s')
       | Inr _ \<Rightarrow> Inr (Inr (HEAP_START, heap_size), m', s'))"

text \<open>
  The Cargo features \<open>alloc-bump\<close> and \<open>alloc-buddy\<close> choose the type \<open>FrameAlloc\<close> and, with it, four pieces of \<open>init\<close>: the
  constructor, the trait method, the activation (which bump has not) and the test of reclaiming.
\<close>

record 'a FrameAlloc =
  fa_new :: "memory_region list \<Rightarrow> 'a"
  fa_allocate :: "'a \<Rightarrow> (u64 option \<times> 'a) outcome"
  fa_activate :: "'a \<Rightarrow> 'a outcome"
  fa_reclaim :: "'a \<Rightarrow> 'a outcome"

definition alloc_buddy :: "BuddyFrameAllocator FrameAlloc" where
  "alloc_buddy = \<lparr>fa_new = buddy_new, fa_allocate = buddy_allocate_frame, fa_activate = activate, fa_reclaim = self_test_reclaim\<rparr>"

definition alloc_bump :: "BootFrameAllocator FrameAlloc" where
  "alloc_bump = \<lparr>fa_new = boot_new, fa_allocate = (\<lambda>s. Inr (boot_allocate_frame s)), fa_activate = Inr,
     fa_reclaim = self_test_reclaim_bump\<rparr>"

text \<open>
  \<open>memory::init\<close>. The bootloader passes \<open>physical_memory_offset\<close> and the
  regions; \<open>cr3\<close> is the frame CR3 names and \<open>tables\<close> what \<open>OffsetPageTable::new\<close> makes of the table at an address. The result carries the mapper, the
  allocator and the two values printed in the summary.
\<close>

definition mapper :: "('m, 'a) paging_api \<Rightarrow> (u64 \<Rightarrow> u64 \<Rightarrow> 'm) \<Rightarrow> u64 \<Rightarrow> u64 \<Rightarrow> 'm outcome" where
  "mapper api tables cr3 phys_offset =
     obind (add_op phys_offset cr3) (\<lambda>a.
     obind (virt_new api a) (\<lambda>virt.
       Inr (tables virt phys_offset)))"

definition memory_init ::
  "'a FrameAlloc \<Rightarrow> ('m, 'a) paging_api \<Rightarrow> (u64 \<Rightarrow> u64 \<Rightarrow> 'm) \<Rightarrow> u64 \<Rightarrow> u64 \<Rightarrow> bool \<Rightarrow> u64 option \<Rightarrow> memory_region list
    \<Rightarrow> ('m \<times> 'a \<times> u64 \<times> u64) outcome" where
  "memory_init fa api tables cr3 heap_size self_test_on phys_offset regions =
     (case phys_offset of
        None \<Rightarrow> Inl (Failed ''physical_memory_offset missing'')
      | Some off \<Rightarrow>
          obind (virt_new api off) (\<lambda>phys_offset.
          obind (assert_that (phys_offset = PHYS_MEM_OFFSET) ''bootloader phys offset drifted'') (\<lambda>_.
          obind (mapper api tables cr3 phys_offset) (\<lambda>m.
          obind (heap_init (fa_allocate fa) api heap_size m (fa_new fa regions))
            (\<lambda>(r, m, s).
          case r of
            Inl e \<Rightarrow> Inl (Failed ''heap init failed'')
          | Inr heap \<Rightarrow>
              obind (fa_activate fa s) (\<lambda>s1.
              obind (usable_summary regions) (\<lambda>(usable_bytes, usable_regions).
              obind (fa_reclaim fa s1) (\<lambda>s2.
              obind (self_test (of_nat (length regions)) self_test_on) (\<lambda>_.
                Inr (m, s2, usable_bytes, usable_regions))))))))))"

section \<open>Facts about the summary and the self tests\<close>

definition region_bytes :: "memory_region \<Rightarrow> nat" where
  "region_bytes r = (if r_usable r then unat (r_end r) - unat (r_start r) else 0)"

definition counted :: "memory_region \<Rightarrow> bool" where
  "counted r \<longleftrightarrow> r_usable r \<and> r_start r \<le> r_end r"

lemma usable_summary_from_spec:
  "unat n + length (filter counted rs) < 2 ^ 64 \<Longrightarrow>
   \<exists>b c. usable_summary_from bytes n rs = Inr (b, c) \<and>
     unat b = min (2 ^ 64 - 1) (unat bytes + sum_list (map region_bytes rs)) \<and>
     unat c = unat n + length (filter counted rs)"
proof (induction rs arbitrary: bytes n)
  case Nil
  then show ?case using unat_u64_less[of bytes] by (simp add: min_def)
next
  case (Cons r rs)
  show ?case
  proof (cases "counted r")
    case False
    then have "region_bytes r = 0"
      by (auto simp: counted_def region_bytes_def not_le word_less_nat_alt)
    moreover have "usable_summary_from bytes n (r # rs) = usable_summary_from bytes n rs"
      using False by (auto simp: counted_def not_le)
    ultimately show ?thesis using False Cons.IH[of n bytes] Cons.prems by simp
  next
    case True
    have n: "unat (n + 1) = unat n + 1"
      using Cons.prems True unat_add_no_overflow[of n 1] by simp
    have d: "unat (r_end r - r_start r) = region_bytes r"
      using True by (simp add: counted_def region_bytes_def unat_sub word_le_nat_alt)
    have step: "usable_summary_from bytes n (r # rs) =
        usable_summary_from (saturating_add bytes (r_end r - r_start r)) (n + 1) rs"
      using True add_op_no_overflow[of n 1] Cons.prems by (auto simp: counted_def not_less dest: leD)
    show ?thesis
      unfolding step
      using Cons.IH[of "n + 1" "saturating_add bytes (r_end r - r_start r)"] Cons.prems True n
      by (auto simp: rust_arith d)
  qed
qed

lemma usable_summary_saturates:
  assumes "length rs < 2 ^ 64"
  shows "\<exists>b c. usable_summary rs = Inr (b, c) \<and>
     unat b = min (2 ^ 64 - 1) (sum_list (map region_bytes rs)) \<and> unat c = length (filter counted rs)"
  using usable_summary_from_spec[of 0 rs 0] le_less_trans[OF length_filter_le[of counted rs] assms]
  by (simp add: usable_summary_def)

lemma self_test_reclaim_passes:
  assumes inv: "buddy_inv s" and act: "bd_active s" and ne: "buddy_avail s \<noteq> {#}"
  shows "\<exists>s2. self_test_reclaim s = Inr s2 \<and> buddy_inv s2 \<and> bd_active s2 \<and> buddy_avail s2 = buddy_avail s \<and>
    bd_allocated s2 = bd_allocated s"
proof -
  obtain a s1 where a: "buddy_allocate_frame s = Inr (Some a, s1)"
    using buddy.handout[OF inv ne] by blast
  note h = buddy.allocate_SomeD[OF inv a]
  have s1: "bd_active s1" "unat (bd_allocated s1) = Suc (unat (bd_allocated s))"
    using a act inv ne
    by (auto simp: buddy_allocate_frame_def obind_eq_Inr buddy_inv_def assert_that_eq_Inr rust_arith split: option.splits)
  obtain s2 where s2: "deallocate_frame s1 a = Inr s2" "buddy_inv s2" "bd_active s2"
    "buddy_avail s2 = add_mset (unat a div 4096) (buddy_avail s1)"
    "unat (bd_allocated s2) = unat (bd_allocated s1) - 1"
    using deallocate_frame_spec[of s1 a] h s1 by auto
  obtain b m c where cnt: "free_frames s = Inr b" "unat b = size (buddy_avail s)"
     "free_frames s1 = Inr m" "unat m = size (buddy_avail s1)"
     "free_frames s2 = Inr c" "unat c = size (buddy_avail s2)"
    using free_frames_count[OF inv act] free_frames_count[of s1] free_frames_count[of s2] h s1 s2 by blast
  have av: "buddy_avail s2 = buddy_avail s" using h s2(4) by simp
  have bm: "unat b = Suc (unat m)" using cnt h by simp
  then have "add_op m 1 = Inr b"
    using unat_u64_less[of b] by (simp add: rust_arith)
  moreover have "b = c" using cnt av by (simp add: word_unat_eq_iff)
  ultimately have "self_test_reclaim s = Inr s2"
    using cnt a s2(1) by (simp add: self_test_reclaim_def)
  moreover have "bd_allocated s2 = bd_allocated s" using s1 s2(5) by (simp add: word_unat_eq_iff)
  ultimately show ?thesis using a s2 av by blast
qed

section \<open>Mapping pages: what the crate promises and what follows\<close>

definition page_range :: "u64 \<Rightarrow> u64 \<Rightarrow> u64 list" where
  "page_range p q = map (\<lambda>i. of_nat (4096 * i)) [unat p div 4096 ..< unat q div 4096 + 1]"

text \<open>
  The documented behaviour of the \<open>x86_64\<close> crate that the code relies on, for an allocator whose
  \<open>allocate_frame\<close> is \<open>alloc\<close>: \<open>VirtAddr::new\<close> accepts canonical addresses, \<open>PhysAddr::new\<close> the
  52-bit ones, pages are 4 KiB aligned, and \<open>map_to\<close> draws at most three frames from the allocator,
  fails only for the three documented reasons, and on success changes the translation of its own
  page and of no other.
\<close>

definition map_to_law ::
  "('a \<Rightarrow> (u64 option \<times> 'a) outcome) \<Rightarrow> ('m, 'a) paging_api \<Rightarrow> 'm \<Rightarrow> u64 \<Rightarrow> u64 \<Rightarrow> page_flag set \<Rightarrow> 'a \<Rightarrow> bool"
where
  "map_to_law alloc api m page frame flags s \<longleftrightarrow>
     (\<forall>as3 s3. allocate_many alloc 3 s = Inr (as3, s3) \<longrightarrow>
       (\<exists>n as s' r m'. n \<le> 3 \<and> allocate_many alloc n s = Inr (as, s') \<and>
          map_to api m page frame flags s = Inr (r, m', s') \<and>
          (case r of
             Inr _ \<Rightarrow> translate api m page = None \<and>
               translate api m' = (translate api m)(page \<mapsto> (frame, flags))
           | Inl FrameAllocationFailed \<Rightarrow> length as < n \<and> translate api m' = translate api m
           | Inl _ \<Rightarrow> translate api m page \<noteq> None \<and> translate api m' = translate api m)))"

definition paging_laws :: "('a \<Rightarrow> (u64 option \<times> 'a) outcome) \<Rightarrow> ('m, 'a) paging_api \<Rightarrow> bool" where
  "paging_laws alloc api \<longleftrightarrow>
     (\<forall>a. canonical a \<longrightarrow> virt_new api a = Inr a) \<and>
     (\<forall>a. unat a < 2 ^ 52 \<longrightarrow> phys_new api a = Inr a) \<and>
     (\<forall>a. containing_address api a = a AND NOT 0xFFF) \<and>
     (\<forall>p q. 4096 dvd unat p \<and> 4096 dvd unat q \<longrightarrow> range_inclusive api p q = page_range p q) \<and>
     (\<forall>m page frame flags s. map_to_law alloc api m page frame flags s)"

lemma page_aligned: "4096 dvd unat (a AND NOT (0xFFF :: u64))"
  using unat_and_not_page[of a] by (simp add: FRAME_SIZE_def)

lemma page_range_bound: "i \<in> set [unat (p :: u64) div 4096 ..< unat (q :: u64) div 4096 + 1] \<Longrightarrow> 4096 * i < 2 ^ 64"
  using unat_u64_less[of q] by auto

lemma distinct_page_range: "distinct (page_range p q)"
proof -
  have "unat (of_nat (4096 * i) :: u64) = 4096 * i" if "i \<in> set [unat p div 4096 ..< unat q div 4096 + 1]" for i
    using page_range_bound[OF that] by (intro of_nat_inverse[OF refl]) simp
  then have "inj_on (\<lambda>i. of_nat (4096 * i) :: u64) (set [unat p div 4096 ..< unat q div 4096 + 1])"
    by (intro inj_on_inverseI[where g = "\<lambda>a. unat a div 4096"]) simp
  then show ?thesis unfolding page_range_def distinct_map by simp
qed

context frame_allocator
begin

lemma map_to_step:
  assumes "invar s" "map_to_law allocate api m page f flags s"
  obtains (ok) m' s' where "map_to api m page f flags s = Inr (Inr (), m', s')" "invar s'"
      "avail s' \<subseteq># avail s" "size (avail s) \<le> size (avail s') + 3" "translate api m page = None"
      "translate api m' = (translate api m)(page \<mapsto> (f, flags))"
  | (err) e m' s' where "map_to api m page f flags s = Inr (Inl e, m', s')" "invar s'"
      "avail s' \<subseteq># avail s" "size (avail s) \<le> size (avail s') + 3" "translate api m' = translate api m"
      "if e = FrameAllocationFailed then size (avail s) < 3 else translate api m page \<noteq> None"
proof -
  obtain as3 s3 where "allocate_many allocate 3 s = Inr (as3, s3)"
    using allocate_many_spec[OF assms(1), of 3] by (elim exE conjE)
  note law = assms(2)[unfolded map_to_law_def, rule_format, OF this]
  obtain n as s' r m' where n: "n \<le> 3" "allocate_many allocate n s = Inr (as, s')"
      "map_to api m page f flags s = Inr (r, m', s')"
      and r: "case r of
             Inr _ \<Rightarrow> translate api m page = None \<and>
               translate api m' = (translate api m)(page \<mapsto> (f, flags))
           | Inl FrameAllocationFailed \<Rightarrow> length as < n \<and> translate api m' = translate api m
           | Inl _ \<Rightarrow> translate api m page \<noteq> None \<and> translate api m' = translate api m"
    using law by (elim exE conjE)
  have s: "invar s'" "length as = min n (size (avail s))"
      "avail s = mset (map (\<lambda>a. unat a div 4096) as) + avail s'"
    using allocate_many_spec[OF assms(1), of n] unfolding n(2) by blast+
  then have "avail s' \<subseteq># avail s" "size (avail s) \<le> size (avail s') + 3"
    using n(1) by (simp_all add: min_def split: if_splits)
  note step = n(3) s(1) this
  show thesis
  proof (cases r)
    case (Inl e)
    then have "translate api m' = translate api m"
      "if e = FrameAllocationFailed then size (avail s) < 3 else translate api m page \<noteq> None"
      using r s(2) n(1) by (auto split: map_to_error.splits)
    then show thesis using err step Inl by blast
  next
    case (Inr u)
    then show thesis using ok step r by simp
  qed
qed

lemma map_pages_spec:
  assumes "invar s" "distinct pages" "\<And>m p f s. map_to_law allocate api m p f flags s"
  shows "\<exists>r m' s' fs. map_pages allocate api flags pages m s = Inr (r, m', s') \<and> invar s' \<and>
      mset (map (\<lambda>a. unat a div 4096) fs) + avail s' \<subseteq># avail s \<and> length fs \<le> length pages \<and>
      size (avail s) \<le> size (avail s') + 4 * length pages \<and>
      translate api m' = (translate api m)(take (length fs) pages [\<mapsto>] map (\<lambda>f. (f, flags)) fs) \<and>
      (if r = Inr () then length fs = length pages
       else size (avail s) < 4 * length pages \<or> (\<exists>p\<in>set pages. translate api m p \<noteq> None))"
  using assms(1,2)
proof (induction pages arbitrary: m s)
  case Nil
  then show ?case by (auto intro!: exI[of _ "[]"])
next
  case (Cons p ps)
  from Cons.prems(1) show ?case
  proof (cases rule: allocate_cases)
    case (none s1)
    then show ?thesis by (auto intro!: exI[of _ "[]"])
  next
    case (some f s1)
    from some(4) assms(3)[of m p f s1] show ?thesis
    proof (cases rule: map_to_step)
      case (err e m' s2)
      have "map_pages allocate api flags (p # ps) m s = Inr (Inl (heap_map_error e), m', s2)"
        using some(1) err(1) by simp
      moreover have "mset (map (\<lambda>a. unat a div 4096) []) + avail s2 \<subseteq># avail s"
        using subset_mset.order_trans[OF err(3), of "avail s"] some(3) by simp
      moreover have "size (avail s) < 4 * length (p # ps) \<or> (\<exists>q\<in>set (p # ps). translate api m q \<noteq> None)"
        using err(6) some(3) by (simp split: if_splits)
      moreover have "size (avail s) \<le> size (avail s2) + 4 * length (p # ps)" using err(4) some(3) by simp
      ultimately show ?thesis
        using err(2,5)
        by (intro exI[of _ "Inl (heap_map_error e)"] exI[of _ m'] exI[of _ s2] exI[of _ "[]"])
           (simp del: map_pages.simps)
    next
      case (ok m1 s2)
      obtain r m' s' fs where IH: "map_pages allocate api flags ps m1 s2 = Inr (r, m', s')" "invar s'"
        "mset (map (\<lambda>a. unat a div 4096) fs) + avail s' \<subseteq># avail s2" "length fs \<le> length ps"
        "size (avail s2) \<le> size (avail s') + 4 * length ps"
        "translate api m' = (translate api m1)(take (length fs) ps [\<mapsto>] map (\<lambda>f. (f, flags)) fs)"
        "if r = Inr () then length fs = length ps
         else size (avail s2) < 4 * length ps \<or> (\<exists>p\<in>set ps. translate api m1 p \<noteq> None)"
        using Cons.IH[OF ok(2), of m1] Cons.prems(2) by auto
      have size: "size (avail s) \<le> size (avail s2) + 4" using some(3) ok(4) by simp
      have drawn: "mset (map (\<lambda>a. unat a div 4096) (f # fs)) + avail s' \<subseteq># avail s"
        using subset_mset.order_trans[OF IH(3) ok(3)] some(3) by simp
      have "translate api m1 q = translate api m q" if "q \<in> set ps" for q
        using that Cons.prems(2) ok(6) by auto
      then have res: "if r = Inr () then length (f # fs) = length (p # ps)
         else size (avail s) < 4 * length (p # ps) \<or> (\<exists>q\<in>set (p # ps). translate api m q \<noteq> None)"
        using IH(7) size by (cases "r = Inr ()") auto
      have "map_pages allocate api flags (p # ps) m s = Inr (r, m', s')"
        using IH(1) some(1) ok(1) by simp
      moreover have "translate api m' =
          (translate api m)(take (length (f # fs)) (p # ps) [\<mapsto>] map (\<lambda>f. (f, flags)) (f # fs))"
        using IH(6) ok(6) by simp
      moreover have "length (f # fs) \<le> length (p # ps)" "size (avail s) \<le> size (avail s') + 4 * length (p # ps)"
        using IH(4,5) size by simp_all
      ultimately show ?thesis using IH(2) drawn res
        by (intro exI[of _ r] exI[of _ m'] exI[of _ s'] exI[of _ "f # fs"] conjI)
    qed
  qed
qed

lemma map_heap_spec:
  assumes inv: "invar s" and laws: "paging_laws allocate api"
    and nz: "sz \<noteq> 0" "unat start + unat sz < 2 ^ 64" "canonical start" "canonical (start + sz - 1)"
  defines "pages \<equiv> page_range (start AND NOT 0xFFF) ((start + sz - 1) AND NOT 0xFFF)"
  assumes room: "4 * length pages \<le> size (avail s)"
    and free: "\<forall>p\<in>set pages. translate api m p = None"
  shows "\<exists>m' s' fs. map_heap allocate api start sz m s = Inr (Inr (), m', s') \<and> invar s' \<and>
      mset (map (\<lambda>a. unat a div 4096) fs) + avail s' \<subseteq># avail s \<and> length fs = length pages \<and>
      size (avail s) \<le> size (avail s') + 4 * length pages \<and>
      translate api m' = (translate api m)(pages [\<mapsto>] map (\<lambda>f. (f, {PRESENT, WRITABLE, NO_EXECUTE})) fs)"
proof -
  have eq: "map_heap allocate api start sz m s =
      map_pages allocate api {PRESENT, WRITABLE, NO_EXECUTE} pages m s"
    using laws nz page_aligned by (simp add: map_heap_def paging_laws_def pages_def checked_add_def)
  have law: "map_to_law allocate api m p f flags s" for m p f flags s
    using laws by (simp add: paging_laws_def)
  have "distinct pages" by (simp add: pages_def distinct_page_range)
  from map_pages_spec[OF inv this law, of "{PRESENT, WRITABLE, NO_EXECUTE}" m]
  obtain r m' s' fs where *: "map_pages allocate api {PRESENT, WRITABLE, NO_EXECUTE} pages m s = Inr (r, m', s')"
      "invar s'" "mset (map (\<lambda>a. unat a div 4096) fs) + avail s' \<subseteq># avail s"
      "size (avail s) \<le> size (avail s') + 4 * length pages"
      "translate api m' = (translate api m)(take (length fs) pages [\<mapsto>]
         map (\<lambda>f. (f, {PRESENT, WRITABLE, NO_EXECUTE})) fs)"
      "if r = Inr () then length fs = length pages
       else size (avail s) < 4 * length pages \<or> (\<exists>p\<in>set pages. translate api m p \<noteq> None)"
    by (elim exE conjE)
  from *(6) room free have "r = Inr ()" "length fs = length pages" by (auto split: if_splits)
  then show ?thesis using *(1-5) eq by auto
qed

end

section \<open>The boot sequence of the memory subsystem\<close>

lemma length_map_frames:
  assumes "phys_map rs"
  shows "length (map_frames rs) \<le> 2 ^ 40"
proof -
  have "x < 2 ^ 40" if "r_usable r \<longrightarrow> unat (r_end r) \<le> 2 ^ 52" "x \<in> set (region_frames r)" for r x
    using that div_le_mono[of "unat (r_end r)" "2 ^ 52" 4096]
    by (auto simp: cursor_frames_def split: if_splits)
  then have "set (map_frames rs) \<subseteq> {..<2 ^ 40}"
    using assms unfolding map_frames_def phys_map_def by fastforce
  then have "card (set (map_frames rs)) \<le> card {..<2 ^ 40 :: nat}" by (rule card_mono[rotated]) simp
  then show ?thesis using assms by (simp add: phys_map_def distinct_card)
qed

lemma buddy_new_spec:
  assumes "phys_map rs"
  shows "buddy_inv (buddy_new rs)" "buddy_avail (buddy_new rs) = mset (map_frames rs)"
    "\<not> bd_active (buddy_new rs)"
proof -
  have boot: "as_boot (buddy_new rs) = boot_new rs" by (simp add: as_boot_def buddy_new_def boot_new_def)
  show av: "buddy_avail (buddy_new rs) = mset (map_frames rs)"
    unfolding buddy_avail_def boot boot_new_pending by (simp add: buddy_new_def)
  have "\<forall>f. count (mset (map_frames rs)) f \<le> 1" "0 \<notin> set (map_frames rs)"
    using assms map_frames_pos by (auto simp: phys_map_def distinct_iff_count_le_1)
  then show "buddy_inv (buddy_new rs)"
    unfolding buddy_inv_def av boot using boot_new_inv[OF assms] length_map_frames[OF assms]
    by (simp add: buddy_new_def)
qed (simp add: buddy_new_def)

text \<open>Before \<open>activate\<close> the buddy allocator meets the same contract in bump mode, and stays there.\<close>

lemma buddy_allocate_active:
  "buddy_allocate_frame s = Inr (r, s') \<Longrightarrow> bd_active s' = bd_active s"
proof -
  have bump: "bd_active (snd (bump_one s)) = bd_active s"
    unfolding bump_one_eq_boot[of s] by (simp add: with_cursor_def split: prod.split)
  assume "buddy_allocate_frame s = Inr (r, s')"
  then obtain r1 s1 where s1: "(if bd_active s
       then obind (take_block (bd_free_lists s) 0) (\<lambda>(r, fl). Inr (r, s\<lparr>bd_free_lists := fl\<rparr>))
       else Inr (bump_one s)) = Inr (r1, s1)" "bd_active s' = bd_active s1"
    unfolding buddy_allocate_frame_def obind_eq_Inr
    by (auto simp: obind_eq_Inr split: option.splits)
  then show ?thesis using bump by (auto simp: obind_eq_Inr split: if_splits)
qed

interpretation buddy_bump: frame_allocator buddy_allocate_frame buddy_avail "\<lambda>s. buddy_inv s \<and> \<not> bd_active s"
proof
  fix s assume s: "buddy_inv s \<and> \<not> bd_active s"
  show "count (buddy_avail s) f \<le> 1" for f using s buddy.owned_once by simp
  show "0 \<notin># buddy_avail s" using s buddy.no_zero_page by simp
  show "\<exists>s'. buddy_allocate_frame s = Inr (None, s') \<and> (buddy_inv s' \<and> \<not> bd_active s') \<and> buddy_avail s' = {#}"
    if "buddy_avail s = {#}"
    using s that buddy.exhausted[of s] buddy_allocate_active by blast
  show "\<exists>a s'. buddy_allocate_frame s = Inr (Some a, s') \<and> 4096 dvd unat a \<and>
      buddy_avail s = add_mset (unat a div 4096) (buddy_avail s') \<and> (buddy_inv s' \<and> \<not> bd_active s')"
    if "buddy_avail s \<noteq> {#}"
    using s that buddy.handout[of s] buddy_allocate_active by blast
qed

interpretation buddy_active: frame_allocator buddy_allocate_frame buddy_avail "\<lambda>s. buddy_inv s \<and> bd_active s"
proof
  fix s assume s: "buddy_inv s \<and> bd_active s"
  show "count (buddy_avail s) f \<le> 1" for f using s buddy.owned_once by simp
  show "0 \<notin># buddy_avail s" using s buddy.no_zero_page by simp
  show "\<exists>s'. buddy_allocate_frame s = Inr (None, s') \<and> (buddy_inv s' \<and> bd_active s') \<and> buddy_avail s' = {#}"
    if "buddy_avail s = {#}"
    using s that buddy.exhausted[of s] buddy_allocate_active by blast
  show "\<exists>a s'. buddy_allocate_frame s = Inr (Some a, s') \<and> 4096 dvd unat a \<and>
      buddy_avail s = add_mset (unat a div 4096) (buddy_avail s') \<and> (buddy_inv s' \<and> bd_active s')"
    if "buddy_avail s \<noteq> {#}"
    using s that buddy.handout[of s] buddy_allocate_active by blast
qed

lemma self_test_ok:
  assumes "n < 2 ^ 63"
  shows "\<exists>r. self_test (of_nat n) enabled = Inr r"
proof -
  have sum: "\<exists>r. sum_u64 acc xs = Inr r" if "unat acc + sum_list (map unat xs) < 2 ^ 64" for acc xs
    using that
  proof (induction xs arbitrary: acc)
    case (Cons x xs)
    then have "add_op acc x = Inr (acc + x)" "unat (acc + x) = unat acc + unat x"
      using add_op_no_overflow[of acc x] unat_add_no_overflow[of acc x] by simp_all
    then show ?case using Cons by simp
  qed simp
  have len: "unat (of_nat n :: u64) = n" using assms by (intro of_nat_inverse[OF refl]) simp
  have small: "unat (of_nat i :: u64) = i" if "i < 64" for i using that by (intro of_nat_inverse[OF refl]) simp
  have "map unat (map of_nat [0..<64] :: u64 list) = [0..<64]"
    unfolding map_map by (rule map_idI) (use small in simp)
  then have "sum_list (map unat (map of_nat [0..<64] :: u64 list)) = sum_list [0..<64]" by simp
  also have "\<dots> = 2016" by (simp add: upt_rec)
  finally have "\<exists>r. sum_u64 0 ([0xC0FFEE, of_nat n] @ map of_nat [0..<64]) = Inr r"
    using assms len by (intro sum) simp
  then show ?thesis by (auto simp: self_test_def)
qed

text \<open>
  What \<open>init\<close> relies on, whichever allocator is compiled in: \<open>early\<close> is the allocator while the heap is being mapped, \<open>later\<close>
  the one that is handed on to the rest of the boot.
\<close>

abbreviation boot_tables :: "(u64 \<Rightarrow> u64 \<Rightarrow> 'm) \<Rightarrow> u64 \<Rightarrow> 'm" where
  "boot_tables tables cr3 \<equiv> tables (PHYS_MEM_OFFSET + cr3) PHYS_MEM_OFFSET"

lemma mapper_ok:
  assumes "paging_laws alloc api" "unat cr3 < 2 ^ 47"
  shows "mapper api tables cr3 PHYS_MEM_OFFSET = Inr (boot_tables tables cr3)"
proof -
  have le: "unat PHYS_MEM_OFFSET + unat cr3 < 2 ^ 64" using assms(2) by (simp add: PHYS_MEM_OFFSET_def)
  have "canonical (PHYS_MEM_OFFSET + cr3)"
    using unat_add_no_overflow[of PHYS_MEM_OFFSET cr3] le by (simp add: canonical_def PHYS_MEM_OFFSET_def)
  then show ?thesis using assms(1) add_op_no_overflow[of PHYS_MEM_OFFSET cr3] le by (simp add: mapper_def paging_laws_def)
qed

locale memory_policy =
  early: frame_allocator "fa_allocate fa" avail invar + later: frame_allocator "fa_allocate fa" avail live
  for fa :: "'s FrameAlloc" and avail invar live +
  assumes new: "phys_map rs \<Longrightarrow> invar (fa_new fa rs)" "phys_map rs \<Longrightarrow> avail (fa_new fa rs) = mset (map_frames rs)"
    and activated: "invar s \<Longrightarrow> \<exists>s'. fa_activate fa s = Inr s' \<and> live s' \<and> avail s' = avail s"
    and reclaimed: "live s \<Longrightarrow> avail s \<noteq> {#} \<Longrightarrow> \<exists>s'. fa_reclaim fa s = Inr s' \<and> live s' \<and> avail s' = avail s"
begin

lemma memory_init_spec:
  assumes laws: "paging_laws (fa_allocate fa) api" and map: "phys_map rs" "length rs < 2 ^ 63"
    and heap: "heap_size \<noteq> 0" "unat heap_size \<le> 2 ^ 40" and cr3: "unat cr3 < 2 ^ 47"
  defines "pages \<equiv> page_range HEAP_START ((HEAP_START + heap_size - 1) AND NOT 0xFFF)"
  assumes room: "4 * length pages < length (map_frames rs)"
    and free: "\<forall>p\<in>set pages. translate api (boot_tables tables cr3) p = None"
  shows "\<exists>m s bytes n fs. memory_init fa api tables cr3 heap_size on (Some PHYS_MEM_OFFSET) rs = Inr (m, s, bytes, n) \<and>
     live s \<and> avail s \<noteq> {#} \<and>
     mset (map (\<lambda>a. unat a div 4096) fs) + avail s \<subseteq># mset (map_frames rs) \<and>
     length fs = length pages \<and> length (map_frames rs) \<le> size (avail s) + 4 * length pages \<and>
     translate api m = (translate api (boot_tables tables cr3))
       (pages [\<mapsto>] map (\<lambda>f. (f, {PRESENT, WRITABLE, NO_EXECUTE})) fs) \<and>
     unat bytes = min (2 ^ 64 - 1) (sum_list (map region_bytes rs)) \<and>
     unat n = length (filter counted rs)"
proof -
  let ?m = "boot_tables tables cr3"
  have can: "canonical HEAP_START" "canonical (HEAP_START + heap_size - 1)" "canonical PHYS_MEM_OFFSET"
    and ov: "unat HEAP_START + unat heap_size < 2 ^ 64" and al: "HEAP_START AND NOT 0xFFF = HEAP_START"
  proof -
    have le: "unat (HEAP_START + heap_size) = unat HEAP_START + unat heap_size"
      using heap(2) by (intro unat_add_no_overflow) (simp add: HEAP_START_def)
    have "0 < unat heap_size" using heap(1) by (simp add: unat_gt_0)
    then have "unat (HEAP_START + heap_size - 1) = unat HEAP_START + unat heap_size - 1"
      using le by (subst unat_sub) (simp_all add: word_le_nat_alt)
    then show "canonical (HEAP_START + heap_size - 1)" by (simp add: canonical_def HEAP_START_def)
  qed (use heap(2) in \<open>simp_all add: canonical_def HEAP_START_def PHYS_MEM_OFFSET_def\<close>)
  obtain m s fs where h: "map_heap (fa_allocate fa) api HEAP_START heap_size ?m (fa_new fa rs) = Inr (Inr (), m, s)"
      "invar s"
      "mset (map (\<lambda>a. unat a div 4096) fs) + avail s \<subseteq># mset (map_frames rs)"
      "length fs = length pages" "length (map_frames rs) \<le> size (avail s) + 4 * length pages"
      "translate api m = (translate api ?m)(pages [\<mapsto>] map (\<lambda>f. (f, {PRESENT, WRITABLE, NO_EXECUTE})) fs)"
    using early.map_heap_spec[OF new(1)[OF map(1)] laws heap(1) ov can(1,2), unfolded al,
        folded pages_def, of ?m] room free
    unfolding new(2)[OF map(1)] size_mset by auto
  obtain s1 where s1: "fa_activate fa s = Inr s1" "live s1" "avail s1 = avail s"
    using activated[OF h(2)] by blast
  have ne: "avail s1 \<noteq> {#}" using h(5) room s1(3) by auto
  obtain s2 where s2: "fa_reclaim fa s1 = Inr s2" "live s2" "avail s2 = avail s1"
    using reclaimed[OF s1(2) ne] by blast
  obtain b c where sum: "usable_summary rs = Inr (b, c)"
      "unat b = min (2 ^ 64 - 1) (sum_list (map region_bytes rs))" "unat c = length (filter counted rs)"
    using usable_summary_saturates[of rs] map(2) by (elim meta_impE exE conjE) simp_all
  obtain t where t: "self_test (of_nat (length rs)) on = Inr t" using self_test_ok[OF map(2)] by blast
  have v: "virt_new api PHYS_MEM_OFFSET = Inr PHYS_MEM_OFFSET" using laws can(3) by (simp add: paging_laws_def)
  have "memory_init fa api tables cr3 heap_size on (Some PHYS_MEM_OFFSET) rs = Inr (m, s2, b, c)"
    using h(1) s1(1) s2(1) sum(1) t v mapper_ok[OF laws cr3, of tables] by (simp add: memory_init_def heap_init_def)
  moreover have "avail s2 = avail s" "avail s2 \<noteq> {#}" using s1(3) s2(3) ne by simp_all
  ultimately show ?thesis
    using h(3-6) s2(2) sum(2,3)
    by (intro exI[of _ m] exI[of _ s2] exI[of _ b] exI[of _ c] exI[of _ fs] conjI) simp_all
qed

end

interpretation buddy_memory: memory_policy alloc_buddy buddy_avail "\<lambda>s. buddy_inv s \<and> \<not> bd_active s" "\<lambda>s. buddy_inv s \<and> bd_active s"
proof -
  have f: "fa_new alloc_buddy = buddy_new" "fa_allocate alloc_buddy = buddy_allocate_frame" "fa_activate alloc_buddy = activate"
      "fa_reclaim alloc_buddy = self_test_reclaim" by (simp_all add: alloc_buddy_def)
  show "memory_policy alloc_buddy buddy_avail (\<lambda>s. buddy_inv s \<and> \<not> bd_active s) (\<lambda>s. buddy_inv s \<and> bd_active s)"
    unfolding memory_policy_def memory_policy_axioms_def f
    using buddy_bump.frame_allocator_axioms buddy_active.frame_allocator_axioms buddy_new_spec activate_spec self_test_reclaim_passes by blast
qed

interpretation bump_memory: memory_policy alloc_bump "\<lambda>s. mset (boot_pending s)" boot_inv boot_inv
proof -
  have f: "fa_new alloc_bump = boot_new" "fa_allocate alloc_bump = (\<lambda>s. Inr (boot_allocate_frame s))" "fa_activate alloc_bump = Inr"
      "fa_reclaim alloc_bump = Inr" by (simp_all add: alloc_bump_def self_test_reclaim_bump_def fun_eq_iff)
  show "memory_policy alloc_bump (\<lambda>s. mset (boot_pending s)) boot_inv boot_inv"
    unfolding memory_policy_def memory_policy_axioms_def f
    using boot.frame_allocator_axioms boot_new_inv by (simp add: boot_new_pending)
qed

lemmas alloc_allocate = alloc_buddy_def[THEN arg_cong[where f = fa_allocate], simplified] alloc_bump_def[THEN arg_cong[where f = fa_allocate], simplified]


section \<open>Properties\<close>

text \<open>A concrete memory map and a concrete paging layer for the examples: one table, no page-table frames.\<close>

definition small_map :: "memory_region list" where
  "small_map = [\<lparr>r_start = 0x1000, r_end = 0x10000, r_usable = True\<rparr>]"

definition flat_paging :: "(u64 \<Rightarrow> (u64 \<times> page_flag set) option, 'a) paging_api" where
  "flat_paging =
     \<lparr>virt_new = (\<lambda>a. if canonical a then Inr a else Inl (Failed ''not canonical'')),
      phys_new = (\<lambda>a. if unat a < 2 ^ 52 then Inr a else Inl (Failed ''not physical'')),
      containing_address = (\<lambda>a. a AND NOT 0xFFF), range_inclusive = page_range,
      map_to = (\<lambda>m page frame flags s.
        if m page = None then Inr (Inr (), m(page \<mapsto> (frame, flags)), s)
        else Inr (Inl (PageAlreadyMapped (fst (the (m page)))), m, s)),
      translate = (\<lambda>m. m)\<rparr>"

lemma flat_paging_laws: "paging_laws alloc flat_paging"
proof -
  have "map_to_law alloc flat_paging m page frame flags s" for m page frame flags s
    unfolding map_to_law_def
    by (intro allI impI exI[of _ 0] exI[of _ "[]"] exI[of _ s]) (simp add: flat_paging_def)
  then show ?thesis by (simp add: paging_laws_def) (simp add: flat_paging_def)
qed

lemma small_map_facts:
  "phys_map small_map" "map_frames small_map = [1..<16]" "length small_map = 1"
  by (simp_all add: small_map_def phys_map_def map_frames_def cursor_frames_def align_up_def)

lemma small_buddy:
  "buddy_inv (buddy_new small_map)" "buddy_avail (buddy_new small_map) = mset [1..<16]"
  "\<not> bd_active (buddy_new small_map)"
  using buddy_new_spec[OF small_map_facts(1)] small_map_facts(2) by simp_all

text \<open>
  C4. Any number of requests to the buddy allocator, before or after \<open>activate\<close>, succeed
  without a panic until the free frames run out: the addresses are distinct, page aligned and never
  the zero page, each names a frame that was free, and what is free afterwards is exactly the rest.
\<close>

theorem buddy_requests:
  assumes "buddy_inv s"
  shows "\<exists>as s'. allocate_many buddy_allocate_frame n s = Inr (as, s') \<and> buddy_inv s' \<and>
    length as = min n (size (buddy_avail s)) \<and> distinct as \<and>
    (\<forall>a\<in>set as. 4096 dvd unat a \<and> 4096 \<le> unat a) \<and>
    buddy_avail s = mset (map (\<lambda>a. unat a div 4096) as) + buddy_avail s'"
  using buddy.allocate_many_spec[OF assms, of n] buddy.allocate_many_distinct[OF assms, of n] by blast

theorem buddy_requests_witness:
  "\<exists>as s'. allocate_many buddy_allocate_frame 20 (buddy_new small_map) = Inr (as, s') \<and>
     length as = 15 \<and> distinct as"
proof -
  have "size (buddy_avail (buddy_new small_map)) = 15" unfolding small_buddy(2) by simp
  then have "min 20 (size (buddy_avail (buddy_new small_map))) = 15" by simp
  then show ?thesis using buddy_requests[OF small_buddy(1), of 20] by metis
qed

text \<open>A concrete active state: one free block of two frames at 0x2000.\<close>

definition small_active :: BuddyFrameAllocator where
  "small_active = (buddy_new [])\<lparr>bd_active := True, bd_free_lists := (replicate BUDDY_ORDERS [])[1 := [0x2000]]\<rparr>"

lemma small_active_lists:
  "bd_free_lists small_active = [[], [0x2000], [], [], [], [], [], [], [], [], [], [], []]"
  by (simp add: small_active_def BUDDY_ORDERS_def BUDDY_MAX_ORDER_def numeral_eq_Suc)

lemma small_active_facts:
  "bd_active small_active" "buddy_avail small_active = {#2, 3#}" "buddy_inv small_active"
  "coalesced (bd_free_lists small_active)"
proof -
  show act: "bd_active small_active" by (simp add: small_active_def)
  have "free_mset (replicate BUDDY_ORDERS []) = {#}" by (rule free_mset_empty) simp
  then show av: "buddy_avail small_active = {#2, 3#}"
    using free_mset_push[of 1 "replicate BUDDY_ORDERS []" "0x2000"]
    by (simp add: buddy_avail_def act small_active_def block_frames_def BUDDY_ORDERS_def BUDDY_MAX_ORDER_def upt_rec)
  have "wf_lists (bd_free_lists small_active)"
    by (auto simp: wf_lists_def small_active_def nth_list_update BUDDY_ORDERS_def BUDDY_MAX_ORDER_def)
  then show "buddy_inv small_active"
    unfolding buddy_inv_def av by (simp add: act) (simp add: small_active_def buddy_new_def)
  show "coalesced (bd_free_lists small_active)"
    by (auto simp: coalesced_def small_active_def nth_list_update BUDDY_ORDERS_def BUDDY_MAX_ORDER_def block_size_def
        split: if_splits)
qed

lemma small_active_alloc:
  "\<exists>s1. buddy_allocate_frame small_active = Inr (Some 0x2000, s1)"
proof -
  have "bd_allocated small_active = 0" by (simp add: small_active_def buddy_new_def)
  then show ?thesis
    by (simp add: buddy_allocate_frame_def take_block.simps small_active_lists small_active_facts(1)
        BUDDY_MAX_ORDER_def block_size_def FRAME_SIZE_def MIN_ADDR_def add_op_def checked_add_def)
qed



text \<open>
  C14. Freeing a frame the allocator does not already own succeeds, returns exactly that frame to the
  free ones, keeps the invariant whatever merges happen, and counts it out of \<open>allocated\<close>.
\<close>

theorem deallocate_returns_frame:
  assumes "buddy_inv s" "bd_active s" "4096 dvd unat a" "4096 \<le> unat a"
    and "unat a div 4096 \<notin># buddy_avail s" "0 < unat (bd_allocated s)"
  shows "\<exists>s'. deallocate_frame s a = Inr s' \<and> buddy_inv s' \<and> bd_active s' \<and>
     buddy_avail s' = add_mset (unat a div 4096) (buddy_avail s) \<and>
     unat (bd_allocated s') = unat (bd_allocated s) - 1"
  using deallocate_frame_spec[OF assms] .

theorem deallocate_returns_frame_witness:
  "\<exists>s'. deallocate_frame (small_active\<lparr>bd_allocated := 1\<rparr>) 0x5000 = Inr s' \<and> buddy_avail s' = {#5, 2, 3#}"
proof -
  let ?s = "small_active\<lparr>bd_allocated := 1\<rparr>"
  have av: "buddy_avail ?s = {#2, 3#}"
    using small_active_facts(1,2) by (simp add: buddy_avail_def)
  have "buddy_inv ?s"
    using small_active_facts(1,3) unfolding buddy_inv_def av by simp
  then show ?thesis
    using deallocate_returns_frame[of ?s "0x5000"] small_active_facts(1) av by auto
qed

text \<open>
  C29. \<open>deallocate_frame\<close> panics in exactly three cases, each with its message: before \<open>activate\<close>, on
  an unaligned address, and on the zero page. The merging loop itself never fails, whatever the
  lists hold.
\<close>

theorem deallocate_panics_iff:
  assumes "buddy_inv s"
  shows "deallocate_frame s a = Inl e \<longleftrightarrow>
     e = Failed ''buddy free before activate'' \<and> \<not> bd_active s \<or>
     e = Failed ''buddy free of unaligned frame'' \<and> bd_active s \<and> \<not> 4096 dvd unat a \<or>
     e = Failed ''buddy free of the zero page'' \<and> bd_active s \<and> unat a = 0"
proof (cases "bd_active s \<and> 4096 dvd unat a \<and> 4096 \<le> unat a")
  case True
  then obtain fl where "merge_up (bd_free_lists s) a 0 = Inr fl"
    using assms merge_up_spec[of "bd_free_lists s" 0 a] by (auto simp: buddy_inv_def)
  then have "deallocate_frame s a \<noteq> Inl e"
    using True by (auto simp: deallocate_frame_def FRAME_SIZE_def MIN_ADDR_def word_le_nat_alt
        word_unat_eq_iff unat_mod dvd_eq_mod_eq_0)
  then show ?thesis using True by auto
next
  case False
  have "unat a = 0" if "4096 dvd unat a" "unat a < 4096" using that by (auto dest: dvd_imp_le)
  then show ?thesis
    using False deallocate_frame_errors[of s a] by (cases "bd_active s"; cases "4096 dvd unat a") auto
qed

theorem deallocate_panics_iff_witness:
  "deallocate_frame small_active 0x5001 = Inl (Failed ''buddy free of unaligned frame'')"
  using deallocate_panics_iff[OF small_active_facts(3), of "0x5001"] small_active_facts(1) by simp

text \<open>
  C12. \<open>activate\<close> loses no frame and invents none: in bump mode with the invariant it cannot panic,
  the free lists it builds hold exactly the frames the cursor had not passed, in aligned blocks, and
  \<open>free_frames\<close> counts them.
\<close>

theorem activate_keeps_frames:
  assumes "buddy_inv s" "\<not> bd_active s"
  shows "\<exists>s' n. activate s = Inr s' \<and> bd_active s' \<and> buddy_inv s' \<and>
     free_mset (bd_free_lists s') = mset (boot_pending (as_boot s)) \<and>
     free_frames s' = Inr n \<and> unat n = length (boot_pending (as_boot s))"
proof -
  obtain s' where s': "activate s = Inr s'" "bd_active s'" "buddy_inv s'" "buddy_avail s' = buddy_avail s"
    using activate_spec[OF assms] by blast
  then have "free_mset (bd_free_lists s') = mset (boot_pending (as_boot s))"
    using assms(2) by (simp add: buddy_avail_def)
  then show ?thesis using s' free_frames_count[OF s'(3,2)] by (auto simp: buddy_avail_def)
qed

theorem activate_keeps_frames_witness:
  "\<exists>s' n. activate (buddy_new small_map) = Inr s' \<and> free_mset (bd_free_lists s') = mset [1..<16] \<and>
     free_frames s' = Inr n \<and> unat n = 15"
proof -
  have "boot_pending (as_boot (buddy_new small_map)) = [1..<16]"
    using boot_new_pending[of small_map] small_map_facts(2)
    by (simp add: as_boot_def buddy_new_def boot_new_def)
  then show ?thesis using activate_keeps_frames[OF small_buddy(1,3)] by auto
qed


lemma boot_allocate_many:
  "boot_inv s \<Longrightarrow> \<exists>as s'. allocate_many (\<lambda>s. Inr (boot_allocate_frame s)) n s = Inr (as, s') \<and>
     map unat as = map ((*) 4096) (take n (boot_pending s))"
proof (induction n arbitrary: s)
  case (Suc n)
  obtain oa s' where r: "boot_allocate_frame s = (oa, s')" by (cases "boot_allocate_frame s")
  note step = boot_allocate_frame_refines[OF Suc.prems r]
  show ?case
  proof (cases "boot_pending s")
    case Nil
    then show ?thesis using step r by (auto simp: pending_step_def)
  next
    case (Cons f fs)
    then show ?thesis using step r Suc.IH[of s'] by (auto simp: pending_step_def)
  qed
qed simp

text \<open>
  C30. The bump allocator started on a sound memory map hands out the usable frames in map
  order, each once: \<open>n\<close> requests give the first \<open>n\<close> of them.
\<close>

theorem boot_hands_out_map:
  assumes "phys_map rs"
  shows "\<exists>as s'. allocate_many (\<lambda>s. Inr (boot_allocate_frame s)) n (boot_new rs) = Inr (as, s') \<and>
     map unat as = map ((*) 4096) (take n (map_frames rs))"
  using boot_allocate_many[OF boot_new_inv[OF assms], of n] by (simp add: boot_new_pending)

theorem boot_hands_out_map_witness:
  "\<exists>as s'. allocate_many (\<lambda>s. Inr (boot_allocate_frame s)) 3 (boot_new small_map) = Inr (as, s') \<and>
     map unat as = [0x1000, 0x2000, 0x3000]"
  using boot_hands_out_map[OF small_map_facts(1), of 3]
  unfolding small_map_facts(2) by (simp add: upt_rec)

lemma buddy_bump_step:
  assumes "buddy_inv s" "\<not> bd_active s" "boot_allocate_frame (as_boot s) = (oa, t)"
  shows "\<exists>s'. buddy_allocate_frame s = Inr (oa, s') \<and> as_boot s' = t \<and> buddy_inv s' \<and> \<not> bd_active s'"
proof -
  have regions: "bt_regions t = bd_regions s"
    using boot_allocate_frame_refines[OF _ assms(3)] assms(1,2) by (simp add: buddy_inv_def as_boot_def)
  have bump: "bump_one s = (oa, with_cursor s t)" using bump_one_eq_boot[of s] assms(3) by simp
  have t: "as_boot (with_cursor s t\<lparr>bd_allocated := n\<rparr>) = t" "as_boot (with_cursor s t) = t" for n
    using regions by (simp_all add: as_boot_def with_cursor_def)
  from conjI[OF assms(1,2)] show ?thesis
    by (cases rule: buddy_bump.allocate_cases)
       (use assms(2) bump t in \<open>auto simp: buddy_allocate_frame_def obind_eq_Inr assert_that_eq_Inr split: option.splits\<close>)
qed

text \<open>
  C31. Before \<open>activate\<close> the buddy allocator is the bump allocator: from the same map and the
  same cursor, any run of requests gives the same addresses, and the cursors agree afterwards.
\<close>

theorem buddy_bump_equivalence:
  assumes "buddy_inv s" "\<not> bd_active s"
  shows "\<exists>as s' t. allocate_many buddy_allocate_frame n s = Inr (as, s') \<and>
     allocate_many (\<lambda>t. Inr (boot_allocate_frame t)) n (as_boot s) = Inr (as, t) \<and> as_boot s' = t"
  using assms
proof (induction n arbitrary: s)
  case (Suc n)
  obtain oa t where t: "boot_allocate_frame (as_boot s) = (oa, t)" by (cases "boot_allocate_frame (as_boot s)")
  obtain s' where s': "buddy_allocate_frame s = Inr (oa, s')" "as_boot s' = t" "buddy_inv s'" "\<not> bd_active s'"
    using buddy_bump_step[OF Suc.prems t] by blast
  show ?case using Suc.IH[OF s'(3,4)] s'(1,2) t by (cases oa) auto
qed simp

theorem buddy_bump_equivalence_witness:
  "\<exists>as s' t. allocate_many buddy_allocate_frame 4 (buddy_new small_map) = Inr (as, s') \<and>
     allocate_many (\<lambda>t. Inr (boot_allocate_frame t)) 4 (boot_new small_map) = Inr (as, t) \<and> as_boot s' = t"
  using buddy_bump_equivalence[OF small_buddy(1,3), of 4]
  by (simp add: as_boot_def buddy_new_def boot_new_def)

end
