(* ===== verification/Apic.thy ===== *)
theory Apic
  imports Interrupts Memory
begin

text \<open>
  \<open>kernel/src/apic.rs\<close>: probing, mapping and enabling the local APIC, the calibration of its timer against the PIT, the
  periodic mode, and the promotion to master clock with its rollback. \<open>CPUID\<close>, the MSR and the registers of the
  device are arguments: \<open>rd log a\<close> is what a read of register \<open>a\<close> returns after the writes in \<open>log\<close>. What happens
  during a busy-wait is a sequence of moments, the \<open>i\<close>-th one before the \<open>i\<close>-th reading of the counter.
  \<open>promote\<close> and \<open>rollback_to_pit\<close> are sequences of atomic steps between which ticks of the PIT may arrive.
\<close>

section \<open>Probing\<close>

definition IA32_APIC_BASE :: u32 where
  "IA32_APIC_BASE = 0x1B"

definition APIC_BASE_MASK :: u64 where
  "APIC_BASE_MASK = 0x000FFFFFFFFFF000"

definition FALLBACK_BASE :: u64 where
  "FALLBACK_BASE = 0xFEE00000"

record Probe =
  present :: bool
  apic_base :: u64
  enabled :: bool
  bsp :: bool
  have_rsdp :: bool

definition probe :: "u32 \<Rightarrow> (u32 \<Rightarrow> u64) \<Rightarrow> u64 option \<Rightarrow> Probe" where
  "probe cpuid_edx rdmsr rsdp_addr =
     (let msr = rdmsr IA32_APIC_BASE;
          base = msr AND APIC_BASE_MASK in
      \<lparr>present = (cpuid_edx AND push_bit 9 1 \<noteq> 0),
       apic_base = (if base = 0 then FALLBACK_BASE else base),
       enabled = (msr AND push_bit 11 1 \<noteq> 0),
       bsp = (msr AND push_bit 8 1 \<noteq> 0),
       have_rsdp = (rsdp_addr \<noteq> None)\<rparr>)"

section \<open>Mapping and enabling\<close>

definition ID_OFFSET :: u64 where
  "ID_OFFSET = 0x20"

definition VER_OFFSET :: u64 where
  "VER_OFFSET = 0x30"

definition TPR_OFFSET :: u64 where
  "TPR_OFFSET = 0x80"

definition SVR_OFFSET :: u64 where
  "SVR_OFFSET = 0xF0"

definition LVT_TIMER_OFFSET :: u64 where
  "LVT_TIMER_OFFSET = 0x320"

definition DCR_OFFSET :: u64 where
  "DCR_OFFSET = 0x3E0"

definition ICR_OFFSET :: u64 where
  "ICR_OFFSET = 0x380"

definition CCR_OFFSET :: u64 where
  "CCR_OFFSET = 0x390"

lemmas offset_defs = ID_OFFSET_def VER_OFFSET_def TPR_OFFSET_def SVR_OFFSET_def LVT_TIMER_OFFSET_def DCR_OFFSET_def
  ICR_OFFSET_def CCR_OFFSET_def EOI_OFFSET_def

text \<open>A register address, or the early return of the \<open>?\<close> operator.\<close>

definition reg_then :: "u64 \<Rightarrow> u64 \<Rightarrow> 'd \<Rightarrow> (u64 \<Rightarrow> ((string + 'r) \<times> 'd) outcome) \<Rightarrow> ((string + 'r) \<times> 'd) outcome" where
  "reg_then win off d f = (case lapic_reg win off of Inl e \<Rightarrow> Inr (Inl e, d) | Inr a \<Rightarrow> f a)"

type_synonym mmio_reader = "(u64 \<times> u32) list \<Rightarrow> u64 \<Rightarrow> u32"

text \<open>The \<open>unsafe\<close> block of \<open>init\<close>; what it reads last is only printed.\<close>

definition apic_enable :: "mmio_reader \<Rightarrow> u64 \<Rightarrow> 'p devices \<Rightarrow> ((string + unit) \<times> 'p devices) outcome" where
  "apic_enable rd base d =
     reg_then base SVR_OFFSET d (\<lambda>svr.
       let d = mmio_write svr 0x1FF d in
       reg_then base LVT_TIMER_OFFSET d (\<lambda>lvt_timer.
         let lvt = rd (mmio_writes d) lvt_timer; d = mmio_write lvt_timer (lvt OR push_bit 16 1) d in
         reg_then base TPR_OFFSET d (\<lambda>tpr.
           let d = mmio_write tpr 0 d in
           reg_then base ID_OFFSET d (\<lambda>_.
             reg_then base VER_OFFSET d (\<lambda>_. Inr (Inr (), d))))))"

definition apic_init ::
  "('m, 'a) paging_api \<Rightarrow> mmio_reader \<Rightarrow> 'm \<Rightarrow> 'a \<Rightarrow> Probe \<Rightarrow> 'p devices
    \<Rightarrow> ((string + unit) \<times> 'm \<times> 'a \<times> 'p devices) outcome" where
  "apic_init api rd m s pr d =
     (if \<not> present pr then Inr (Inl ''no local APIC present'', m, s, d)
      else if \<not> enabled pr then Inr (Inl ''APIC soft-disabled'', m, s, d)
      else
        obind (map_mmio_window api m s (apic_base pr)) (\<lambda>(r, m, s).
          case r of
            Inl e \<Rightarrow> Inr (Inl e, m, s, d)
          | Inr base \<Rightarrow>
              let d = d\<lparr>LAPIC_VIRT := base\<rparr> in
              obind (add_op base EOI_OFFSET) (\<lambda>eoi_addr.
                let d = d\<lparr>preempts_of := set_eoi_base eoi_addr (preempts_of d)\<rparr> in
                obind (apic_enable rd base d) (\<lambda>(r, d). Inr (r, m, s, d)))))"

section \<open>Calibration\<close>

definition PIT_HZ :: u32 where
  "PIT_HZ = 100"

definition CALIB_PIT_TICKS :: u32 where
  "CALIB_PIT_TICKS = 10"

definition CALIB_ROUNDS :: nat where
  "CALIB_ROUNDS = 3"

definition SPIN_GUARD :: nat where
  "SPIN_GUARD = 10000000"

definition checked_div :: "'a::len word \<Rightarrow> 'a word \<Rightarrow> 'a word option" where
  "checked_div a b = (if b = 0 then None else Some (a div b))"

definition calibrate_ticks :: "u32 \<Rightarrow> u32 \<Rightarrow> u32 \<Rightarrow> u64" where
  "calibrate_ticks delta pit_hz ticks =
     (if pit_hz = 0 \<or> ticks = 0 then 0
      else
        let per_10ms = ucast pit_hz div 100 in
        case checked_div (saturating_mul (ucast delta) per_10ms) (ucast ticks) of Some n \<Rightarrow> n | None \<Rightarrow> 0)"

text \<open>
  The busy-wait of one round, \<open>spins\<close> iterations in. The guard bounds the iterations, so
  the counter stays far below the range of a \<open>u64\<close> and is a natural number.
\<close>

function calib_wait ::
  "'p pic_api \<Rightarrow> (nat \<Rightarrow> moment) \<Rightarrow> u64 \<Rightarrow> nat \<Rightarrow> 'p devices \<Rightarrow> ((string + unit) \<times> 'p devices) outcome" where
  "calib_wait api env start spins d =
     obind (elapse api (env spins) d) (\<lambda>d.
       if ucast CALIB_PIT_TICKS \<le> TIMER_TICKS d - start then Inr (Inr (), d)
       else if SPIN_GUARD < spins + 1 then Inr (Inl ''apic: PIT produced no ticks during calibration'', d)
       else calib_wait api env start (spins + 1) d)"
  by pat_completeness auto
termination
  by (relation "measure (\<lambda>(api, env, start, spins, d). SPIN_GUARD - spins)") auto

declare calib_wait.simps [simp del]

text \<open>One round of the calibration: what arrives during its wait, and the counter value read at its end.\<close>

record window =
  spin_env :: "nat \<Rightarrow> moment"
  ccr :: u32

fun calib_rounds :: "'p pic_api \<Rightarrow> u64 \<Rightarrow> window list \<Rightarrow> 'p devices \<Rightarrow> ((string + u32 list) \<times> 'p devices) outcome" where
  "calib_rounds api win [] d = Inr (Inr [], d)"
| "calib_rounds api win (w # ws) d =
     reg_then win ICR_OFFSET d (\<lambda>icr.
       let d = mmio_write icr 0xFFFFFFFF d in
       obind (calib_wait api (spin_env w) (TIMER_TICKS d) 0 d) (\<lambda>(r, d).
         case r of
           Inl e \<Rightarrow> Inr (Inl e, d)
         | Inr _ \<Rightarrow>
             reg_then win CCR_OFFSET d (\<lambda>_.
               let delta = 0xFFFFFFFF - ccr w in
               if delta = 0 then Inr (Inl ''apic: CCR delta is zero'', d)
               else
                 obind (calib_rounds api win ws d) (\<lambda>(r, d).
                   case r of Inl e \<Rightarrow> Inr (Inl e, d) | Inr deltas \<Rightarrow> Inr (Inr (delta # deltas), d)))))"

definition median3 :: "u32 \<Rightarrow> u32 \<Rightarrow> u32 \<Rightarrow> u32" where
  "median3 a b c = max (min a b) (min c (max a b))"

definition calibrate :: "'p pic_api \<Rightarrow> (nat \<Rightarrow> window) \<Rightarrow> 'p devices \<Rightarrow> ((string + u64) \<times> 'p devices) outcome" where
  "calibrate api windows d =
     (let win = LAPIC_VIRT d in
      if win = 0 then Inr (Inl ''apic: calibrate before init'', d)
      else
        reg_then win DCR_OFFSET d (\<lambda>dcr.
          let d = mmio_write dcr 0x3 d in
          obind (calib_rounds api win (map windows [0..<CALIB_ROUNDS]) d) (\<lambda>(r, d).
            case r of
              Inl e \<Rightarrow> Inr (Inl e, d)
            | Inr deltas \<Rightarrow>
                let a = deltas ! 0; b = deltas ! 1; c = deltas ! 2; median = median3 a b c in
                obind (sub_op (max (max a b) c) (min (min a b) c)) (\<lambda>spread.
                  let per_10ms = calibrate_ticks median PIT_HZ CALIB_PIT_TICKS in
                  if per_10ms = 0 then Inr (Inl ''apic: calibrated rate is zero'', d)
                  else Inr (Inr per_10ms, d\<lparr>TICKS_PER_10MS := per_10ms\<rparr>)))))"

definition ticks_per_10ms :: "'p devices \<Rightarrow> u64" where
  "ticks_per_10ms d = TICKS_PER_10MS d"

section \<open>Periodic mode\<close>

definition start_periodic :: "'p devices \<Rightarrow> ((string + u64) \<times> 'p devices) outcome" where
  "start_periodic d =
     (let win = LAPIC_VIRT d in
      if win = 0 then Inr (Inl ''apic: start_periodic before init'', d)
      else
        let quantum = ticks_per_10ms d in
        if quantum = 0 \<or> ucast (- 1 :: u32) < quantum then Inr (Inl ''apic: no calibrated rate'', d)
        else
          reg_then win LVT_TIMER_OFFSET d (\<lambda>lvt.
            let d = mmio_write lvt (0xEF OR push_bit 17 1) d in
            reg_then win ICR_OFFSET d (\<lambda>icr. Inr (Inr quantum, mmio_write icr (ucast quantum) d))))"

section \<open>Promotion and rollback\<close>

text \<open>
  The atomic steps of a read-modify-write of the masks inside \<open>without_interrupts\<close>, which remembers the flag and restores it.
  Before each step, and once after the last, \<open>arrive i\<close> ticks of the PIT are asserted.
\<close>

datatype pic_op = Disable_irqs | Lock_pics | Read_masks | Write_masks "u8 \<times> u8 \<Rightarrow> u8 \<times> u8" | Unlock_pics | Restore_irqs

fun pic_step :: "'p pic_api \<Rightarrow> pic_op \<Rightarrow> bool \<times> (u8 \<times> u8) \<times> 'p devices \<Rightarrow> (bool \<times> (u8 \<times> u8) \<times> 'p devices) outcome" where
  "pic_step api Disable_irqs (saved, ms, d) = Inr (if_flag d, ms, d\<lparr>if_flag := False\<rparr>)"
| "pic_step api Lock_pics (saved, ms, d) = obind (lock_pics d) (\<lambda>d. Inr (saved, ms, d))"
| "pic_step api Read_masks (saved, ms, d) = Inr (saved, read_masks api (PICS d), d)"
| "pic_step api (Write_masks f) (saved, ms, d) =
     Inr (saved, ms, d\<lparr>PICS := write_masks api (PICS d) (fst (f ms)) (snd (f ms))\<rparr>)"
| "pic_step api Unlock_pics (saved, ms, d) = Inr (saved, ms, unlock_pics d)"
| "pic_step api Restore_irqs (saved, ms, d) = Inr (saved, ms, if saved then d\<lparr>if_flag := True\<rparr> else d)"

fun run_pic_ops ::
  "'p pic_api \<Rightarrow> (nat \<Rightarrow> nat) \<Rightarrow> nat \<Rightarrow> pic_op list \<Rightarrow> bool \<times> (u8 \<times> u8) \<times> 'p devices \<Rightarrow> 'p devices outcome" where
  "run_pic_ops api arrive i [] (saved, ms, d) = irq0s api (arrive i) d"
| "run_pic_ops api arrive i (op # ops) (saved, ms, d) =
     obind (irq0s api (arrive i) d) (\<lambda>d.
     obind (pic_step api op (saved, ms, d)) (run_pic_ops api arrive (Suc i) ops))"

definition promote_ops :: "pic_op list" where
  "promote_ops = [Disable_irqs, Lock_pics, Read_masks, Write_masks (\<lambda>(m0, m1). (m0 OR 0x01, m1)), Unlock_pics, Restore_irqs]"

definition rollback_ops :: "pic_op list" where
  "rollback_ops = [Disable_irqs, Lock_pics, Read_masks, Write_masks (\<lambda>(m0, m1). (m0 AND NOT 0x01, m1)), Unlock_pics, Restore_irqs]"

definition promote :: "'p pic_api \<Rightarrow> (nat \<Rightarrow> nat) \<Rightarrow> 'p devices \<Rightarrow> ((string + unit) \<times> 'p devices) outcome" where
  "promote api arrive d =
     (if LAPIC_VIRT d = 0 then Inr (Inl ''apic: promote before init'', d)
      else if ticks_per_10ms d = 0 then Inr (Inl ''apic: promote without a calibrated rate'', d)
      else obind (run_pic_ops api arrive 0 promote_ops (False, (0, 0), d)) (\<lambda>d. Inr (Inr (), d)))"

definition rollback_to_pit :: "'p pic_api \<Rightarrow> (nat \<Rightarrow> nat) \<Rightarrow> 'p devices \<Rightarrow> 'p devices outcome" where
  "rollback_to_pit api arrive d = run_pic_ops api arrive 0 rollback_ops (False, (0, 0), d)"

section \<open>The wait ends\<close>

text \<open>The ticks of the PIT asserted from iteration \<open>i\<close> to iteration \<open>n\<close> of a wait.\<close>

definition arrived :: "(nat \<Rightarrow> moment) \<Rightarrow> nat \<Rightarrow> nat \<Rightarrow> nat" where
  "arrived env i n = (\<Sum>j\<in>{i..n}. pit_ticks (env j))"

abbreviation tick_count :: "'p pic_api \<Rightarrow> 'p devices \<Rightarrow> nat \<Rightarrow> u64" where
  "tick_count api d n \<equiv> (if irq0_open api d then of_nat n else 0)"

lemma arrived_step: "i \<le> n \<Longrightarrow> arrived env i n = pit_ticks (env i) + arrived env (Suc i) n"
  unfolding arrived_def by (simp add: sum.atLeast_Suc_atMost)

lemma arrived_single [simp]: "arrived env i i = pit_ticks (env i)"
  by (simp add: arrived_def)

lemma calib_ticks [simp]: "ucast CALIB_PIT_TICKS = (10 :: u64)"
  by (simp add: CALIB_PIT_TICKS_def)

lemma calib_wait_spec:
  assumes "pic_laws api" "\<not> PICS_taken d" "spins \<le> SPIN_GUARD"
  shows "\<exists>d'. ticked api d d' \<and> calib_wait api env start spins d =
     Inr (if \<exists>n. spins \<le> n \<and> n \<le> SPIN_GUARD \<and> 10 \<le> TIMER_TICKS d + tick_count api d (arrived env spins n) - start
          then Inr () else Inl ''apic: PIT produced no ticks during calibration'', d')"
  using assms(2,3)
proof (induction "SPIN_GUARD - spins" arbitrary: spins d)
  case (0 spins d)
  then have sp: "spins = SPIN_GUARD" by simp
  obtain d1 where d1: "elapse api (env spins) d = Inr d1" "ticked api d d1"
      "TIMER_TICKS d1 = TIMER_TICKS d + tick_count api d (pit_ticks (env spins))"
    using elapse_spec[OF assms(1) "0.prems"(1), of "env spins"] by (elim exE conjE)
  have "(\<exists>n. spins \<le> n \<and> n \<le> SPIN_GUARD \<and> 10 \<le> TIMER_TICKS d + tick_count api d (arrived env spins n) - start) \<longleftrightarrow>
      10 \<le> TIMER_TICKS d1 - start"
    unfolding sp d1(3)[unfolded sp] by (auto simp: le_antisym)
  then show ?case
    using d1(1,2) unfolding sp
    by (intro exI[of _ d1] conjI) (simp_all add: calib_wait.simps[of api env start SPIN_GUARD d])
next
  case (Suc m spins d)
  obtain d1 where d1: "elapse api (env spins) d = Inr d1" "ticked api d d1"
      "TIMER_TICKS d1 = TIMER_TICKS d + tick_count api d (pit_ticks (env spins))"
    using elapse_spec[OF assms(1) Suc.prems(1), of "env spins"] by (elim exE conjE)
  have shift: "TIMER_TICKS d1 + tick_count api d1 (arrived env (Suc spins) n) = TIMER_TICKS d + tick_count api d (arrived env spins n)"
    if "spins \<le> n" for n
    using that by (simp add: d1(3) ticked_open[OF d1(2)] arrived_step)
  have next_spin: "m = SPIN_GUARD - Suc spins" "Suc spins \<le> SPIN_GUARD" using Suc.hyps(2) by simp_all
  obtain d' where d': "ticked api d1 d'" "calib_wait api env start (Suc spins) d1 =
     Inr (if \<exists>n. Suc spins \<le> n \<and> n \<le> SPIN_GUARD \<and> 10 \<le> TIMER_TICKS d1 + tick_count api d1 (arrived env (Suc spins) n) - start
          then Inr () else Inl ''apic: PIT produced no ticks during calibration'', d')"
    using Suc.hyps(1)[OF next_spin(1) ticked_free[OF d1(2)] next_spin(2)] by (elim exE conjE)
  show ?case
  proof (cases "10 \<le> TIMER_TICKS d1 - start")
    case True
    then have "10 \<le> TIMER_TICKS d + tick_count api d (arrived env spins spins) - start" by (simp only: d1(3) arrived_single)
    then have "\<exists>n. spins \<le> n \<and> n \<le> SPIN_GUARD \<and> 10 \<le> TIMER_TICKS d + tick_count api d (arrived env spins n) - start"
      using Suc.prems(2) by (intro exI[of _ spins]) simp
    then show ?thesis
      using d1(1,2) True by (intro exI[of _ d1] conjI) (simp_all add: calib_wait.simps[of api env start spins d])
  next
    case False
    have later: "(\<exists>n. spins \<le> n \<and> n \<le> SPIN_GUARD \<and> 10 \<le> TIMER_TICKS d + tick_count api d (arrived env spins n) - start) \<longleftrightarrow>
        (\<exists>n. Suc spins \<le> n \<and> n \<le> SPIN_GUARD \<and> 10 \<le> TIMER_TICKS d1 + tick_count api d1 (arrived env (Suc spins) n) - start)"
    proof -
      have "n \<noteq> spins" if "10 \<le> TIMER_TICKS d + tick_count api d (arrived env spins n) - start" for n
        using that False unfolding d1(3) by (metis arrived_single)
      then show ?thesis using shift by (metis Suc_leD le_neq_implies_less Suc_leI)
    qed
    have "calib_wait api env start spins d = calib_wait api env start (Suc spins) d1"
      using d1(1) False next_spin(2) by (simp add: calib_wait.simps[of api env start spins d])
    then show ?thesis
      using ticked_trans[OF d1(2) d'(1)] by (intro exI[of _ d'] conjI) (simp_all only: d'(2) later)
  qed
qed

section \<open>The rate\<close>

definition window_mapped :: "u64 \<Rightarrow> bool" where
  "window_mapped win \<longleftrightarrow> win \<noteq> 0 \<and> unat win + 0x400 < 2 ^ 64"

lemma reg_then_ok: "window_mapped win \<Longrightarrow> unat off < 0x400 \<Longrightarrow> reg_then win off d f = f (win + off)"
  by (simp add: reg_then_def lapic_reg_def checked_add_def window_mapped_def)

lemmas regs_ok = reg_then_ok[of _ ID_OFFSET, unfolded ID_OFFSET_def, simplified, folded ID_OFFSET_def]
  reg_then_ok[of _ VER_OFFSET, unfolded VER_OFFSET_def, simplified, folded VER_OFFSET_def]
  reg_then_ok[of _ TPR_OFFSET, unfolded TPR_OFFSET_def, simplified, folded TPR_OFFSET_def]
  reg_then_ok[of _ SVR_OFFSET, unfolded SVR_OFFSET_def, simplified, folded SVR_OFFSET_def]
  reg_then_ok[of _ LVT_TIMER_OFFSET, unfolded LVT_TIMER_OFFSET_def, simplified, folded LVT_TIMER_OFFSET_def]
  reg_then_ok[of _ DCR_OFFSET, unfolded DCR_OFFSET_def, simplified, folded DCR_OFFSET_def]
  reg_then_ok[of _ ICR_OFFSET, unfolded ICR_OFFSET_def, simplified, folded ICR_OFFSET_def]
  reg_then_ok[of _ CCR_OFFSET, unfolded CCR_OFFSET_def, simplified, folded CCR_OFFSET_def]

lemma mmio_write_simps [simp]:
  "TIMER_TICKS (mmio_write a v d) = TIMER_TICKS d" "PICS_taken (mmio_write a v d) = PICS_taken d"
  "LAPIC_VIRT (mmio_write a v d) = LAPIC_VIRT d" "TICKS_PER_10MS (mmio_write a v d) = TICKS_PER_10MS d"
  "irq0_open api (mmio_write a v d) = irq0_open api d" "preempts_of (mmio_write a v d) = preempts_of d"
  "mmio_writes (mmio_write a v d) = mmio_writes d @ [(a, v)]"
  by (simp_all add: mmio_write_def irq0_open_def)

lemma ticked_mmio: "\<not> PICS_taken d \<Longrightarrow> ticked api d (mmio_write a v d)"
  by (simp add: ticked_def mmio_write_def no_stubs)

text \<open>How far the counter ran down in a round, and when a round succeeds.\<close>

definition delta_of :: "window \<Rightarrow> u32" where
  "delta_of w = 0xFFFFFFFF - ccr w"

definition round_ok :: "window \<Rightarrow> bool" where
  "round_ok w \<longleftrightarrow> (\<exists>n. n \<le> SPIN_GUARD \<and> 10 \<le> (of_nat (arrived (spin_env w) 0 n) :: u64)) \<and> delta_of w \<noteq> 0"

lemma calib_rounds_spec:
  assumes "pic_laws api" "window_mapped win" "\<not> PICS_taken d"
  shows "\<exists>r d'. calib_rounds api win ws d = Inr (r, d') \<and> ticked api d d' \<and>
     (if ws = [] \<or> (irq0_open api d \<and> (\<forall>w\<in>set ws. round_ok w)) then r = Inr (map delta_of ws) else \<exists>e. r = Inl e)"
  using assms(3)
proof (induction ws arbitrary: d)
  case Nil
  then show ?case by (simp add: ticked_refl)
next
  case (Cons w ws)
  let ?d = "mmio_write (win + ICR_OFFSET) 0xFFFFFFFF d"
  obtain e where e: "ticked api ?d e" "calib_wait api (spin_env w) (TIMER_TICKS ?d) 0 ?d =
     Inr (if \<exists>n. 0 \<le> n \<and> n \<le> SPIN_GUARD \<and> 10 \<le> TIMER_TICKS ?d + tick_count api ?d (arrived (spin_env w) 0 n) - TIMER_TICKS ?d
          then Inr () else Inl ''apic: PIT produced no ticks during calibration'', e)"
    using calib_wait_spec[OF assms(1), of ?d 0 "spin_env w" "TIMER_TICKS ?d"] Cons.prems by auto
  have te: "ticked api d e" using ticked_trans[OF ticked_mmio[OF Cons.prems] e(1)] .
  define enough where "enough \<longleftrightarrow> irq0_open api d \<and> (\<exists>n. n \<le> SPIN_GUARD \<and> 10 \<le> (of_nat (arrived (spin_env w) 0 n) :: u64))"
  have wait: "calib_wait api (spin_env w) (TIMER_TICKS d) 0 ?d =
      Inr (if enough then Inr () else Inl ''apic: PIT produced no ticks during calibration'', e)"
    using e(2) by (auto simp: enough_def)
  obtain r d' where rest: "calib_rounds api win ws e = Inr (r, d')" "ticked api e d'"
     "if ws = [] \<or> (irq0_open api e \<and> (\<forall>w\<in>set ws. round_ok w)) then r = Inr (map delta_of ws) else \<exists>e. r = Inl e"
    using Cons.IH[OF ticked_free[OF te]] by (elim exE conjE)
  have ok: "round_ok w \<and> irq0_open api d \<longleftrightarrow> enough \<and> delta_of w \<noteq> 0" by (auto simp: enough_def round_ok_def)
  show ?case
  proof (cases "enough \<and> delta_of w \<noteq> 0")
    case True
    then have "calib_rounds api win (w # ws) d =
        Inr (case r of Inl e \<Rightarrow> Inl e | Inr deltas \<Rightarrow> Inr (delta_of w # deltas), d')"
      using wait rest(1) by (simp add: regs_ok[OF assms(2)] delta_of_def[symmetric] split: sum.splits)
    then show ?thesis
      using True ok rest(3) ticked_open[OF te] ticked_trans[OF te rest(2)] by (auto split: if_splits)
  next
    case False
    have "\<exists>x. calib_rounds api win (w # ws) d = Inr (Inl x, e)"
      using False wait by (cases enough) (simp_all add: regs_ok[OF assms(2)] delta_of_def)
    then show ?thesis using False ok te by auto
  qed
qed

lemma unat_calibrate_ticks: "unat (calibrate_ticks n PIT_HZ CALIB_PIT_TICKS) = unat n div 10"
proof -
  have "unat n < 2 ^ 32" using unsigned_less[of n] by simp
  then have "unat (ucast n :: u64) = unat n" "unat (saturating_mul (ucast n :: u64) 1) = unat n"
    by (simp_all add: unsigned_ucast_eq take_bit_nat_eq_self rust_arith)
  then show ?thesis by (simp add: calibrate_ticks_def PIT_HZ_def checked_div_def unat_div CALIB_PIT_TICKS_def)
qed

lemma unat_median3: "unat (median3 a b c) = sort [unat a, unat b, unat c] ! 1"
proof -
  have "unat (median3 a b c) = max (min (unat a) (unat b)) (min (unat c) (max (unat a) (unat b)))"
    by (simp only: median3_def unat_max unat_min)
  then show ?thesis by (auto simp: max_def min_def)
qed

text \<open>The outcome of \<open>calibrate\<close> with the window mapped: the middle one of the three deltas, over ten.\<close>

abbreviation middle_delta :: "(nat \<Rightarrow> window) \<Rightarrow> nat" where
  "middle_delta w \<equiv> sort [unat (delta_of (w 0)), unat (delta_of (w 1)), unat (delta_of (w 2))] ! 1"

lemma calibrate_spec:
  assumes "pic_laws api" "window_mapped (LAPIC_VIRT d)" "\<not> PICS_taken d"
  shows "\<exists>r d'. calibrate api w d = Inr (r, d') \<and>
     (if irq0_open api d \<and> (\<forall>i<3. round_ok (w i)) \<and> 10 \<le> middle_delta w
      then \<exists>q. r = Inr q \<and> unat q = middle_delta w div 10 \<and> ticked api (d\<lparr>TICKS_PER_10MS := q\<rparr>) d'
      else (\<exists>e. r = Inl e) \<and> ticked api d d')"
proof -
  let ?d = "mmio_write (LAPIC_VIRT d + DCR_OFFSET) 0x3 d" and ?ws = "map w [0..<3]"
  obtain r e where r: "calib_rounds api (LAPIC_VIRT d) ?ws ?d = Inr (r, e)" "ticked api ?d e"
     "if ?ws = [] \<or> (irq0_open api ?d \<and> (\<forall>w\<in>set ?ws. round_ok w)) then r = Inr (map delta_of ?ws) else \<exists>e. r = Inl e"
    using calib_rounds_spec[OF assms(1,2), of ?d ?ws] assms(3) by auto
  have te: "ticked api d e" using ticked_trans[OF ticked_mmio[OF assms(3)] r(2)] .
  have nz: "LAPIC_VIRT d \<noteq> 0" using assms(2) by (simp add: window_mapped_def)
  have three: "[0..<3] = [0, 1, 2 :: nat]" by (simp add: upt_conv_Cons)
  have all: "(\<forall>w\<in>set ?ws. round_ok w) \<longleftrightarrow> (\<forall>i<3. round_ok (w i))" by auto
  show ?thesis
  proof (cases "irq0_open api d \<and> (\<forall>i<3. round_ok (w i))")
    case False
    then obtain x where "r = Inl x" using r(3) all three by (auto split: if_splits)
    then show ?thesis
      using False te r(1) nz by (intro exI[of _ "Inl x"] exI[of _ e]) (simp add: calibrate_def regs_ok[OF assms(2)] CALIB_ROUNDS_def)
  next
    case True
    let ?a = "delta_of (w 0)" and ?b = "delta_of (w 1)" and ?c = "delta_of (w 2)"
    let ?q = "calibrate_ticks (median3 ?a ?b ?c) PIT_HZ CALIB_PIT_TICKS"
    have rs: "r = Inr [?a, ?b, ?c]" using True r(3) all three by simp
    obtain sp where sp: "sub_op (max (max ?a ?b) ?c) (min (min ?a ?b) ?c) = Inr sp"
      by (cases "sub_op (max (max ?a ?b) ?c) (min (min ?a ?b) ?c)") (auto simp: sub_op_def max_def min_def not_less split: if_splits)
    have q: "unat ?q = middle_delta w div 10" by (simp add: unat_calibrate_ticks unat_median3)
    have cal: "calibrate api w d = Inr (if ?q = 0 then (Inl ''apic: calibrated rate is zero'', e) else (Inr ?q, e\<lparr>TICKS_PER_10MS := ?q\<rparr>))"
      using r(1) rs sp nz by (simp add: calibrate_def regs_ok[OF assms(2)] CALIB_ROUNDS_def Let_def)
    have "?q = 0 \<longleftrightarrow> \<not> 10 \<le> middle_delta w" using q by (auto simp: word_unat_eq_iff)
    moreover have "ticked api (d\<lparr>TICKS_PER_10MS := ?q\<rparr>) (e\<lparr>TICKS_PER_10MS := ?q\<rparr>)" using te by (simp add: ticked_def)
    ultimately show ?thesis using cal q True te by (cases "?q = 0") auto
  qed
qed

lemma middle_between:
  fixes a b c lo hi :: nat
  shows "lo \<le> a \<and> a \<le> hi \<and> lo \<le> b \<and> b \<le> hi \<or> lo \<le> a \<and> a \<le> hi \<and> lo \<le> c \<and> c \<le> hi \<or> lo \<le> b \<and> b \<le> hi \<and> lo \<le> c \<and> c \<le> hi \<Longrightarrow>
    lo \<le> sort [a, b, c] ! 1 \<and> sort [a, b, c] ! 1 \<le> hi"
  by auto

section \<open>Promotion\<close>

lemma irq0s_closed: "\<not> irq0_open api d \<Longrightarrow> irq0s api n d = Inr d"
  by (induction n) (simp_all add: poll_irq0_def)

text \<open>\<open>masks_changed\<close>: the masks went through \<open>f\<close>; apart from that only interrupts happened.\<close>

definition masks_changed :: "'p pic_api \<Rightarrow> (u8 \<times> u8 \<Rightarrow> u8 \<times> u8) \<Rightarrow> 'p devices \<Rightarrow> 'p devices \<Rightarrow> bool" where
  "masks_changed api f d d' \<longleftrightarrow> (\<exists>e. ticked api d e \<and> ticked api (e\<lparr>PICS := write_masks api (PICS e) (fst (f (read_masks api (PICS d)))) (snd (f (read_masks api (PICS d))))\<rparr>) d')"

lemma masks_changed_facts:
  assumes "pic_laws api" "masks_changed api f d d'"
  shows "\<not> PICS_taken d'" "if_flag d' = if_flag d" "read_masks api (PICS d') = f (read_masks api (PICS d))"
    "LAPIC_VIRT d' = LAPIC_VIRT d" "TICKS_PER_10MS d' = TICKS_PER_10MS d" "SYSCALL_HITS d' = SYSCALL_HITS d"
  using assms by (auto simp: masks_changed_def ticked_def pic_laws_def)

lemma critical_section:
  fixes api :: "'p pic_api" and f d
  defines "ops \<equiv> [Disable_irqs, Lock_pics, Read_masks, Write_masks f, Unlock_pics, Restore_irqs]"
    and "open' \<equiv> if_flag d \<and> \<not> bit (fst (f (read_masks api (PICS d)))) 0"
  assumes "pic_laws api" "\<not> PICS_taken d"
  shows "\<exists>d'. run_pic_ops api arrive 0 ops (False, (0, 0), d) = Inr d' \<and> masks_changed api f d d' \<and>
     TIMER_TICKS d' = TIMER_TICKS d + tick_count api d (arrive 0) + (if open' then of_nat (arrive 6) else 0) \<and>
     preempts_of d' = preempts_of d"
proof -
  obtain e where e: "irq0s api (arrive 0) d = Inr e" "ticked api d e" "preempts_of e = preempts_of d"
      "TIMER_TICKS e = TIMER_TICKS d + tick_count api d (arrive 0)"
    using irq0s_spec[OF assms(3,4), of "arrive 0"] by (elim exE conjE)
  have masks: "read_masks api (PICS e) = read_masks api (PICS d)" and fl: "if_flag e = if_flag d" and tk: "\<not> PICS_taken e"
    using e(2) by (simp_all add: ticked_def)
  let ?g = "e\<lparr>PICS := write_masks api (PICS e) (fst (f (read_masks api (PICS d)))) (snd (f (read_masks api (PICS d))))\<rparr>"
  have closed: "\<not> if_flag x \<Longrightarrow> irq0s api n x = Inr x" for n and x :: "'p devices"
    by (rule irq0s_closed) (simp add: irq0_open_def)
  have run: "run_pic_ops api arrive 0 ops (False, (0, 0), d) = irq0s api (arrive 6) ?g"
    unfolding ops_def using e(1) masks tk fl
    by (simp add: closed lock_pics_def unlock_pics_def numeral_nat)
      (intro conjI impI arg_cong[where f = "irq0s api (arrive (Suc (Suc (Suc (Suc (Suc (Suc 0)))))))"] devices.equality; simp)
  have op: "irq0_open api ?g = open'" using assms(3) fl by (simp add: irq0_open_def open'_def pic_laws_def)
  have "\<not> PICS_taken ?g" using tk by simp
  then obtain d' where d': "irq0s api (arrive 6) ?g = Inr d'" "ticked api ?g d'" "preempts_of d' = preempts_of ?g"
      "TIMER_TICKS d' = TIMER_TICKS ?g + tick_count api ?g (arrive 6)"
    using irq0s_spec[OF assms(3), of ?g "arrive 6"] by (elim meta_impE exE conjE)
  show ?thesis
    using run d' e(2-4) op by (intro exI[of _ d'] conjI) (auto simp: masks_changed_def)
qed

section \<open>Bringing the device up\<close>

lemma probe_base:
  "4096 dvd unat (apic_base (probe edx rdmsr rsdp))" "unat (apic_base (probe edx rdmsr rsdp)) < 2 ^ 52" "apic_base (probe edx rdmsr rsdp) \<noteq> 0"
proof -
  let ?b = "rdmsr IA32_APIC_BASE AND APIC_BASE_MASK"
  have "?b = (rdmsr IA32_APIC_BASE AND 0xFFFFFFFFFFFFF) AND NOT 0xFFF"
    by (simp add: APIC_BASE_MASK_def and.assoc)
  then have "4096 dvd unat ?b" by (simp only: page_aligned)
  moreover have "unat ?b \<le> unat APIC_BASE_MASK" by (simp add: word_le_nat_alt[symmetric] word_and_le1)
  ultimately show "4096 dvd unat (apic_base (probe edx rdmsr rsdp))" "unat (apic_base (probe edx rdmsr rsdp)) < 2 ^ 52"
      "apic_base (probe edx rdmsr rsdp) \<noteq> 0"
    by (simp_all add: probe_def Let_def FALLBACK_BASE_def APIC_BASE_MASK_def)
qed

lemma mmio_window_facts: "canonical MMIO_WINDOW" "MMIO_WINDOW AND NOT 0xFFF = MMIO_WINDOW" "window_mapped MMIO_WINDOW"
  "add_op MMIO_WINDOW EOI_OFFSET = Inr (MMIO_WINDOW + EOI_OFFSET)"
  by (simp_all add: MMIO_WINDOW_def canonical_def window_mapped_def add_op_def checked_add_def EOI_OFFSET_def)

definition device_page :: "u64 \<Rightarrow> u64 \<times> page_flag set" where
  "device_page phys = (phys, {PRESENT, WRITABLE, NO_CACHE, NO_EXECUTE})"

text \<open>The registers \<open>init\<close> writes, in order: enable with spurious vector, mask the timer, accept every priority.\<close>

definition enable_writes :: "mmio_reader \<Rightarrow> (u64 \<times> u32) list \<Rightarrow> (u64 \<times> u32) list" where
  "enable_writes rd log =
     (let log1 = log @ [(MMIO_WINDOW + SVR_OFFSET, 0x1FF)]; a = MMIO_WINDOW + LVT_TIMER_OFFSET in
      log1 @ [(a, rd log1 a OR push_bit 16 1), (MMIO_WINDOW + TPR_OFFSET, 0)])"

definition apic_up :: "mmio_reader \<Rightarrow> 'p devices \<Rightarrow> 'p devices" where
  "apic_up rd d = d\<lparr>LAPIC_VIRT := MMIO_WINDOW, preempts_of := set_eoi_base (MMIO_WINDOW + EOI_OFFSET) (preempts_of d),
     mmio_writes := enable_writes rd (mmio_writes d)\<rparr>"

lemma apic_enable_eq:
  "apic_enable rd MMIO_WINDOW d = Inr (Inr (), d\<lparr>mmio_writes := enable_writes rd (mmio_writes d)\<rparr>)"
  by (simp add: apic_enable_def regs_ok[OF mmio_window_facts(3)] enable_writes_def mmio_write_def Let_def)

context frame_allocator
begin

lemma map_mmio_window_cases:
  assumes "invar s" "paging_laws allocate api" "4096 dvd unat phys" "unat phys < 2 ^ 52"
  obtains (mapped) m' s' where "map_mmio_window api m s phys = Inr (Inr MMIO_WINDOW, m', s')" "invar s'" "avail s' \<subseteq># avail s"
      "size (avail s) \<le> size (avail s') + 3" "translate api m MMIO_WINDOW = None"
      "translate api m' = (translate api m)(MMIO_WINDOW \<mapsto> device_page phys)"
  | (refused) e m' s' where "map_mmio_window api m s phys = Inr (Inl e, m', s')" "translate api m' = translate api m"
      "translate api m MMIO_WINDOW \<noteq> None \<or> size (avail s) < 3"
proof -
  let ?flags = "{PRESENT, WRITABLE, NO_CACHE, NO_EXECUTE}"
  have al: "phys mod 4096 = 0" using assms(3) by (simp add: word_unat_eq_iff unat_mod mod_eq_0_iff_dvd)
  have ph: "phys AND NOT 0xFFF = phys"
    using assms(3) unat_and_not_page[of phys] by (simp add: word_unat_eq_iff FRAME_SIZE_def)
  have api: "virt_new api MMIO_WINDOW = Inr MMIO_WINDOW" "phys_new api phys = Inr phys"
      "containing_address api MMIO_WINDOW = MMIO_WINDOW" "containing_address api phys = phys"
    using assms(2,4) mmio_window_facts(1,2) ph by (simp_all add: paging_laws_def)
  have law: "map_to_law allocate api m MMIO_WINDOW phys ?flags s" using assms(2) by (simp add: paging_laws_def)
  show thesis
  proof (cases "translate api m MMIO_WINDOW = None")
    case False
    then show thesis using al api(1) refused by (simp add: map_mmio_window_def)
  next
    case True
    from assms(1) law show thesis
    proof (cases rule: map_to_step)
      case (ok m' s')
      then have "map_mmio_window api m s phys = Inr (Inr MMIO_WINDOW, m', s')" using al api True by (simp add: map_mmio_window_def)
      then show thesis using ok mapped by (simp add: device_page_def)
    next
      case (err e m' s')
      then have "map_mmio_window api m s phys = Inr (Inl ''mmio window map failed (frames out?)'', m', s')"
        using al api True by (simp add: map_mmio_window_def)
      then show thesis using err True refused by (auto split: if_splits)
    qed
  qed
qed

lemma apic_init_cases:
  fixes d :: "'p devices"
  assumes "invar s" "paging_laws allocate api" "4096 dvd unat (apic_base pr)" "unat (apic_base pr) < 2 ^ 52"
  obtains (up) m' s' where "apic_init api rd m s pr d = Inr (Inr (), m', s', apic_up rd d)" "invar s'" "avail s' \<subseteq># avail s"
      "size (avail s) \<le> size (avail s') + 3" "translate api m MMIO_WINDOW = None" "present pr" "enabled pr"
      "translate api m' = (translate api m)(MMIO_WINDOW \<mapsto> device_page (apic_base pr))"
  | (refused) e m' s' where "apic_init api rd m s pr d = Inr (Inl e, m', s', d)" "translate api m' = translate api m"
      "\<not> present pr \<or> \<not> enabled pr \<or> translate api m MMIO_WINDOW \<noteq> None \<or> size (avail s) < 3"
proof (cases "present pr \<and> enabled pr")
  case False
  then have "\<exists>e. apic_init api rd m s pr d = Inr (Inl e, m, s, d)" by (cases "present pr") (simp_all add: apic_init_def)
  then show thesis using False refused by (elim exE) auto
next
  case True
  from assms show thesis
  proof (cases rule: map_mmio_window_cases[where m = m])
    case (mapped m' s')
    have "apic_init api rd m s pr d = Inr (Inr (), m', s', apic_up rd d)"
      using True mapped(1) by (simp add: apic_init_def mmio_window_facts(4) apic_enable_eq apic_up_def)
    then show thesis using mapped True up by blast
  next
    case (refused e m' s')
    then show thesis using True that(2) by (simp add: apic_init_def)
  qed
qed

end

section \<open>Properties\<close>

text \<open>
  C25. The local APIC comes up in one piece: with the CPUID bit and the enable bit of the MSR set, a free window and three
  frames for page tables, \<open>init\<close> succeeds on what \<open>probe\<close> found. The one page of the window maps the base from the MSR (or
  the fallback) uncached and not executable and nothing else is remapped; the cached window and the EOI address handed to the timer
  stub name the same device; the device is enabled with a spurious vector that has a handler, and its timer is masked.
\<close>

theorem apic_brought_up:
  fixes d :: "'p devices"
  assumes "paging_laws buddy_allocate_frame api" "buddy_inv s" "3 \<le> size (buddy_avail s)" "translate api m MMIO_WINDOW = None"
    and "present (probe edx rdmsr rsdp)" "enabled (probe edx rdmsr rsdp)"
  shows "\<exists>m' s' d'. apic_init api rd m s (probe edx rdmsr rsdp) d = Inr (Inr (), m', s', d') \<and> buddy_inv s' \<and>
     translate api m' = (translate api m)(MMIO_WINDOW \<mapsto>
       (if rdmsr IA32_APIC_BASE AND APIC_BASE_MASK = 0 then FALLBACK_BASE else rdmsr IA32_APIC_BASE AND APIC_BASE_MASK,
        {PRESENT, WRITABLE, NO_CACHE, NO_EXECUTE})) \<and>
     LAPIC_VIRT d' = MMIO_WINDOW \<and> EOI_BASE (preempts_of d') = LAPIC_VIRT d' + EOI_OFFSET \<and>
     (\<exists>lvt svr. mmio_writes d' = mmio_writes d @
        [(MMIO_WINDOW + SVR_OFFSET, svr), (MMIO_WINDOW + LVT_TIMER_OFFSET, lvt), (MMIO_WINDOW + TPR_OFFSET, 0)] \<and>
        bit lvt 16 \<and> bit svr 8 \<and> gate_for (ucast svr) = Spurious)"
proof -
  have svr: "bit (0x1FF :: u32) 8" "gate_for (ucast (0x1FF :: u32)) = Spurious"
  proof -
    have "ucast (0x1FF :: u32) = SPURIOUS_APIC_VECTOR" by (simp add: SPURIOUS_APIC_VECTOR_def)
    then show "gate_for (ucast (0x1FF :: u32)) = Spurious" by (simp only: gate_for_simps)
  qed (simp add: bit_numeral_rec)
  have lvt: "bit (x OR push_bit 16 1) 16" for x :: u32 by (simp add: bit_or_iff bit_push_bit_iff)
  from assms(2,1) probe_base(1,2) show ?thesis
  proof (cases rule: buddy.apic_init_cases[where pr = "probe edx rdmsr rsdp" and m = m and rd = rd and d = d])
    case (up m' s')
    then show ?thesis
      using svr lvt
      by (intro exI[of _ m'] exI[of _ s'] exI[of _ "apic_up rd d"] conjI exI[of _ "0x1FF :: u32"]
          exI[of _ "rd (mmio_writes d @ [(MMIO_WINDOW + SVR_OFFSET, 0x1FF)]) (MMIO_WINDOW + LVT_TIMER_OFFSET) OR push_bit 16 1"])
        (simp_all add: apic_up_def enable_writes_def Let_def set_eoi_base_def device_page_def probe_def)
  next
    case (refused e m' s')
    then show ?thesis using assms(3-6) by simp
  qed
qed

theorem apic_brought_up_witness:
  "\<exists>m' s' d'. apic_init flat_paging (\<lambda>_ _. 0) (\<lambda>_. None) (buddy_new small_map) (probe 0x200 (\<lambda>_. 0xFEE00900) None)
       (devices_boot ((0, 0), [])) = Inr (Inr (), m', s', d' :: ((u8 \<times> u8) \<times> u8 list) devices) \<and>
     m' = [MMIO_WINDOW \<mapsto> (0xFEE00000, {PRESENT, WRITABLE, NO_CACHE, NO_EXECUTE})] \<and>
     EOI_BASE (preempts_of d') = 0xFFFFA000000000B0"
proof -
  let ?api = "flat_paging :: (_, BuddyFrameAllocator) paging_api"
  have tr: "translate ?api = (\<lambda>m. m)" by (simp add: flat_paging_def)
  have "3 \<le> size (buddy_avail (buddy_new small_map))" "present (probe 0x200 (\<lambda>_. 0xFEE00900) None)"
      "enabled (probe 0x200 (\<lambda>_. 0xFEE00900) None)"
    by (simp_all add: small_buddy(2) probe_def Let_def)
  note up = apic_brought_up[OF flat_paging_laws small_buddy(1) this(1) _ this(2,3), unfolded tr]
  have "(0xFEE00900 :: u64) AND APIC_BASE_MASK = 0xFEE00000" by (simp add: APIC_BASE_MASK_def)
  moreover have "MMIO_WINDOW + EOI_OFFSET = 0xFFFFA000000000B0" by (simp add: MMIO_WINDOW_def EOI_OFFSET_def)
  ultimately show ?thesis
    using up[OF refl, of "\<lambda>_ _. 0" "devices_boot ((0, 0), []) :: ((u8 \<times> u8) \<times> u8 list) devices"]
    by (elim exE conjE) (intro exI conjI, assumption, simp_all)
qed

text \<open>
  C27. Bringing up the local APIC never panics, and a refusal has no effect: on any probed hardware \<open>init\<close> returns, and when it
  returns an error neither the device nor the translation of any address nor the kernel's own cells have changed.
\<close>

theorem apic_init_refusal_harmless:
  fixes d :: "'p devices"
  assumes "paging_laws buddy_allocate_frame api" "buddy_inv s"
  shows "\<exists>r m' s' d'. apic_init api rd m s (probe edx rdmsr rsdp) d = Inr (r, m', s', d') \<and>
     ((\<exists>e. r = Inl e) \<and> d' = d \<and> translate api m' = translate api m \<or>
      r = Inr () \<and> present (probe edx rdmsr rsdp) \<and> enabled (probe edx rdmsr rsdp) \<and> translate api m MMIO_WINDOW = None)"
proof -
  from assms(2,1) probe_base(1,2) show ?thesis
  proof (cases rule: buddy.apic_init_cases[where pr = "probe edx rdmsr rsdp" and m = m and rd = rd and d = d])
    case (up m' s')
    then show ?thesis by (intro exI[of _ "Inr ()"] exI[of _ m'] exI[of _ s'] exI[of _ "apic_up rd d"]) simp
  next
    case (refused e m' s')
    then show ?thesis by (intro exI[of _ "Inl e"] exI[of _ m'] exI[of _ s'] exI[of _ d]) simp
  qed
qed

theorem apic_init_refusal_harmless_witness:
  "\<exists>e m' s'. apic_init flat_paging (\<lambda>_ _. 0) (\<lambda>_. None) (buddy_new small_map) (probe 0x200 (\<lambda>_. 0xFEE00100) None)
       (devices_boot ((0, 0), []) :: ((u8 \<times> u8) \<times> u8 list) devices) = Inr (Inl e, m', s', devices_boot ((0, 0), []))"
proof -
  let ?api = "flat_paging :: (_, BuddyFrameAllocator) paging_api"
  have "\<not> enabled (probe 0x200 (\<lambda>_. 0xFEE00100) None)" by (simp add: probe_def Let_def)
  then show ?thesis
    using apic_init_refusal_harmless[OF flat_paging_laws small_buddy(1), of "\<lambda>_ _. 0" "\<lambda>_. None" "0x200" "\<lambda>_. 0xFEE00100" None
        "devices_boot ((0, 0), []) :: ((u8 \<times> u8) \<times> u8 list) devices"] by auto
qed


text \<open>A mapped device with interrupts on and IRQ0 unmasked, and windows in which the PIT ticks at every reading.\<close>

definition live_devices :: "((u8 \<times> u8) \<times> u8 list) devices" where
  "live_devices = (devices_boot ((0xFE, 0xFF), []))\<lparr>LAPIC_VIRT := MMIO_WINDOW, TICKS_PER_10MS := 1000, if_flag := True\<rparr>"

definition live_window :: "nat \<Rightarrow> window" where
  "live_window i = \<lparr>spin_env = (\<lambda>_. \<lparr>pit_ticks = 1, lapic_frames = []\<rparr>), ccr = (if i = 1 then 5 else 0xFFFFFFFF - 62500 - of_nat i)\<rparr>"

lemma live_devices_facts:
  "window_mapped (LAPIC_VIRT live_devices)" "\<not> PICS_taken live_devices" "irq0_open logged_pic live_devices"
  "LAPIC_VIRT live_devices \<noteq> 0" "TICKS_PER_10MS live_devices \<noteq> 0"
proof -
  have "\<not> bit (0xFE :: u8) 0" by (simp add: bit_0)
  then show "irq0_open logged_pic live_devices"
    by (simp add: irq0_open_def live_devices_def devices_boot_def logged_pic_def)
  show "window_mapped (LAPIC_VIRT live_devices)" by (simp add: live_devices_def mmio_window_facts(3))
qed (simp_all add: live_devices_def devices_boot_def MMIO_WINDOW_def)

lemma live_window_deltas: "delta_of (live_window 0) = 62500" "delta_of (live_window 1) = 0xFFFFFFFA" "delta_of (live_window 2) = 62502"
  by (simp_all add: delta_of_def live_window_def)

lemma live_window_ok: "i < 3 \<Longrightarrow> round_ok (live_window i)"
proof -
  have "arrived (spin_env (live_window i)) 0 9 = 10" by (simp add: arrived_def live_window_def)
  then have "\<exists>n. n \<le> SPIN_GUARD \<and> 10 \<le> (of_nat (arrived (spin_env (live_window i)) 0 n) :: u64)"
    by (intro exI[of _ 9]) (simp add: SPIN_GUARD_def)
  moreover assume "i < 3"
  then have "i = 0 \<or> i = 1 \<or> i = 2" by auto
  then have "delta_of (live_window i) \<noteq> 0" by (auto simp only: live_window_deltas) simp_all
  ultimately show ?thesis by (simp add: round_ok_def)
qed

lemma live_middle: "middle_delta live_window = 62502"
  unfolding live_window_deltas by simp


text \<open>
  One bad window cannot spoil the rate: if two of the three deltas lie between two bounds, the calibrated
  rate lies between a tenth of those bounds, whatever the third one was.
\<close>

lemma one_bad_window:
  assumes "pic_laws api" "window_mapped (LAPIC_VIRT d)" "\<not> PICS_taken d" "calibrate api w d = Inr (Inr q, d')"
    and "i < 3" "j < 3" "i \<noteq> j" "unat (delta_of (w i)) \<in> {lo..hi}" "unat (delta_of (w j)) \<in> {lo..hi}"
  shows "lo div 10 \<le> unat q \<and> unat q \<le> hi div 10"
proof -
  have q: "unat q = middle_delta w div 10"
    using calibrate_spec[OF assms(1-3), of w] assms(4) by (auto split: if_splits)
  have "{i, j} = {0, 1} \<or> {i, j} = {0, 2} \<or> {i, j} = {1, 2}" using assms(5-7) by (auto simp: numeral_3_eq_3 less_Suc_eq)
  then have "lo \<le> middle_delta w \<and> middle_delta w \<le> hi"
    using assms(8,9) by (intro middle_between) (auto simp: doubleton_eq_iff)
  then show ?thesis by (simp add: q div_le_mono)
qed

text \<open>
  C7. Promotion cannot deadlock and does what it says: with the window mapped and a rate known, and whenever ticks of the PIT
  arrive between its steps, \<open>promote\<close> returns with the lock free and the interrupt flag as before; IRQ0 is masked and no other
  mask bit has moved, and the only ticks counted are those that arrived before interrupts went off. No tick of
  the PIT is delivered afterwards.
\<close>

theorem promote_no_deadlock:
  assumes "pic_laws api" "\<not> PICS_taken d" "LAPIC_VIRT d \<noteq> 0" "TICKS_PER_10MS d \<noteq> 0"
  shows "\<exists>d'. promote api arrive d = Inr (Inr (), d') \<and> \<not> PICS_taken d' \<and> if_flag d' = if_flag d \<and>
     read_masks api (PICS d') = (fst (read_masks api (PICS d)) OR 1, snd (read_masks api (PICS d))) \<and>
     TIMER_TICKS d' = TIMER_TICKS d + (if irq0_open api d then of_nat (arrive 0) else 0) \<and> irq0s api n d' = Inr d'"
proof -
  let ?f = "\<lambda>(m0, m1). (m0 OR 0x01, m1) :: u8 \<times> u8"
  have f: "?f p = (fst p OR 1, snd p)" for p by (simp split: prod.splits)
  have b: "bit (x OR 1) 0" for x :: u8 by (simp add: bit_or_iff)
  obtain d' where d': "run_pic_ops api arrive 0 promote_ops (False, (0, 0), d) = Inr d'" "masks_changed api ?f d d'"
     "TIMER_TICKS d' = TIMER_TICKS d + tick_count api d (arrive 0)"
    using critical_section[OF assms(1,2), of arrive ?f] b unfolding f promote_ops_def by auto
  note c = masks_changed_facts[OF assms(1) d'(2)]
  have "\<not> irq0_open api d'" using c(3) b by (simp add: irq0_open_def f)
  then have "irq0s api n d' = Inr d'" by (rule irq0s_closed)
  then show ?thesis using d'(1,3) c assms(3,4) by (intro exI[of _ d']) (simp add: promote_def ticks_per_10ms_def f)
qed

theorem promote_no_deadlock_witness:
  "\<exists>d'. promote logged_pic (\<lambda>_. 2) live_devices = Inr (Inr (), d') \<and> \<not> PICS_taken d' \<and>
     read_masks logged_pic (PICS d') = (0xFF, 0xFF) \<and> TIMER_TICKS d' = 2 \<and> irq0s logged_pic 5 d' = Inr d'"
proof -
  have m: "read_masks logged_pic (PICS live_devices) = (0xFE, 0xFF)" "TIMER_TICKS live_devices = 0"
    by (simp_all add: logged_pic_def live_devices_def devices_boot_def)
  show ?thesis
    using promote_no_deadlock[OF logged_pic_laws live_devices_facts(2,4,5), of "\<lambda>_. 2" 5] live_devices_facts(3) m by auto
qed

text \<open>
  C28. The rollback undoes the promotion: after \<open>promote\<close> and \<open>rollback_to_pit\<close>, with ticks arriving at any point of either, the
  masks are those from before with IRQ0 unmasked, so if IRQ0 was open before it is open again and nothing else changed.
\<close>

theorem promote_rollback_round_trip:
  assumes "pic_laws api" "\<not> PICS_taken d" "LAPIC_VIRT d \<noteq> 0" "TICKS_PER_10MS d \<noteq> 0" "irq0_open api d"
  shows "\<exists>d1 d2. promote api arrive d = Inr (Inr (), d1) \<and> rollback_to_pit api arrive' d1 = Inr d2 \<and>
     read_masks api (PICS d2) = read_masks api (PICS d) \<and> irq0_open api d2 \<and> \<not> PICS_taken d2 \<and>
     LAPIC_VIRT d2 = LAPIC_VIRT d \<and> TICKS_PER_10MS d2 = TICKS_PER_10MS d"
proof -
  let ?f = "\<lambda>(m0, m1). (m0 OR 0x01, m1) :: u8 \<times> u8" and ?g = "\<lambda>(m0, m1). (m0 AND NOT 0x01, m1) :: u8 \<times> u8"
  obtain d1 where d1: "run_pic_ops api arrive 0 promote_ops (False, (0, 0), d) = Inr d1" "masks_changed api ?f d d1"
    using critical_section[OF assms(1,2), of arrive ?f] unfolding promote_ops_def by blast
  note c = masks_changed_facts[OF assms(1) d1(2)]
  obtain d2 where d2: "run_pic_ops api arrive' 0 rollback_ops (False, (0, 0), d1) = Inr d2" "masks_changed api ?g d1 d2"
    using critical_section[OF assms(1) c(1), of arrive' ?g] unfolding rollback_ops_def by blast
  note e = masks_changed_facts[OF assms(1) d2(2)]
  obtain m0 m1 where m: "read_masks api (PICS d) = (m0, m1)" by (cases "read_masks api (PICS d)")
  have "\<not> bit m0 0" using assms(5) m by (simp add: irq0_open_def)
  then have "(m0 OR 1) AND NOT 1 = m0" by (intro bit_eqI) (auto simp: bit_simps intro!: gr0I)
  then have masks: "read_masks api (PICS d2) = read_masks api (PICS d)" using m c(3) e(3) by simp
  then have "irq0_open api d2" using assms(5) c(2) e(2) by (simp add: irq0_open_def)
  then show ?thesis
    using d1(1) d2(1) masks c e assms(3,4)
    by (intro exI[of _ d1] exI[of _ d2]) (simp add: promote_def rollback_to_pit_def ticks_per_10ms_def)
qed

theorem promote_rollback_round_trip_witness:
  "\<exists>d1 d2. promote logged_pic (\<lambda>_. 1) live_devices = Inr (Inr (), d1) \<and> rollback_to_pit logged_pic (\<lambda>_. 3) d1 = Inr d2 \<and>
     read_masks logged_pic (PICS d2) = (0xFE, 0xFF)"
proof -
  have "read_masks logged_pic (PICS live_devices) = (0xFE, 0xFF)"
    by (simp add: logged_pic_def live_devices_def devices_boot_def)
  then show ?thesis
    using promote_rollback_round_trip[OF logged_pic_laws live_devices_facts(2,4,5,3), of "\<lambda>_. 1" "\<lambda>_. 3"] by auto
qed

end
