(* ===== verification/Gdt.thy ===== *)
theory Gdt
  imports Interrupts
begin

text \<open>
  \<open>kernel/src/gdt.rs\<close>: the task state segment with the stack of the double-fault handler, the descriptor table and the
  loading of the segment registers. Addresses of statics are arguments. The descriptor table is a type of the \<open>x86_64\<close> crate,
  the parameter \<open>api\<close>; \<open>VirtAddr::new\<close> and the addition on \<open>VirtAddr\<close> panic unless the result is canonical.
  \<open>set_rsp0\<close> is in \<open>Task\<close>, with the switch that calls it.
\<close>

definition DF_STACK_SIZE :: u64 where
  "DF_STACK_SIZE = 4096 * 5"

record TaskStateSegment =
  privilege_stack_table :: "u64 list"
  interrupt_stack_table :: "u64 list"

definition TSS :: TaskStateSegment where
  "TSS = \<lparr>privilege_stack_table = replicate 3 0, interrupt_stack_table = replicate 7 0\<rparr>"

definition virt_addr :: "u64 \<Rightarrow> u64 outcome" where
  "virt_addr a = obind (assert_that (canonical a) ''virtual address must be sign extended'') (\<lambda>_. Inr a)"

definition init_tss_fields :: "u64 \<Rightarrow> TaskStateSegment \<Rightarrow> TaskStateSegment outcome" where
  "init_tss_fields df_stack tss =
     obind (virt_addr df_stack) (\<lambda>stack_start.
     obind (obind (add_op stack_start DF_STACK_SIZE) virt_addr) (\<lambda>tp.
     obind (assert_that (tp mod 16 = 0) ''double-fault IST top must be 16-aligned'') (\<lambda>_.
       Inr (tss\<lparr>interrupt_stack_table := (interrupt_stack_table tss)[unat DOUBLE_FAULT_IST_INDEX := tp]\<rparr>))))"

datatype descriptor = Kernel_code_segment | Kernel_data_segment | Tss_segment u64

record 'g gdt_api =
  gdt_new :: 'g
  gdt_append :: "'g \<Rightarrow> descriptor \<Rightarrow> u16 \<times> 'g"

record Selectors =
  gdt_code_selector :: u16
  gdt_data_selector :: u16
  gdt_tss_selector :: u16

text \<open>The initialiser of the lazy static \<open>GDT\<close>.\<close>

definition GDT :: "'g gdt_api \<Rightarrow> u64 \<Rightarrow> u64 \<Rightarrow> TaskStateSegment \<Rightarrow> ('g \<times> Selectors \<times> TaskStateSegment) outcome" where
  "GDT api df_stack tss_ptr tss =
     obind (init_tss_fields df_stack tss) (\<lambda>tss.
       let gdt = gdt_new api;
           (code, gdt) = gdt_append api gdt Kernel_code_segment;
           (data, gdt) = gdt_append api gdt Kernel_data_segment;
           (sel, gdt) = gdt_append api gdt (Tss_segment tss_ptr) in
       Inr (gdt, \<lparr>gdt_code_selector = code, gdt_data_selector = data, gdt_tss_selector = sel\<rparr>, tss))"

record 'g segments =
  gdtr :: 'g
  seg_cs :: u16
  seg_ds :: u16
  seg_es :: u16
  seg_ss :: u16
  task_register :: u16

definition gdt_init :: "'g gdt_api \<Rightarrow> u64 \<Rightarrow> u64 \<Rightarrow> TaskStateSegment \<Rightarrow> ('g segments \<times> TaskStateSegment) outcome" where
  "gdt_init api df_stack tss_ptr tss =
     obind (GDT api df_stack tss_ptr tss) (\<lambda>(gdt, sel, tss).
       Inr (\<lparr>gdtr = gdt, seg_cs = gdt_code_selector sel, seg_ds = gdt_data_selector sel, seg_es = gdt_data_selector sel,
             seg_ss = gdt_data_selector sel, task_register = gdt_tss_selector sel\<rparr>, tss))"

section \<open>The stack of the double-fault handler\<close>

text \<open>Where the linker may put the static: aligned as \<open>repr(align(16))\<close> demands, inside one half of the canonical addresses.\<close>

definition df_stack_ok :: "u64 \<Rightarrow> bool" where
  "df_stack_ok a \<longleftrightarrow> 16 dvd unat a \<and> canonical a \<and> canonical (a + DF_STACK_SIZE) \<and> unat a + unat DF_STACK_SIZE < 2 ^ 64"

lemma init_tss_fields_spec:
  assumes "df_stack_ok a"
  shows "init_tss_fields a tss = Inr (tss\<lparr>interrupt_stack_table := (interrupt_stack_table tss)[0 := a + DF_STACK_SIZE]\<rparr>)"
    "unat (a + DF_STACK_SIZE) = unat a + 20480" "16 dvd unat (a + DF_STACK_SIZE)"
proof -
  show u: "unat (a + DF_STACK_SIZE) = unat a + 20480"
    using assms unat_add_no_overflow[of a DF_STACK_SIZE] by (simp add: df_stack_ok_def DF_STACK_SIZE_def)
  show d: "16 dvd unat (a + DF_STACK_SIZE)" unfolding u using assms by (intro dvd_add) (simp_all add: df_stack_ok_def)
  then have "(a + DF_STACK_SIZE) mod 16 = 0" by (simp add: word_unat_eq_iff unat_mod mod_eq_0_iff_dvd)
  moreover have "add_op a DF_STACK_SIZE = Inr (a + DF_STACK_SIZE)" using assms by (intro add_op_no_overflow) (simp add: df_stack_ok_def)
  ultimately show "init_tss_fields a tss = Inr (tss\<lparr>interrupt_stack_table := (interrupt_stack_table tss)[0 := a + DF_STACK_SIZE]\<rparr>)"
    using assms by (simp add: init_tss_fields_def virt_addr_def df_stack_ok_def DOUBLE_FAULT_IST_INDEX_def)
qed

lemma gdt_init_ok: "df_stack_ok a \<Longrightarrow> \<exists>seg tss. gdt_init api a p TSS = Inr (seg, tss) \<and>
    interrupt_stack_table tss = (replicate 7 0)[0 := a + DF_STACK_SIZE] \<and> seg_cs seg = fst (gdt_append api (gdt_new api) Kernel_code_segment)"
  by (simp add: gdt_init_def GDT_def init_tss_fields_spec(1) TSS_def Let_def split: prod.splits)

text \<open>
  C34. A double fault has a stack of its own: after \<open>gdt::init\<close> the entry of the interrupt stack table that the gate of
  vector 8 selects is the 16-byte aligned end of the static stack, 20480 bytes above its start, every other gate
  stays on the current stack, and every vector without a gate ends in this handler.
\<close>

theorem double_fault_stack:
  assumes "df_stack_ok a"
  shows "\<exists>seg tss g i. gdt_init api a p TSS = Inr (seg, tss) \<and> IDT 8 = Some g \<and> gate_handler g = Double_fault \<and>
     gate_ist g = Some i \<and> unat i < length (interrupt_stack_table tss) \<and>
     unat (interrupt_stack_table tss ! unat i) = unat a + 20480 \<and> 16 dvd unat (interrupt_stack_table tss ! unat i) \<and>
     (\<forall>v h. IDT v = Some h \<and> v \<noteq> 8 \<longrightarrow> gate_ist h = None) \<and> (\<forall>v. IDT v = None \<longrightarrow> gate_for v = Double_fault)"
proof -
  obtain seg tss where s: "gdt_init api a p TSS = Inr (seg, tss)" "interrupt_stack_table tss = (replicate 7 0)[0 := a + DF_STACK_SIZE]"
    using gdt_init_ok[OF assms, of api p] by (elim exE conjE)
  have gate: "IDT 8 = Some \<lparr>gate_handler = Double_fault, gate_ist = Some 0\<rparr>" "IDT 11 = None"
    by (simp_all add: IDT_def vector_defs DOUBLE_FAULT_IST_INDEX_def)
  have "gate_ist h = None" if "IDT v = Some h" "v \<noteq> 8" for v h
    using that by (auto simp: IDT_def split: if_splits)
  moreover have "gate_for v = Double_fault" if "IDT v = None" for v using that gate(2) by (simp add: gate_for_def)
  ultimately show ?thesis
    using s gate(1) init_tss_fields_spec(2,3)[OF assms]
    by (intro exI[of _ seg] exI[of _ tss] exI[of _ "\<lparr>gate_handler = Double_fault, gate_ist = Some 0\<rparr>"] exI[of _ "0 :: u16"]) auto
qed

theorem double_fault_stack_witness:
  "\<exists>seg tss. gdt_init \<lparr>gdt_new = [], gdt_append = (\<lambda>g d. (of_nat (8 * (length g + 1)), g @ [d]))\<rparr> 0xFFFF800000010000 0x1000 TSS
     = Inr (seg :: descriptor list segments, tss) \<and> unat (interrupt_stack_table tss ! 0) = 0xFFFF800000015000"
proof -
  have "df_stack_ok 0xFFFF800000010000" by (simp add: df_stack_ok_def canonical_def DF_STACK_SIZE_def)
  from double_fault_stack[OF this, of "\<lparr>gdt_new = [], gdt_append = (\<lambda>g d. (of_nat (8 * (length g + 1)), g @ [d]))\<rparr>" "0x1000"]
  obtain seg :: "descriptor list segments" and tss g i
    where s: "gdt_init \<lparr>gdt_new = [], gdt_append = (\<lambda>g d. (of_nat (8 * (length g + 1)), g @ [d]))\<rparr> 0xFFFF800000010000 0x1000 TSS = Inr (seg, tss)"
      "IDT 8 = Some g" "gate_ist g = Some i" "unat (interrupt_stack_table tss ! unat i) = unat (0xFFFF800000010000 :: u64) + 20480"
    by (elim exE conjE)
  have "i = 0" using s(2,3) by (auto simp: IDT_def vector_defs DOUBLE_FAULT_IST_INDEX_def)
  then show ?thesis using s(1,4) by (intro exI[of _ seg] exI[of _ tss]) simp
qed

end
