(* ===== verification/X86.thy ===== *)
theory X86
  imports Preempt
begin

text \<open>
  The machine the naked-assembly routines run on: the sixteen general registers, the flags the
  branches read, memory in aligned eight-byte cells, the statics reached by \<open>[rip + symbol]\<close>, a log of
  device writes, and the registers an interrupt saves. Only the instructions that occur in
  \<open>preempt.rs\<close> and \<open>task.rs\<close> are present, with the architecture's documented meaning. A misaligned cell
  access and running off the end of a routine are \<open>None\<close>. Numeric labels are resolved
  as the assembler resolves \<open>2f\<close>: forward, to the next definition.

  Flags are kept for the instructions whose flags are read by a later branch.
\<close>

datatype reg = RAX | RBX | RCX | RDX | RSI | RDI | RBP | RSP | R8 | R9 | R10 | R11 | R12 | R13 | R14 | R15

datatype sym8 = S_fence | S_cur_idx | S_slot_used

datatype sym64 = S_apic_ticks | S_switches | S_eoi_base | S_entry_rsp

datatype cond = E | AE | NC | Z

datatype instr =
    PUSH reg | POP reg
  | LOAD reg reg u64 | STORE reg u64 reg | MOV_IMM reg u64
  | LEA reg reg u64 | LEA_FRAMES reg | ADD reg reg | IMUL reg reg u64
  | LOCK_INC sym64 | LOAD_SYM reg sym64 | STORE_SYM sym64 reg
  | CMP_SYM sym8 u8 | MOVZX reg sym8 | CMP32 reg u32 | BT32 reg reg | TEST reg reg
  | STORE_DWORD reg u32
  | JCC cond nat | LABEL nat | JMP u64 | RET | IRETQ

record machine =
  regs :: "reg \<Rightarrow> u64"
  mem :: "u64 \<Rightarrow> u64"
  zf :: bool
  cf :: bool
  pc :: u64
  cs :: u64
  ss :: u64
  rflags :: u64
  stat :: statics
  entry_rsp :: u64
  frames_addr :: u64
  mmio :: "(u64 \<times> u32) list"

section \<open>Instructions\<close>

definition aligned8 :: "u64 \<Rightarrow> bool" where
  "aligned8 a \<longleftrightarrow> a mod 8 = 0"

definition load :: "machine \<Rightarrow> u64 \<Rightarrow> u64 option" where
  "load m a = (if aligned8 a then Some (mem m a) else None)"

definition store :: "u64 \<Rightarrow> u64 \<Rightarrow> machine \<Rightarrow> machine option" where
  "store a v m = (if aligned8 a then Some (m\<lparr>mem := (mem m)(a := v)\<rparr>) else None)"

abbreviation set_reg :: "reg \<Rightarrow> u64 \<Rightarrow> machine \<Rightarrow> machine" where
  "set_reg r v m \<equiv> m\<lparr>regs := (regs m)(r := v)\<rparr>"

fun get8 :: "sym8 \<Rightarrow> statics \<Rightarrow> u8" where
  "get8 S_fence p = PREEMPTIBLE p"
| "get8 S_cur_idx p = CURRENT_IDX p"
| "get8 S_slot_used p = SLOT_USED p"

fun get64 :: "sym64 \<Rightarrow> machine \<Rightarrow> u64" where
  "get64 S_apic_ticks m = APIC_TICKS (stat m)"
| "get64 S_switches m = PREEMPT_SWITCHES (stat m)"
| "get64 S_eoi_base m = EOI_BASE (stat m)"
| "get64 S_entry_rsp m = entry_rsp m"

fun put64 :: "sym64 \<Rightarrow> u64 \<Rightarrow> machine \<Rightarrow> machine" where
  "put64 S_apic_ticks v m = m\<lparr>stat := (stat m)\<lparr>APIC_TICKS := v\<rparr>\<rparr>"
| "put64 S_switches v m = m\<lparr>stat := (stat m)\<lparr>PREEMPT_SWITCHES := v\<rparr>\<rparr>"
| "put64 S_eoi_base v m = m\<lparr>stat := (stat m)\<lparr>EOI_BASE := v\<rparr>\<rparr>"
| "put64 S_entry_rsp v m = m\<lparr>entry_rsp := v\<rparr>"

fun istep :: "instr \<Rightarrow> machine \<Rightarrow> machine option" where
  "istep (PUSH r) m =
     map_option (set_reg RSP (regs m RSP - 8)) (store (regs m RSP - 8) (regs m r) m)"
| "istep (POP r) m =
     map_option (\<lambda>v. set_reg r v (set_reg RSP (regs m RSP + 8) m)) (load m (regs m RSP))"
| "istep (LOAD r b d) m = map_option (\<lambda>v. set_reg r v m) (load m (regs m b + d))"
| "istep (STORE b d r) m = store (regs m b + d) (regs m r) m"
| "istep (MOV_IMM r v) m = Some (set_reg r v m)"
| "istep (LEA r b d) m = Some (set_reg r (regs m b + d) m)"
| "istep (LEA_FRAMES r) m = Some (set_reg r (frames_addr m) m)"
| "istep (ADD r s) m = Some (set_reg r (regs m r + regs m s) m)"
| "istep (IMUL r s v) m = Some (set_reg r (regs m s * v) m)"
| "istep (LOCK_INC s) m = Some (put64 s (get64 s m + 1) m)"
| "istep (LOAD_SYM r s) m = Some (set_reg r (get64 s m) m)"
| "istep (STORE_SYM s r) m = Some (put64 s (regs m r) m)"
| "istep (CMP_SYM s v) m = Some (m\<lparr>zf := (get8 s (stat m) = v), cf := (get8 s (stat m) < v)\<rparr>)"
| "istep (MOVZX r s) m = Some (set_reg r (ucast (get8 s (stat m))) m)"
| "istep (CMP32 r v) m = Some (m\<lparr>zf := (ucast (regs m r) = v), cf := (ucast (regs m r) < v)\<rparr>)"
| "istep (BT32 r s) m = Some (m\<lparr>cf := bit (regs m r) (unat (regs m s) mod 32)\<rparr>)"
| "istep (TEST r s) m = Some (m\<lparr>zf := (regs m r AND regs m s = 0), cf := False\<rparr>)"
| "istep (STORE_DWORD r v) m = Some (m\<lparr>mmio := mmio m @ [(regs m r, v)]\<rparr>)"
| "istep (LABEL l) m = Some m"
| "istep _ m = None"

fun taken :: "cond \<Rightarrow> machine \<Rightarrow> bool" where
  "taken E m = zf m"
| "taken Z m = zf m"
| "taken AE m = (\<not> cf m)"
| "taken NC m = (\<not> cf m)"

definition after_label :: "nat \<Rightarrow> instr list \<Rightarrow> instr list" where
  "after_label l is = dropWhile (\<lambda>i. i \<noteq> LABEL l) is"

lemma length_after_label: "length (after_label l is) \<le> length is"
  by (simp add: after_label_def length_dropWhile_le)

text \<open>
  \<open>ret\<close> pops the return address. \<open>iretq\<close> in 64-bit mode pops five words, RIP, CS, RFLAGS, RSP and
  SS, whatever the privilege levels.
\<close>

definition do_ret :: "machine \<Rightarrow> machine option" where
  "do_ret m = map_option (\<lambda>v. (set_reg RSP (regs m RSP + 8) m)\<lparr>pc := v\<rparr>) (load m (regs m RSP))"

definition do_iretq :: "machine \<Rightarrow> machine option" where
  "do_iretq m =
     (let sp = regs m RSP in
      if aligned8 sp
      then Some (m\<lparr>pc := mem m sp, cs := mem m (sp + 8), rflags := mem m (sp + 16),
                   regs := (regs m)(RSP := mem m (sp + 24)), ss := mem m (sp + 32)\<rparr>)
      else None)"

function exec :: "instr list \<Rightarrow> machine \<Rightarrow> machine option" where
  "exec [] m = None"
| "exec (i # is) m =
     (case i of
        RET \<Rightarrow> do_ret m
      | IRETQ \<Rightarrow> do_iretq m
      | JMP a \<Rightarrow> Some (m\<lparr>pc := a\<rparr>)
      | JCC c l \<Rightarrow> if taken c m then exec (after_label l is) m else exec is m
      | _ \<Rightarrow> Option.bind (istep i m) (exec is))"
  by pat_completeness auto
termination
  by (relation "measure (\<lambda>(is, m). length is)") (auto simp: length_after_label le_imp_less_Suc)

declare exec.simps [simp del]

text \<open>
  Delivery of an interrupt through an interrupt gate without IST, in 64-bit mode: the stack
  pointer is aligned down to 16 bytes, five words are pushed, and IF (bit 9) is cleared.
\<close>

definition deliver :: "u64 \<Rightarrow> machine \<Rightarrow> machine" where
  "deliver handler m =
     (let sp = regs m RSP AND NOT 15 in
      m\<lparr>mem := (mem m)(sp - 8 := ss m, sp - 16 := regs m RSP, sp - 24 := rflags m, sp - 32 := cs m,
                        sp - 40 := pc m),
        regs := (regs m)(RSP := sp - 40), pc := handler, rflags := rflags m AND NOT 0x200\<rparr>)"

section \<open>Straight-line code\<close>

fun run :: "instr list \<Rightarrow> machine \<Rightarrow> machine option" where
  "run [] m = Some m"
| "run (i # is) m = Option.bind (istep i m) (run is)"

fun straight :: "instr \<Rightarrow> bool" where
  "straight RET = False"
| "straight IRETQ = False"
| "straight (JCC _ _) = False"
| "straight (JMP _) = False"
| "straight _ = True"

lemma run_append: "run (xs @ ys) m = Option.bind (run xs m) (run ys)"
  by (induction xs arbitrary: m) (simp_all add: Option.bind_assoc split: bind_split)

lemma exec_straight:
  "list_all straight xs \<Longrightarrow> exec (xs @ ys) m = Option.bind (run xs m) (exec ys)"
proof (induction xs arbitrary: m)
  case (Cons x xs)
  then have "exec ((x # xs) @ ys) m = Option.bind (istep x m) (exec (xs @ ys))"
    by (cases x) (simp_all add: exec.simps)
  then show ?case using Cons by (cases "istep x m") simp_all
qed simp

section \<open>Runs of cells\<close>

text \<open>\<open>stores a vs M\<close> is \<open>M\<close> with \<open>vs\<close> in the cells \<open>a\<close>, \<open>a + 8\<close>, and so on.\<close>

definition stores :: "u64 \<Rightarrow> u64 list \<Rightarrow> (u64 \<Rightarrow> u64) \<Rightarrow> u64 \<Rightarrow> u64" where
  "stores a vs M x =
     (let d = unat (x - a) in
      if d mod 8 = 0 \<and> d div 8 < length vs then vs ! (d div 8) else M x)"

definition loads :: "u64 \<Rightarrow> nat \<Rightarrow> (u64 \<Rightarrow> u64) \<Rightarrow> u64 list" where
  "loads a n M = map (\<lambda>i. M (a + 8 * of_nat i)) [0..<n]"

definition cells :: "u64 \<Rightarrow> nat \<Rightarrow> u64 set" where
  "cells a n = (\<lambda>i. a + 8 * of_nat i) ` {..<n}"

lemma unat_cell: "8 * i < 2 ^ 64 \<Longrightarrow> unat (8 * of_nat i :: u64) = 8 * i"
  using of_nat_inverse[of "8 * i" "8 * of_nat i :: u64"] by simp

lemma unat_of_nat_id: "of_nat (unat a) = (a :: u64)"
  by simp

lemma cell_eq_iff: "8 * i < 2 ^ 64 \<Longrightarrow> 8 * j < 2 ^ 64 \<Longrightarrow> 8 * of_nat i = (8 * of_nat j :: u64) \<longleftrightarrow> i = j"
  using unat_cell[of i] unat_cell[of j] by (auto simp: word_unat_eq_iff)

lemma stores_cell:
  "i < length vs \<Longrightarrow> 8 * length vs \<le> 2 ^ 64 \<Longrightarrow> stores a vs M (a + 8 * of_nat i) = vs ! i"
  by (simp add: stores_def unat_cell)

lemma stores_outside:
  assumes "x \<notin> cells a (length vs)"
  shows "stores a vs M x = M x"
proof -
  have "x \<in> cells a (length vs)" if "unat (x - a) mod 8 = 0" "unat (x - a) div 8 < length vs"
  proof -
    have "8 * (unat (x - a) div 8) = unat (x - a)" using that(1) by auto
    then have "of_nat (8 * (unat (x - a) div 8)) = x - a" by (simp only: unat_of_nat_id)
    then have "x = a + 8 * of_nat (unat (x - a) div 8)" by (simp add: algebra_simps)
    then show ?thesis using that(2) unfolding cells_def by blast
  qed
  then show ?thesis using assms by (auto simp: stores_def Let_def)
qed

lemma cellsE:
  assumes "x \<in> cells a n"
  obtains i where "i < n" "x = a + 8 * of_nat i"
  using assms by (auto simp: cells_def)

lemma stores_Nil [simp]: "stores a [] M = M"
  by (simp add: stores_def fun_eq_iff)

lemma stores_snoc:
  assumes "8 * Suc (length vs) \<le> 2 ^ 64"
  shows "(stores a vs M)(a + 8 * of_nat (length vs) := v) = stores a (vs @ [v]) M"
proof (rule ext)
  fix x
  show "((stores a vs M)(a + 8 * of_nat (length vs) := v)) x = stores a (vs @ [v]) M x"
  proof (cases "x \<in> cells a (Suc (length vs))")
    case True
    then obtain i where i: "i < Suc (length vs)" "x = a + 8 * of_nat i" by (rule cellsE)
    then show ?thesis
      using assms stores_cell[of i vs a M] stores_cell[of i "vs @ [v]" a M]
      by (auto simp: cell_eq_iff nth_append less_Suc_eq)
  next
    case False
    moreover have "x \<noteq> a + 8 * of_nat (length vs)" "x \<notin> cells a (length vs)"
      using False by (auto simp: cells_def)
    ultimately show ?thesis by (simp add: stores_outside)
  qed
qed

lemma stores_Cons:
  assumes "8 * Suc (length vs) \<le> 2 ^ 64"
  shows "(stores a vs M)(a - 8 := v) = stores (a - 8) (v # vs) M"
proof (rule ext)
  fix x
  have shift: "a - 8 + 8 * of_nat (Suc i) = a + 8 * of_nat i" for i by (simp add: algebra_simps)
  show "((stores a vs M)(a - 8 := v)) x = stores (a - 8) (v # vs) M x"
  proof (cases "x \<in> cells (a - 8) (Suc (length vs))")
    case True
    then obtain i where i: "i < Suc (length vs)" "x = a - 8 + 8 * of_nat i" by (rule cellsE)
    have v: "stores (a - 8) (v # vs) M x = (v # vs) ! i"
      using stores_cell[of i "v # vs" "a - 8" M] i assms by simp
    show ?thesis
    proof (cases i)
      case 0
      then show ?thesis using v i by simp
    next
      case (Suc j)
      then have "x = a + 8 * of_nat j" "j < length vs" using i shift[of j] by simp_all
      moreover have "x \<noteq> a - 8"
        using Suc i assms cell_eq_iff[of i 0] by (simp add: algebra_simps)
      ultimately show ?thesis using v Suc assms stores_cell[of j vs a M] by simp
    qed
  next
    case False
    have "x \<noteq> a - 8" using False by (force simp: cells_def)
    moreover have "x \<notin> cells a (length vs)"
      using False shift by (force simp: cells_def elim!: cellsE)
    ultimately show ?thesis using False by (simp add: stores_outside)
  qed
qed

lemma loads_stores: "8 * length vs \<le> 2 ^ 64 \<Longrightarrow> loads a (length vs) (stores a vs M) = vs"
  by (auto simp: loads_def stores_cell intro: nth_equalityI)

lemma loads_cong: "(\<And>x. x \<in> cells a n \<Longrightarrow> M x = M' x) \<Longrightarrow> loads a n M = loads a n M'"
  by (simp add: loads_def cells_def)

section \<open>Runs of pushes and pops\<close>

lemma aligned8_iff: "aligned8 a \<longleftrightarrow> 8 dvd unat a"
  by (simp add: aligned8_def word_unat_eq_iff unat_mod dvd_eq_mod_eq_0)

lemma aligned8_add: "aligned8 a \<Longrightarrow> aligned8 (a + 8 * w)"
proof -
  assume "aligned8 a"
  moreover have "8 dvd (2 ^ 64 :: nat)" by simp
  ultimately show ?thesis
    unfolding aligned8_iff unat_word_ariths by (simp add: dvd_mod_iff)
qed

lemma aligned8_diff: "aligned8 a \<Longrightarrow> aligned8 (a - 8 * w)"
  using aligned8_add[of a "- w"] by simp

lemma run_pushes:
  assumes "aligned8 (regs m RSP)" "RSP \<notin> set rs" "8 * length rs \<le> 2 ^ 64"
  shows "run (map PUSH rs) m = Some (m\<lparr>
      regs := (regs m)(RSP := regs m RSP - 8 * of_nat (length rs)),
      mem := stores (regs m RSP - 8 * of_nat (length rs)) (rev (map (regs m) rs)) (mem m)\<rparr>)"
  using assms(2,3)
proof (induction rs rule: rev_induct)
  case (snoc r rs)
  let ?sp = "regs m RSP - 8 * of_nat (length rs)"
  have al: "aligned8 (?sp - 8)" using aligned8_diff[OF assms(1), of "of_nat (Suc (length rs))"] by (simp add: algebra_simps)
  have sp: "regs m RSP - 8 * of_nat (length (rs @ [r])) = ?sp - 8" by (simp add: algebra_simps)
  have cell: "(stores ?sp (rev (map (regs m) rs)) (mem m))(?sp - 8 := regs m r) =
      stores (?sp - 8) (rev (map (regs m) (rs @ [r]))) (mem m)"
    using stores_Cons[of "rev (map (regs m) rs)" ?sp "mem m" "regs m r"] snoc.prems(2) by simp
  have ih: "run (map PUSH rs) m = Some (m\<lparr>regs := (regs m)(RSP := ?sp),
      mem := stores ?sp (rev (map (regs m) rs)) (mem m)\<rparr>)"
    by (rule snoc.IH) (use snoc.prems in auto)
  have "r \<noteq> RSP" using snoc.prems(1) by auto
  then show ?case
    unfolding map_append run_append ih sp
    using al cell by (simp add: store_def) (rule machine.equality; simp add: fun_upd_def)
qed simp

text \<open>\<open>assign rs vs f\<close>: the registers \<open>rs\<close> receive \<open>vs\<close>.\<close>

definition assign :: "reg list \<Rightarrow> u64 list \<Rightarrow> (reg \<Rightarrow> u64) \<Rightarrow> reg \<Rightarrow> u64" where
  "assign rs vs f r = (case map_of (zip rs vs) r of Some v \<Rightarrow> v | None \<Rightarrow> f r)"

lemma assign_Cons: "r \<notin> set rs \<Longrightarrow> assign (r # rs) (v # vs) f = assign rs vs (f(r := v))"
  by (auto simp: assign_def fun_eq_iff map_of_zip_is_None dest: set_zip_leftD map_of_SomeD split: option.split)

lemma loads_Suc: "loads a (Suc n) M = M a # loads (a + 8) n M"
  by (simp add: loads_def upt_conv_Cons map_Suc_upt[symmetric] algebra_simps del: upt_Suc)

lemma run_pops:
  assumes "aligned8 (regs m RSP)" "RSP \<notin> set rs" "distinct rs"
  shows "run (map POP rs) m = Some (m\<lparr>
      regs := assign rs (loads (regs m RSP) (length rs) (mem m)) ((regs m)(RSP := regs m RSP + 8 * of_nat (length rs)))\<rparr>)"
  using assms
proof (induction rs arbitrary: m)
  case Nil
  then show ?case by (simp add: assign_def)
next
  case (Cons r rs)
  let ?m = "set_reg r (mem m (regs m RSP)) (set_reg RSP (regs m RSP + 8) m)"
  have al: "aligned8 (regs m RSP + 8)" using aligned8_add[OF Cons.prems(1), of 1] by simp
  have step: "run (map POP (r # rs)) m = run (map POP rs) ?m"
    using Cons.prems(1) by (simp add: load_def)
  have sp: "regs ?m RSP = regs m RSP + 8" using Cons.prems(2) by simp
  have swap: "(regs ?m)(RSP := regs ?m RSP + 8 * of_nat (length rs)) =
      ((regs m)(RSP := regs m RSP + 8 * of_nat (length (r # rs))))(r := mem m (regs m RSP))"
    using Cons.prems(2) by (auto simp: fun_eq_iff algebra_simps)
  have "run (map POP rs) ?m = Some (?m\<lparr>regs := assign rs (loads (regs ?m RSP) (length rs) (mem ?m))
      ((regs ?m)(RSP := regs ?m RSP + 8 * of_nat (length rs)))\<rparr>)"
    using Cons.prems al sp by (intro Cons.IH) auto
  then show ?case
    unfolding step swap using Cons.prems by (simp add: loads_Suc assign_Cons sp fun_upd_def)
qed

end
