(* ===== verification/Stub.thy ===== *)
theory Stub
  imports X86
begin

text \<open>
  The naked timer stub \<open>lapic_preempt_stub\<close> of \<open>preempt.rs\<close>, instruction by instruction, and the
  proof that it has the effect \<open>stub_effect\<close> on the statics, restores every register and sends one
  EOI. \<open>TASK_FRAMES\<close> lives in memory at \<open>frames_addr\<close>; the abstraction \<open>statics_of\<close> reads it back.
\<close>

definition spill_regs :: "reg list" where
  "spill_regs = [R15, R14, R13, R12, R11, R10, R9, R8, RDI, RSI, RBP, RBX, RDX, RCX, RAX]"

definition lapic_preempt_stub :: "instr list" where
  "lapic_preempt_stub =
    [PUSH R15, PUSH R14, PUSH R13, PUSH R12,
     PUSH R11, PUSH R10, PUSH R9, PUSH R8,
     PUSH RDI, PUSH RSI, PUSH RBP, PUSH RBX,
     PUSH RDX, PUSH RCX, PUSH RAX,
     LOCK_INC S_apic_ticks,
     CMP_SYM S_fence 0,
     JCC E 2,
     MOVZX RAX S_cur_idx,
     CMP32 RAX (of_nat MAX_TASKS),
     JCC AE 2,
     MOVZX RCX S_slot_used,
     BT32 RCX RAX,
     JCC NC 2,
     LOCK_INC S_switches,
     IMUL RAX RAX FRAME_STRIDE,
     LEA_FRAMES RDI,
     ADD RDI RAX,
     LOAD RAX RSP 0x70, STORE RDI 0x00 RAX,
     LOAD RAX RSP 0x68, STORE RDI 0x08 RAX,
     LOAD RAX RSP 0x60, STORE RDI 0x10 RAX,
     LOAD RAX RSP 0x58, STORE RDI 0x18 RAX,
     LOAD RAX RSP 0x50, STORE RDI 0x20 RAX,
     LOAD RAX RSP 0x48, STORE RDI 0x28 RAX,
     LOAD RAX RSP 0x40, STORE RDI 0x30 RAX,
     LOAD RAX RSP 0x38, STORE RDI 0x38 RAX,
     LOAD RAX RSP 0x30, STORE RDI 0x40 RAX,
     LOAD RAX RSP 0x28, STORE RDI 0x48 RAX,
     LOAD RAX RSP 0x20, STORE RDI 0x50 RAX,
     LOAD RAX RSP 0x18, STORE RDI 0x58 RAX,
     LOAD RAX RSP 0x10, STORE RDI 0x60 RAX,
     LOAD RAX RSP 0x08, STORE RDI 0x68 RAX,
     LOAD RAX RSP 0x00, STORE RDI 0x70 RAX,
     LEA RAX RSP 0x90, STORE RDI 0x78 RAX,
     LOAD RAX RSP 0x78, STORE RDI 0x80 RAX,
     LOAD RAX RSP 0x80, STORE RDI 0x88 RAX,
     LOAD RAX RSP 0x88, STORE RDI 0x90 RAX,
     MOV_IMM RAX PREEMPT_MAGIC, STORE RDI 0x98 RAX,
     LABEL 2,
     LOAD_SYM RAX S_eoi_base,
     TEST RAX RAX,
     JCC Z 3,
     STORE_DWORD RAX 0,
     LABEL 3,
     POP RAX, POP RCX, POP RDX, POP RBX,
     POP RBP, POP RSI, POP RDI, POP R8,
     POP R9, POP R10, POP R11, POP R12,
     POP R13, POP R14, POP R15,
     IRETQ]"

lemma spill_regs_facts [simp]: "RSP \<notin> set spill_regs" "distinct spill_regs" "length spill_regs = 15"
  by (simp_all add: spill_regs_def)

text \<open>Updates of a machine state in a fixed order.\<close>

lemma machine_order:
  fixes m :: machine
  shows
  "m\<lparr>mem := M, regs := R\<rparr> = m\<lparr>regs := R, mem := M\<rparr>"
  "m\<lparr>zf := z, regs := R\<rparr> = m\<lparr>regs := R, zf := z\<rparr>"
  "m\<lparr>cf := c, regs := R\<rparr> = m\<lparr>regs := R, cf := c\<rparr>"
  "m\<lparr>stat := p, regs := R\<rparr> = m\<lparr>regs := R, stat := p\<rparr>"
  "m\<lparr>mmio := l, regs := R\<rparr> = m\<lparr>regs := R, mmio := l\<rparr>"
  "m\<lparr>zf := z, mem := M\<rparr> = m\<lparr>mem := M, zf := z\<rparr>"
  "m\<lparr>cf := c, mem := M\<rparr> = m\<lparr>mem := M, cf := c\<rparr>"
  "m\<lparr>stat := p, mem := M\<rparr> = m\<lparr>mem := M, stat := p\<rparr>"
  "m\<lparr>mmio := l, mem := M\<rparr> = m\<lparr>mem := M, mmio := l\<rparr>"
  "m\<lparr>cf := c, zf := z\<rparr> = m\<lparr>zf := z, cf := c\<rparr>"
  "m\<lparr>stat := p, zf := z\<rparr> = m\<lparr>zf := z, stat := p\<rparr>"
  "m\<lparr>mmio := l, zf := z\<rparr> = m\<lparr>zf := z, mmio := l\<rparr>"
  "m\<lparr>stat := p, cf := c\<rparr> = m\<lparr>cf := c, stat := p\<rparr>"
  "m\<lparr>mmio := l, cf := c\<rparr> = m\<lparr>cf := c, mmio := l\<rparr>"
  "m\<lparr>mmio := l, stat := p\<rparr> = m\<lparr>stat := p, mmio := l\<rparr>"
  by simp_all

section \<open>The parts of the stub\<close>

definition stub_tail :: "instr list" where
  "stub_tail = [LABEL 2, LOAD_SYM RAX S_eoi_base, TEST RAX RAX, JCC Z 3, STORE_DWORD RAX 0, LABEL 3]
     @ map POP (rev spill_regs) @ [IRETQ]"

text \<open>\<open>stash ws\<close>: each word is brought to RAX by its instruction in \<open>ws\<close> and stored in the next cell at RDI.\<close>

definition stash :: "instr list \<Rightarrow> instr list" where
  "stash ws = concat (map (\<lambda>i. [ws ! i, STORE RDI (8 * of_nat i) RAX]) [0..<length ws])"

definition frame_sources :: "instr list" where
  "frame_sources = [LOAD RAX RSP 0x70, LOAD RAX RSP 0x68, LOAD RAX RSP 0x60, LOAD RAX RSP 0x58,
     LOAD RAX RSP 0x50, LOAD RAX RSP 0x48, LOAD RAX RSP 0x40, LOAD RAX RSP 0x38, LOAD RAX RSP 0x30,
     LOAD RAX RSP 0x28, LOAD RAX RSP 0x20, LOAD RAX RSP 0x18, LOAD RAX RSP 0x10, LOAD RAX RSP 0x08,
     LOAD RAX RSP 0x00, LEA RAX RSP 0x90, LOAD RAX RSP 0x78, LOAD RAX RSP 0x80, LOAD RAX RSP 0x88,
     MOV_IMM RAX PREEMPT_MAGIC]"

definition stub_guards :: "instr list" where
  "stub_guards = [JCC E 2, MOVZX RAX S_cur_idx, CMP32 RAX (of_nat MAX_TASKS), JCC AE 2,
     MOVZX RCX S_slot_used, BT32 RCX RAX, JCC NC 2]"

lemma stub_parts:
  "lapic_preempt_stub = map PUSH spill_regs @ [LOCK_INC S_apic_ticks, CMP_SYM S_fence 0] @ stub_guards @
     [LOCK_INC S_switches, IMUL RAX RAX FRAME_STRIDE, LEA_FRAMES RDI, ADD RDI RAX] @ stash frame_sources @ stub_tail"
  by (simp add: lapic_preempt_stub_def spill_regs_def stub_guards_def stub_tail_def stash_def frame_sources_def
      upt_conv_Cons)

lemma after_label_append:
  "\<forall>i\<in>set xs. i \<noteq> LABEL l \<Longrightarrow> after_label l (xs @ LABEL l # ys) = LABEL l # ys"
  by (simp add: after_label_def dropWhile_append3)

lemma exec_JCC: "exec (JCC c l # is) m = (if taken c m then exec (after_label l is) m else exec is m)"
  by (simp add: exec.simps)

lemma exec_IRETQ: "exec [IRETQ] m = do_iretq m"
  by (simp add: exec.simps)

text \<open>The stash, for sources that do not read what it has written.\<close>

lemma run_stash:
  assumes "aligned8 (regs m RDI)" "8 * length ws \<le> 2 ^ 64" "length vals = length ws"
    and src: "\<And>i v V. i < length ws \<Longrightarrow> length V < length ws \<Longrightarrow>
      istep (ws ! i) (m\<lparr>regs := (regs m)(RAX := v), mem := stores (regs m RDI) V (mem m)\<rparr>) =
        Some (m\<lparr>regs := (regs m)(RAX := vals ! i), mem := stores (regs m RDI) V (mem m)\<rparr>)"
  shows "\<exists>v. run (stash ws) m = Some (m\<lparr>regs := (regs m)(RAX := v), mem := stores (regs m RDI) vals (mem m)\<rparr>)"
proof -
  have "\<exists>v. run (concat (map (\<lambda>i. [ws ! i, STORE RDI (8 * of_nat i) RAX]) [0..<k])) m =
      Some (m\<lparr>regs := (regs m)(RAX := v), mem := stores (regs m RDI) (take k vals) (mem m)\<rparr>)"
    if "k \<le> length ws" for k
    using that
  proof (induction k)
    case 0
    then show ?case by (intro exI[of _ "regs m RAX"]) simp
  next
    case (Suc k)
    obtain v where v: "run (concat (map (\<lambda>i. [ws ! i, STORE RDI (8 * of_nat i) RAX]) [0..<k])) m =
      Some (m\<lparr>regs := (regs m)(RAX := v), mem := stores (regs m RDI) (take k vals) (mem m)\<rparr>)"
      using Suc.IH[OF Suc_leD[OF Suc.prems]] by blast
    have len: "length (take k vals) = k" using Suc.prems assms(3) by simp
    have take: "take (Suc k) vals = take k vals @ [vals ! k]" using Suc.prems assms(3) by (simp add: take_Suc_conv_app_nth)
    have "(stores (regs m RDI) (take k vals) (mem m))(regs m RDI + 8 * of_nat k := vals ! k) =
        stores (regs m RDI) (take (Suc k) vals) (mem m)"
      unfolding take using stores_snoc[of "take k vals" "regs m RDI" "mem m" "vals ! k"] len Suc.prems assms(2) by simp
    moreover have "aligned8 (regs m RDI + 8 * of_nat k)" using assms(1) by (rule aligned8_add)
    ultimately show ?case
      using v src[of k "take k vals" v] Suc.prems len
      by (intro exI[of _ "vals ! k"]) (simp add: run_append store_def, simp add: fun_upd_def)
  qed
  from this[of "length ws"] show ?thesis using assms(3) by (simp add: stash_def)
qed

section \<open>The table in memory\<close>

definition frame_of_words :: "u64 list \<Rightarrow> FullFrame" where
  "frame_of_words ws =
     \<lparr>f_r15 = ws ! 0, f_r14 = ws ! 1, f_r13 = ws ! 2, f_r12 = ws ! 3, f_r11 = ws ! 4, f_r10 = ws ! 5,
      f_r9 = ws ! 6, f_r8 = ws ! 7, f_rdi = ws ! 8, f_rsi = ws ! 9, f_rbp = ws ! 10, f_rbx = ws ! 11,
      f_rdx = ws ! 12, f_rcx = ws ! 13, f_rax = ws ! 14, f_rsp = ws ! 15, f_rip = ws ! 16, f_cs = ws ! 17,
      f_rflags = ws ! 18, f_magic = ws ! 19\<rparr>"

definition frames_of :: "(u64 \<Rightarrow> u64) \<Rightarrow> u64 \<Rightarrow> FullFrame list" where
  "frames_of M base = map (\<lambda>i. frame_of_words (loads (base + FRAME_STRIDE * of_nat i) 20 M)) [0..<MAX_TASKS]"

definition statics_of :: "machine \<Rightarrow> statics" where
  "statics_of m = (stat m)\<lparr>TASK_FRAMES := frames_of (mem m) (frames_addr m)\<rparr>"

text \<open>The frame the stub should store, read off the machine at the stub's entry.\<close>

definition irq_frame :: "machine \<Rightarrow> FullFrame" where
  "irq_frame m =
     \<lparr>f_r15 = regs m R15, f_r14 = regs m R14, f_r13 = regs m R13, f_r12 = regs m R12, f_r11 = regs m R11,
      f_r10 = regs m R10, f_r9 = regs m R9, f_r8 = regs m R8, f_rdi = regs m RDI, f_rsi = regs m RSI,
      f_rbp = regs m RBP, f_rbx = regs m RBX, f_rdx = regs m RDX, f_rcx = regs m RCX, f_rax = regs m RAX,
      f_rsp = regs m RSP + 24, f_rip = mem m (regs m RSP), f_cs = mem m (regs m RSP + 8),
      f_rflags = mem m (regs m RSP + 16), f_magic = PREEMPT_MAGIC\<rparr>"

lemma frame_words_inverse: "frame_of_words (frame_words f) = f"
  by (simp add: frame_of_words_def frame_words_def)

lemma cells_shift: "j + n \<le> k \<Longrightarrow> cells (a + 8 * of_nat j) n \<subseteq> cells a k"
proof
  fix x assume "x \<in> cells (a + 8 * of_nat j) n" "j + n \<le> k"
  then obtain i where "i < n" "x = a + 8 * of_nat (j + i)" by (auto elim!: cellsE simp: algebra_simps)
  then show "x \<in> cells a k" using \<open>j + n \<le> k\<close> unfolding cells_def by (intro image_eqI[of _ _ "j + i"]) auto
qed

lemma cells_disjoint:
  assumes "j + n \<le> j' \<or> j' + n' \<le> j" "8 * (j + n) \<le> 2 ^ 64" "8 * (j' + n') \<le> 2 ^ 64"
  shows "cells (a + 8 * of_nat j) n \<inter> cells (a + 8 * of_nat j') n' = {}"
proof -
  have False if "i < n" "i' < n'" "a + 8 * of_nat (j + i) = a + 8 * of_nat (j' + i')" for i i'
    using that assms cell_eq_iff[of "j + i" "j' + i'"] by auto
  then show ?thesis by (fastforce elim!: cellsE simp: algebra_simps)
qed

lemma stride: "FRAME_STRIDE * of_nat i = 8 * of_nat (20 * i)"
  by (simp add: FRAME_STRIDE_def)

lemma frame_cells: "i < MAX_TASKS \<Longrightarrow> cells (base + FRAME_STRIDE * of_nat i) 20 \<subseteq> cells base 140"
  unfolding stride by (rule cells_shift) (simp add: MAX_TASKS_def)

lemma frames_of_cong:
  assumes "\<And>x. x \<in> cells base 140 \<Longrightarrow> M x = M' x"
  shows "frames_of M base = frames_of M' base"
proof -
  have "loads (base + FRAME_STRIDE * of_nat i) 20 M = loads (base + FRAME_STRIDE * of_nat i) 20 M'"
    if "i < MAX_TASKS" for i
    using frame_cells[OF that, of base] by (intro loads_cong assms) blast
  then show ?thesis by (simp add: frames_of_def)
qed

lemma frames_of_store:
  assumes "i < MAX_TASKS" "length ws = 20"
  shows "frames_of (stores (base + FRAME_STRIDE * of_nat i) ws M) base = (frames_of M base)[i := frame_of_words ws]"
proof (rule nth_equalityI)
  fix j assume "j < length (frames_of (stores (base + FRAME_STRIDE * of_nat i) ws M) base)"
  then have j: "j < MAX_TASKS" by (simp add: frames_of_def)
  let ?M = "stores (base + FRAME_STRIDE * of_nat i) ws M"
  have "loads (base + FRAME_STRIDE * of_nat j) 20 ?M =
      (if j = i then ws else loads (base + FRAME_STRIDE * of_nat j) 20 M)"
  proof (cases "j = i")
    case True
    then show ?thesis using loads_stores[of ws] assms(2) by simp
  next
    case False
    have "cells (base + FRAME_STRIDE * of_nat j) 20 \<inter> cells (base + FRAME_STRIDE * of_nat i) 20 = {}"
      unfolding stride using False j assms(1) by (intro cells_disjoint) (auto simp: MAX_TASKS_def)
    then show ?thesis
      using False assms(2) by (simp, intro loads_cong stores_outside) auto
  qed
  then show "frames_of ?M base ! j = (frames_of M base)[i := frame_of_words ws] ! j"
    using j by (simp add: frames_of_def nth_list_update)
qed (simp add: frames_of_def)

section \<open>The stub refines its effect\<close>

text \<open>What the stub may assume at its entry: an aligned stack that does not overlap the table.\<close>

definition stub_entry :: "machine \<Rightarrow> bool" where
  "stub_entry m \<longleftrightarrow> aligned8 (regs m RSP) \<and> aligned8 (frames_addr m) \<and>
     cells (regs m RSP - 120) 20 \<inter> cells (frames_addr m) 140 = {}"

lemma exec_instr: "straight i \<Longrightarrow> exec (i # is) m = Option.bind (istep i m) (exec is)"
  using exec_straight[of "[i]" "is" m] by (cases "istep i m") simp_all

lemma unat_ucast_mod: "unat (ucast (a :: 'a::len word) :: 'b::len word) = unat a mod 2 ^ LENGTH('b)"
  by (simp add: unsigned_ucast_eq unsigned_take_bit_eq take_bit_eq_mod)

lemma exec_guards:
  assumes "zf m = (PREEMPTIBLE (stat m) = 0)" "\<forall>i\<in>set body. i \<noteq> LABEL 2"
  shows "\<exists>R z c. (\<forall>r. r \<noteq> RAX \<and> r \<noteq> RCX \<longrightarrow> R r = regs m r) \<and>
     (yankable (stat m) \<longrightarrow> R RAX = of_nat (current_idx (stat m))) \<and>
     exec (stub_guards @ body @ stub_tail) m =
       exec (if yankable (stat m) then body @ stub_tail else stub_tail) (m\<lparr>regs := R, zf := z, cf := c\<rparr>)"
proof -
  let ?p = "stat m"
  let ?R1 = "(regs m)(RAX := ucast (CURRENT_IDX ?p))"
  let ?R2 = "?R1(RCX := ucast (SLOT_USED ?p))"
  obtain T where T: "stub_tail = LABEL 2 # T" by (simp add: stub_tail_def)
  have skip: "after_label 2 (xs @ body @ stub_tail) = stub_tail" if "\<forall>i\<in>set xs. i \<noteq> LABEL 2" for xs
    using that assms(2) after_label_append[of "xs @ body" 2 T] by (auto simp: T)
  have cmp: "(ucast (ucast (CURRENT_IDX ?p) :: u64) :: u32) < of_nat MAX_TASKS \<longleftrightarrow> current_idx ?p < MAX_TASKS"
    using unsigned_less[of "CURRENT_IDX ?p", where 'a = nat]
    by (simp add: word_less_nat_alt current_idx_def MAX_TASKS_def unat_ucast_mod)
  consider (down) "PREEMPTIBLE ?p = 0" | (idx) "PREEMPTIBLE ?p \<noteq> 0" "\<not> current_idx ?p < MAX_TASKS"
    | (live) "PREEMPTIBLE ?p \<noteq> 0" "current_idx ?p < MAX_TASKS" by blast
  then show ?thesis
  proof cases
    case down
    then have "exec (stub_guards @ body @ stub_tail) m = exec stub_tail m"
      using skip[of "tl stub_guards"] assms(1) by (simp add: stub_guards_def exec_JCC)
    then show ?thesis
      using down by (intro exI[of _ "regs m"] exI[of _ "zf m"] exI[of _ "cf m"]) (simp add: yankable_def)
  next
    case idx
    then have "exec (stub_guards @ body @ stub_tail) m = exec stub_tail (m\<lparr>regs := ?R1,
        zf := ((ucast (ucast (CURRENT_IDX ?p) :: u64) :: u32) = of_nat MAX_TASKS), cf := False\<rparr>)"
      using skip[of "drop 4 stub_guards"] assms(1) cmp
      by (simp add: stub_guards_def exec_JCC exec_instr)
    then show ?thesis using idx by (intro exI[of _ ?R1] exI conjI) (auto simp: yankable_def)
  next
    case live
    have bt: "bit (ucast (SLOT_USED ?p) :: u64) (unat (ucast (CURRENT_IDX ?p) :: u64) mod 32) =
        bit (SLOT_USED ?p) (current_idx ?p)"
      using live(2) by (auto simp: current_idx_def MAX_TASKS_def unat_ucast_mod bit_ucast_iff dest: bit_imp_le_length)
    have "exec (stub_guards @ body @ stub_tail) m =
        exec (if bit (SLOT_USED ?p) (current_idx ?p) then body @ stub_tail else stub_tail) (m\<lparr>regs := ?R2,
          zf := ((ucast (ucast (CURRENT_IDX ?p) :: u64) :: u32) = of_nat MAX_TASKS),
          cf := bit (SLOT_USED ?p) (current_idx ?p)\<rparr>)"
      using live skip[of "[]"] assms(1) cmp bt
      by (simp add: stub_guards_def exec_JCC exec_instr machine_order)
    moreover have "?R2 RAX = of_nat (current_idx ?p)" by (simp add: current_idx_def)
    ultimately show ?thesis using live by (intro exI[of _ ?R2] exI conjI) (auto simp: yankable_def)
  qed
qed

lemma exec_tail:
  assumes "aligned8 (regs m RSP)"
  shows "\<exists>z R. (\<forall>r. r \<noteq> RAX \<longrightarrow> R r = regs m r) \<and> exec stub_tail m = do_iretq (m\<lparr>
      regs := assign (rev spill_regs) (loads (regs m RSP) 15 (mem m)) (R(RSP := regs m RSP + 120)),
      zf := z, cf := False,
      mmio := mmio m @ (if EOI_BASE (stat m) = 0 then [] else [(EOI_BASE (stat m), 0)])\<rparr>)"
proof -
  let ?R = "(regs m)(RAX := EOI_BASE (stat m))"
  let ?z = "EOI_BASE (stat m) = 0"
  let ?log = "mmio m @ (if ?z then [] else [(EOI_BASE (stat m), 0)])"
  let ?m = "m\<lparr>regs := ?R, zf := ?z, cf := False, mmio := ?log\<rparr>"
  let ?pops = "map POP (rev spill_regs)"
  have "exec stub_tail m = exec (?pops @ [IRETQ]) ?m"
    by (cases ?z) (simp_all add: stub_tail_def exec_JCC exec_instr after_label_def)
  also have "\<dots> = Option.bind (run ?pops ?m) (exec [IRETQ])"
    by (rule exec_straight) (simp add: list_all_iff)
  also have "run ?pops ?m = Some (?m\<lparr>regs := assign (rev spill_regs) (loads (regs m RSP) 15 (mem m))
      (?R(RSP := regs m RSP + 120))\<rparr>)"
    using run_pops[of ?m "rev spill_regs"] assms by simp
  finally show ?thesis
    by (intro exI[of _ ?z] exI[of _ ?R]) (simp add: exec_IRETQ machine_order)
qed

lemma assign_all:
  assumes "f RSP = g RSP"
  shows "assign (rev spill_regs) (rev (map g spill_regs)) f = g"
proof
  fix r
  show "assign (rev spill_regs) (rev (map g spill_regs)) f r = g r"
    using assms by (cases r) (simp_all add: assign_def spill_regs_def)
qed

text \<open>The stash as it runs in the stub: \<open>m\<close> is the state at entry, \<open>k\<close> the one before the stash.\<close>

lemma run_frame_stash:
  assumes entry: "stub_entry m" and idx: "i < MAX_TASKS"
    and k: "regs k RSP = regs m RSP - 120" "regs k RDI = frames_addr m + FRAME_STRIDE * of_nat i"
      "mem k = stores (regs m RSP - 120) (rev (map (regs m) spill_regs)) (mem m)"
  shows "\<exists>v. run (stash frame_sources) k = Some (k\<lparr>regs := (regs k)(RAX := v),
      mem := stores (regs k RDI) (frame_words (irq_frame m)) (mem k)\<rparr>)"
proof (rule run_stash)
  let ?sp = "regs m RSP - 120"
  let ?W = "rev (map (regs m) spill_regs) @ loads (regs m RSP) 5 (mem m)"
  have al: "aligned8 (?sp + 8 * of_nat j)" for j
    using aligned8_add[of "regs m RSP" "of_nat j - 15"] entry by (simp add: stub_entry_def algebra_simps)
  have fit: "aligned8 (frames_addr m + FRAME_STRIDE * of_nat i)"
    unfolding stride using entry by (intro aligned8_add) (simp add: stub_entry_def)
  then show "aligned8 (regs k RDI)" using k(2) by simp
  have W: "mem k (?sp + 8 * of_nat j) = ?W ! j" if "j < 20" for j
  proof (cases "j < 15")
    case True
    then show ?thesis using stores_cell[of j "rev (map (regs m) spill_regs)" ?sp] k(3) by (simp add: nth_append)
  next
    case False
    have "cells (?sp + 8 * of_nat 0) 15 \<inter> cells (?sp + 8 * of_nat j) 1 = {}"
      using False that by (intro cells_disjoint) auto
    then have "?sp + 8 * of_nat j \<notin> cells ?sp 15" by (auto simp: cells_def)
    then have same: "mem k (?sp + 8 * of_nat j) = mem m (?sp + 8 * of_nat j)" using k(3) by (simp add: stores_outside)
    define q where "q = j - 15"
    then have q: "j = 15 + q" "q < 5" using False that by simp_all
    then have up: "?sp + 8 * of_nat j = regs m RSP + 8 * of_nat q" by (simp add: algebra_simps)
    show ?thesis
      unfolding same unfolding up using q by (simp add: nth_append loads_def)
  qed
  have c: "load (k\<lparr>regs := R, mem := stores (regs k RDI) V (mem k)\<rparr>) (?sp + 8 * of_nat j) = Some (?W ! j)"
    if "j < 20" "length V < 20" for j V R
  proof -
    have "cells (regs k RDI) (length V) \<subseteq> cells (frames_addr m) 140"
      using frame_cells[OF idx, of "frames_addr m"] cells_shift[of 0 "length V" 20 "regs k RDI"] that(2) k(2) by auto
    moreover have "?sp + 8 * of_nat j \<in> cells ?sp 20" using that(1) by (auto simp: cells_def)
    ultimately have "?sp + 8 * of_nat j \<notin> cells (regs k RDI) (length V)" using entry by (auto simp: stub_entry_def)
    then show ?thesis using al W[OF that(1)] by (simp add: load_def stores_outside)
  qed
  have all: "list_all2 (\<lambda>s x. \<forall>v V. length V < 20 \<longrightarrow>
      istep s (k\<lparr>regs := (regs k)(RAX := v), mem := stores (regs k RDI) V (mem k)\<rparr>) =
        Some (k\<lparr>regs := (regs k)(RAX := x), mem := stores (regs k RDI) V (mem k)\<rparr>))
      frame_sources (frame_words (irq_frame m))"
    unfolding frame_sources_def frame_words_def irq_frame_def
    using c[of 0] c[of 1] c[of 2] c[of 3] c[of 4] c[of 5] c[of 6] c[of 7] c[of 8] c[of 9] c[of 10] c[of 11] c[of 12] c[of 13] c[of 14] c[of 15] c[of 16] c[of 17] c[of 18]
    by (simp add: k(1) spill_regs_def machine_order loads_def add.commute)
  have len: "length frame_sources = 20" by (simp add: frame_sources_def)
  show "istep (frame_sources ! j) (k\<lparr>regs := (regs k)(RAX := v), mem := stores (regs k RDI) V (mem k)\<rparr>) =
        Some (k\<lparr>regs := (regs k)(RAX := frame_words (irq_frame m) ! j), mem := stores (regs k RDI) V (mem k)\<rparr>)"
    if "j < length frame_sources" "length V < length frame_sources" for j v V
    using list_all2_nthD[OF all that(1)] that(2) len by simp
qed (simp_all add: frame_sources_def frame_words_def)

text \<open>Memory after the fifteen pushes.\<close>

definition spilled :: "machine \<Rightarrow> u64 \<Rightarrow> u64" where
  "spilled m = stores (regs m RSP - 120) (rev (map (regs m) spill_regs)) (mem m)"

lemma spilled_facts:
  assumes "stub_entry m"
  shows "loads (regs m RSP - 120) 15 (spilled m) = rev (map (regs m) spill_regs)"
    and "cells (regs m RSP - 120) 15 \<inter> cells (frames_addr m) 140 = {}"
    and "frames_of (spilled m) (frames_addr m) = frames_of (mem m) (frames_addr m)"
    and "x \<notin> cells (regs m RSP - 120) 15 \<Longrightarrow> spilled m x = mem m x"
proof -
  show "loads (regs m RSP - 120) 15 (spilled m) = rev (map (regs m) spill_regs)"
    using loads_stores[of "rev (map (regs m) spill_regs)" "regs m RSP - 120"] by (simp add: spilled_def)
  show disj: "cells (regs m RSP - 120) 15 \<inter> cells (frames_addr m) 140 = {}"
    using assms cells_shift[of 0 15 20 "regs m RSP - 120"] by (auto simp: stub_entry_def)
  show out: "spilled m x = mem m x" if "x \<notin> cells (regs m RSP - 120) 15" for x
    using that by (simp add: spilled_def stores_outside)
  show "frames_of (spilled m) (frames_addr m) = frames_of (mem m) (frames_addr m)"
    using disj by (intro frames_of_cong out) auto
qed

lemma tail_restores:
  assumes entry: "stub_entry m" and sp: "regs k RSP = regs m RSP - 120"
    and spill: "loads (regs m RSP - 120) 15 (mem k) = rev (map (regs m) spill_regs)"
  obtains m' where "exec stub_tail k = do_iretq m'" "regs m' = regs m" "stat m' = stat k" "mem m' = mem k"
    "frames_addr m' = frames_addr k"
    "mmio m' = mmio k @ (if EOI_BASE (stat k) = 0 then [] else [(EOI_BASE (stat k), 0)])"
proof -
  let ?vals = "rev (map (regs m) spill_regs)"
  have "aligned8 (regs m RSP - 120)"
    using aligned8_diff[of "regs m RSP" 15] entry by (simp add: stub_entry_def)
  then obtain z R where "exec stub_tail k = do_iretq (k\<lparr>
      regs := assign (rev spill_regs) ?vals (R(RSP := regs m RSP)), zf := z, cf := False,
      mmio := mmio k @ (if EOI_BASE (stat k) = 0 then [] else [(EOI_BASE (stat k), 0)])\<rparr>)"
    using exec_tail[of k] sp spill by auto
  moreover have "assign (rev spill_regs) ?vals (R(RSP := regs m RSP)) = regs m" by (rule assign_all) simp
  ultimately show ?thesis using that by simp
qed

definition stub_body :: "instr list" where
  "stub_body = [LOCK_INC S_switches, IMUL RAX RAX FRAME_STRIDE, LEA_FRAMES RDI, ADD RDI RAX] @ stash frame_sources"

lemma stub_body_straight: "list_all straight stub_body" "\<forall>i\<in>set stub_body. i \<noteq> LABEL 2"
  by (auto simp: stub_body_def list_all_iff stash_def frame_sources_def nth_Cons' split: if_splits)

lemma body_stores:
  assumes entry: "stub_entry m" and i: "i < MAX_TASKS"
    and b: "regs b RSP = regs m RSP - 120" "regs b RAX = of_nat i" "mem b = spilled m" "frames_addr b = frames_addr m"
  obtains k where "run stub_body b = Some k" "regs k RSP = regs m RSP - 120"
    "stat k = (stat b)\<lparr>PREEMPT_SWITCHES := PREEMPT_SWITCHES (stat b) + 1\<rparr>" "mmio k = mmio b"
    "frames_addr k = frames_addr m" "\<forall>x. x \<notin> cells (frames_addr m) 140 \<longrightarrow> mem k x = spilled m x"
    "frames_of (mem k) (frames_addr m) = (frames_of (mem m) (frames_addr m))[i := irq_frame m]"
proof -
  let ?slot = "frames_addr m + FRAME_STRIDE * of_nat i"
  define j where "j = b\<lparr>regs := (regs b)(RAX := FRAME_STRIDE * of_nat i, RDI := ?slot),
      stat := (stat b)\<lparr>PREEMPT_SWITCHES := PREEMPT_SWITCHES (stat b) + 1\<rparr>\<rparr>"
  have j: "regs j RSP = regs m RSP - 120" "regs j RDI = ?slot"
      "mem j = stores (regs m RSP - 120) (rev (map (regs m) spill_regs)) (mem m)"
    using b by (simp_all add: j_def spilled_def)
  have prep: "run [LOCK_INC S_switches, IMUL RAX RAX FRAME_STRIDE, LEA_FRAMES RDI, ADD RDI RAX] b = Some j"
    using b by (simp add: j_def machine_order mult.commute)
  obtain v where stash: "run (stash frame_sources) j = Some (j\<lparr>regs := (regs j)(RAX := v),
      mem := stores (regs j RDI) (frame_words (irq_frame m)) (mem j)\<rparr>)"
    using run_frame_stash[OF entry i j] by blast
  define k where "k = j\<lparr>regs := (regs j)(RAX := v), mem := stores ?slot (frame_words (irq_frame m)) (spilled m)\<rparr>"
  have len: "length (frame_words f) = 20" for f by (simp add: frame_words_def)
  show ?thesis
  proof (rule that)
    show "run stub_body b = Some k"
      unfolding stub_body_def run_append prep using stash by (simp add: k_def j spilled_def)
    show "\<forall>x. x \<notin> cells (frames_addr m) 140 \<longrightarrow> mem k x = spilled m x"
      using frame_cells[OF i, of "frames_addr m"] by (auto simp: k_def len intro!: stores_outside)
    show "frames_of (mem k) (frames_addr m) = (frames_of (mem m) (frames_addr m))[i := irq_frame m]"
      using frames_of_store[OF i len, of "frames_addr m" "irq_frame m" "spilled m"] spilled_facts(3)[OF entry]
      by (simp add: k_def frame_words_inverse)
  qed (use b in \<open>simp_all add: k_def j_def\<close>)
qed

text \<open>Up to the guards: the spill, the tick, and the comparison of the fence.\<close>

lemma stub_prefix:
  assumes "stub_entry m"
  defines "k \<equiv> m\<lparr>regs := (regs m)(RSP := regs m RSP - 120), mem := spilled m,
      stat := (stat m)\<lparr>APIC_TICKS := APIC_TICKS (stat m) + 1\<rparr>, zf := (PREEMPTIBLE (stat m) = 0), cf := False\<rparr>"
  shows "exec lapic_preempt_stub m = exec (stub_guards @ stub_body @ stub_tail) k"
proof -
  let ?m1 = "m\<lparr>regs := (regs m)(RSP := regs m RSP - 120), mem := spilled m\<rparr>"
  have "run (map PUSH spill_regs) m = Some ?m1"
    using run_pushes[of m spill_regs] assms(1) by (simp add: stub_entry_def spilled_def)
  moreover have "run [LOCK_INC S_apic_ticks, CMP_SYM S_fence 0] ?m1 = Some k"
    by (simp add: k_def machine_order)
  ultimately have "run (map PUSH spill_regs @ [LOCK_INC S_apic_ticks, CMP_SYM S_fence 0]) m = Some k"
    by (simp only: run_append bind.bind_lunit)
  then show ?thesis
    using exec_straight[of "map PUSH spill_regs @ [LOCK_INC S_apic_ticks, CMP_SYM S_fence 0]"
        "stub_guards @ stub_body @ stub_tail" m]
    by (simp add: stub_parts stub_body_def list_all_iff)
qed

lemma stub_refines_effect:
  assumes entry: "stub_entry m"
  shows "\<exists>m'. exec lapic_preempt_stub m = do_iretq m' \<and> regs m' = regs m \<and>
     statics_of m' = stub_effect (irq_frame m) (statics_of m) \<and>
     mmio m' = mmio m @ (if EOI_BASE (stat m) = 0 then [] else [(EOI_BASE (stat m), 0)]) \<and>
     (\<forall>x. x \<notin> cells (regs m RSP - 120) 15 \<union> cells (frames_addr m) 140 \<longrightarrow> mem m' x = mem m x) \<and>
     frames_addr m' = frames_addr m"
proof -
  let ?p = "statics_of m" and ?i = "current_idx (statics_of m)"
  let ?tick = "(stat m)\<lparr>APIC_TICKS := APIC_TICKS (stat m) + 1\<rparr>"
  define k where "k = m\<lparr>regs := (regs m)(RSP := regs m RSP - 120), mem := spilled m, stat := ?tick,
      zf := (PREEMPTIBLE (stat m) = 0), cf := False\<rparr>"
  note facts = spilled_facts[OF entry]
  have yank: "yankable (stat k) = yankable ?p" "current_idx (stat k) = ?i"
    by (simp_all add: k_def yankable_def statics_of_def current_idx_def)
  have "zf k = (PREEMPTIBLE (stat k) = 0)" by (simp add: k_def)
  from exec_guards[OF this stub_body_straight(2)]
  obtain R z c where R: "\<forall>r. r \<noteq> RAX \<and> r \<noteq> RCX \<longrightarrow> R r = regs k r" "yankable ?p \<longrightarrow> R RAX = of_nat ?i"
      and guards: "exec (stub_guards @ stub_body @ stub_tail) k =
        exec (if yankable ?p then stub_body @ stub_tail else stub_tail) (k\<lparr>regs := R, zf := z, cf := c\<rparr>)"
    unfolding yank by blast
  define b where "b = k\<lparr>regs := R, zf := z, cf := c\<rparr>"
  have b: "regs b RSP = regs m RSP - 120" "mem b = spilled m" "stat b = ?tick" "mmio b = mmio m"
      "frames_addr b = frames_addr m" "regs b = R"
    using R(1) by (simp_all add: b_def k_def)
  have go: "exec lapic_preempt_stub m = exec (if yankable ?p then stub_body @ stub_tail else stub_tail) b"
    unfolding stub_prefix[OF entry] k_def[symmetric] guards b_def ..
  show ?thesis
  proof (cases "yankable ?p")
    case False
    have "loads (regs m RSP - 120) 15 (mem b) = rev (map (regs m) spill_regs)" using facts(1) b(2) by simp
    then obtain m' where m': "exec stub_tail b = do_iretq m'" "regs m' = regs m" "stat m' = stat b" "mem m' = mem b"
        "frames_addr m' = frames_addr b"
        "mmio m' = mmio b @ (if EOI_BASE (stat b) = 0 then [] else [(EOI_BASE (stat b), 0)])"
      by (rule tail_restores[OF entry b(1)])
    moreover have "stub_effect (irq_frame m) ?p = ?p\<lparr>APIC_TICKS := APIC_TICKS ?p + 1\<rparr>"
      using False by (auto simp: stub_effect_def Let_def yankable_def current_idx_def)
    ultimately show ?thesis
      using go False b facts(3,4) by (intro exI[of _ m']) (simp add: statics_of_def)
  next
    case True
    then have "?i < MAX_TASKS" by (simp add: yankable_def)
    moreover have "regs b RAX = of_nat ?i" using R(2) True b(6) by simp
    ultimately obtain k where k: "run stub_body b = Some k" "regs k RSP = regs m RSP - 120"
        "stat k = (stat b)\<lparr>PREEMPT_SWITCHES := PREEMPT_SWITCHES (stat b) + 1\<rparr>" "mmio k = mmio b"
        "frames_addr k = frames_addr m" "\<forall>x. x \<notin> cells (frames_addr m) 140 \<longrightarrow> mem k x = spilled m x"
        "frames_of (mem k) (frames_addr m) = (frames_of (mem m) (frames_addr m))[?i := irq_frame m]"
      by (rule body_stores[OF entry _ b(1) _ b(2,5)])
    have "loads (regs m RSP - 120) 15 (mem k) = loads (regs m RSP - 120) 15 (spilled m)"
      using facts(2) by (intro loads_cong k(6)[rule_format]) auto
    then have "loads (regs m RSP - 120) 15 (mem k) = rev (map (regs m) spill_regs)" by (rule trans[OF _ facts(1)])
    then obtain m' where m': "exec stub_tail k = do_iretq m'" "regs m' = regs m" "stat m' = stat k" "mem m' = mem k"
        "frames_addr m' = frames_addr k"
        "mmio m' = mmio k @ (if EOI_BASE (stat k) = 0 then [] else [(EOI_BASE (stat k), 0)])"
      by (rule tail_restores[OF entry k(2)])
    have "(irq_frame m)\<lparr>f_magic := PREEMPT_MAGIC\<rparr> = irq_frame m" by (simp add: irq_frame_def)
    then have "stub_effect (irq_frame m) ?p = ?p\<lparr>APIC_TICKS := APIC_TICKS ?p + 1,
        PREEMPT_SWITCHES := PREEMPT_SWITCHES ?p + 1, TASK_FRAMES := (TASK_FRAMES ?p)[?i := irq_frame m]\<rparr>"
      using True by (simp add: stub_effect_def yankable_def current_idx_def)
    then have "statics_of m' = stub_effect (irq_frame m) ?p"
      using m'(3-5) k(3,5,7) b(3) by (simp add: statics_of_def)
    moreover have "exec lapic_preempt_stub m = do_iretq m'"
      using go True exec_straight[OF stub_body_straight(1), of stub_tail b] k(1) m'(1) by simp
    ultimately show ?thesis
      using m' k b facts(4) by (intro exI[of _ m']) simp
  qed
qed

section \<open>An interrupt from delivery to return\<close>

lemma unat_cells:
  assumes "x \<in> cells a n" "unat a + 8 * n \<le> 2 ^ 64"
  shows "unat a \<le> unat x \<and> unat x < unat a + 8 * n"
proof -
  obtain i where i: "i < n" "x = a + 8 * of_nat i" using assms(1) by (rule cellsE)
  then have "unat (8 * of_nat i :: u64) = 8 * i" using assms(2) by (intro unat_cell) simp
  then have "unat x = unat a + 8 * i" using i assms(2) unat_add_no_overflow[of a "8 * of_nat i"] by simp
  then show ?thesis using i(1) by simp
qed

lemma cells_apart:
  assumes "unat a + 8 * n \<le> unat b" "unat b + 8 * k \<le> 2 ^ 64"
  shows "cells a n \<inter> cells b k = {}"
  using unat_cells[of _ a n] unat_cells[of _ b k] assms by fastforce

lemma and_not_15: "unat (a AND NOT (15 :: u64)) = unat a div 16 * 16"
proof -
  have mask: "(15 :: u64) = mask 4" by (simp add: mask_eq_exp_minus_1)
  have "a AND NOT 15 = push_bit 4 (drop_bit 4 a)"
    unfolding mask by (rule bit_word_eqI) (auto simp: bit_simps)
  also have "\<dots> = a div 16 * 16" by (simp add: push_bit_eq_mult drop_bit_eq_div)
  finally have "unat (a AND NOT 15) = unat a div 16 * 16 mod 2 ^ 64"
    by (simp add: unat_word_ariths unat_div mod_mult_left_eq)
  moreover have "unat a div 16 * 16 < 2 ^ 64"
    using unat_u64_less[of a] by (rule le_less_trans[rotated]) simp
  ultimately show ?thesis by simp
qed

lemma aligned8_delivered: "aligned8 ((a AND NOT 15) - 40)"
proof -
  have "aligned8 (a AND NOT 15)" unfolding aligned8_iff and_not_15 by (simp add: dvd_mult)
  then show ?thesis using aligned8_diff[of "a AND NOT 15" 5] by simp
qed

text \<open>Room for an interrupt: the 160 bytes below the aligned stack pointer are not the table.\<close>

definition irq_room :: "machine \<Rightarrow> bool" where
  "irq_room m \<longleftrightarrow> aligned8 (frames_addr m) \<and>
     cells ((regs m RSP AND NOT 15) - 160) 20 \<inter> cells (frames_addr m) 140 = {}"

lemma deliver_simps [simp]:
  "regs (deliver h m) r = (if r = RSP then (regs m RSP AND NOT 15) - 40 else regs m r)"
  "stat (deliver h m) = stat m" "frames_addr (deliver h m) = frames_addr m" "mmio (deliver h m) = mmio m"
  by (simp_all add: deliver_def Let_def)

lemma deliver_words:
  fixes m h
  defines "sp \<equiv> (regs m RSP AND NOT 15) - 40"
  shows "mem (deliver h m) sp = pc m" "mem (deliver h m) (sp + 8) = cs m"
    "mem (deliver h m) (sp + 16) = rflags m" "mem (deliver h m) (sp + 24) = regs m RSP"
    "mem (deliver h m) (sp + 32) = ss m"
  by (simp_all add: sp_def deliver_def Let_def)

lemma deliver_outside:
  "x \<notin> cells ((regs m RSP AND NOT 15) - 40) 5 \<Longrightarrow> mem (deliver h m) x = mem m x"
proof -
  have five: "{..<5 :: nat} = {0, 1, 2, 3, 4}" by auto
  show "x \<notin> cells ((regs m RSP AND NOT 15) - 40) 5 \<Longrightarrow> mem (deliver h m) x = mem m x"
    unfolding cells_def five by (simp add: deliver_def Let_def)
qed

lemma deliver_entry: "irq_room m \<Longrightarrow> stub_entry (deliver h m)"
  using aligned8_delivered by (simp add: irq_room_def stub_entry_def)

lemma deliver_statics: "irq_room m \<Longrightarrow> statics_of (deliver h m) = statics_of m"
proof -
  assume room: "irq_room m"
  let ?sp = "regs m RSP AND NOT 15"
  have "cells (?sp - 40) 5 \<subseteq> cells (?sp - 160) 20"
    using cells_shift[of 15 5 20 "?sp - 160"] by (simp add: algebra_simps)
  then have "frames_of (mem (deliver h m)) (frames_addr m) = frames_of (mem m) (frames_addr m)"
    using room by (intro frames_of_cong deliver_outside) (auto simp: irq_room_def)
  then show ?thesis by (simp add: statics_of_def)
qed

lemma irq_runs:
  assumes room: "irq_room m"
  shows "\<exists>m'. exec lapic_preempt_stub (deliver h m) = Some m' \<and>
     regs m' = regs m \<and> pc m' = pc m \<and> rflags m' = rflags m \<and> cs m' = cs m \<and> ss m' = ss m \<and>
     statics_of m' = stub_effect (irq_frame (deliver h m)) (statics_of m) \<and>
     mmio m' = mmio m @ (if EOI_BASE (stat m) = 0 then [] else [(EOI_BASE (stat m), 0)]) \<and>
     (\<forall>x. x \<notin> cells ((regs m RSP AND NOT 15) - 160) 20 \<union> cells (frames_addr m) 140 \<longrightarrow> mem m' x = mem m x)"
proof -
  let ?e = "deliver h m" and ?a = "regs m RSP AND NOT 15"
  have sp: "regs ?e RSP = ?a - 40" "?a - 40 - 120 = ?a - 160" by simp_all
  obtain k where k: "exec lapic_preempt_stub ?e = do_iretq k" "regs k = regs ?e"
      "statics_of k = stub_effect (irq_frame ?e) (statics_of ?e)"
      "mmio k = mmio m @ (if EOI_BASE (stat m) = 0 then [] else [(EOI_BASE (stat m), 0)])"
      "\<forall>x. x \<notin> cells (?a - 160) 15 \<union> cells (frames_addr m) 140 \<longrightarrow> mem k x = mem ?e x" "frames_addr k = frames_addr m"
    using stub_refines_effect[OF deliver_entry[OF room], of h] by auto
  have above: "cells (?a - 40) 5 \<subseteq> cells (?a - 160) 20"
    using cells_shift[of 15 5 20 "?a - 160"] by (simp add: algebra_simps)
  have apart: "cells (?a - 160) 15 \<inter> cells (?a - 40) 5 = {}"
    using cells_disjoint[of 0 15 15 5 "?a - 160"] by (simp add: algebra_simps)
  have hw: "mem k (?a - 40 + 8 * of_nat j) = mem ?e (?a - 40 + 8 * of_nat j)" if "j < 5" for j
  proof -
    have "?a - 40 + 8 * of_nat j \<in> cells (?a - 40) 5" using that by (auto simp: cells_def)
    then show ?thesis using k(5) above apart room by (auto simp: irq_room_def)
  qed
  have al: "aligned8 (?a - 40)" by (rule aligned8_delivered)
  define m' where "m' = k\<lparr>pc := pc m, cs := cs m, rflags := rflags m, regs := (regs k)(RSP := regs m RSP), ss := ss m\<rparr>"
  have "do_iretq k = Some m'"
    using hw[of 0] hw[of 1] hw[of 2] hw[of 3] hw[of 4] deliver_words[of h m] al k(2)
    by (simp add: do_iretq_def m'_def)
  moreover have "regs m' = regs m" using k(2) by (auto simp: m'_def fun_eq_iff)
  moreover have "statics_of m' = statics_of k" by (simp add: statics_of_def m'_def)
  moreover have "mem m' x = mem m x" if "x \<notin> cells (?a - 160) 20 \<union> cells (frames_addr m) 140" for x
  proof -
    have "x \<notin> cells (?a - 160) 15" using that cells_shift[of 0 15 20 "?a - 160"] by auto
    moreover have "x \<notin> cells (?a - 40) 5" using that above by auto
    ultimately show ?thesis using that k(5) deliver_outside[of x m h] by (simp add: m'_def)
  qed
  ultimately show ?thesis
    using k(1,3,4) deliver_statics[OF room, of h] by (intro exI[of _ m']) (simp add: m'_def)
qed

text \<open>
  C2. A timer interrupt is transparent to the code it interrupts. From delivery through the
  whole stub to \<open>iretq\<close>, every general register, the stack pointer, the instruction pointer, the
  flags and the segments come back as they were; memory is untouched outside the 160 bytes below the
  aligned stack pointer and the frame table; the statics change by \<open>stub_effect\<close> and nothing else, so
  only the running task's slot is written; and exactly one EOI is sent when the APIC is mapped.
\<close>

theorem irq_transparent:
  assumes room: "irq_room m"
  shows "\<exists>m'. exec lapic_preempt_stub (deliver h m) = Some m' \<and>
     regs m' = regs m \<and> pc m' = pc m \<and> rflags m' = rflags m \<and> cs m' = cs m \<and> ss m' = ss m \<and>
     statics_of m' = stub_effect (irq_frame (deliver h m)) (statics_of m) \<and>
     mmio m' = mmio m @ (if EOI_BASE (stat m) = 0 then [] else [(EOI_BASE (stat m), 0)]) \<and>
     (\<forall>x. x \<notin> cells ((regs m RSP AND NOT 15) - 160) 20 \<union> cells (frames_addr m) 140 \<longrightarrow> mem m' x = mem m x)"
  by (rule irq_runs[OF room])

text \<open>A machine in a task: fence up, slot 2 running and in use, the APIC mapped.\<close>

definition task_machine :: machine where
  "task_machine = \<lparr>regs = (\<lambda>r. if r = RSP then 0x9008 else 7), mem = (\<lambda>_. 0), zf = False, cf = False,
     pc = 0x4321, cs = 8, ss = 0, rflags = 0x202,
     stat = statics_boot\<lparr>PREEMPTIBLE := 1, CURRENT_IDX := 2, SLOT_USED := 4, EOI_BASE := 0xFEE000B0\<rparr>,
     entry_rsp = 0, frames_addr = 0x10000, mmio = []\<rparr>"

lemma task_machine_room: "irq_room task_machine"
proof -
  have "(0x9008 :: u64) AND NOT 15 = 0x9000" by simp
  moreover have "cells (0x9000 - 160) 20 \<inter> cells 0x10000 140 = {}" by (rule cells_apart) simp_all
  ultimately show ?thesis by (simp add: irq_room_def task_machine_def aligned8_def)
qed

lemma task_machine_yankable: "yankable (statics_of task_machine)"
proof -
  have "bit (4 :: u8) 2" by (simp add: bit_numeral_rec)
  then show ?thesis by (simp add: yankable_def current_idx_def statics_of_def task_machine_def MAX_TASKS_def)
qed

theorem irq_transparent_witness:
  "\<exists>m'. exec lapic_preempt_stub (deliver 0x1000 task_machine) = Some m' \<and> regs m' = regs task_machine \<and>
     pc m' = 0x4321 \<and> rflags m' = 0x202 \<and> PREEMPT_SWITCHES (statics_of m') = 1 \<and>
     mmio m' = [(0xFEE000B0, 0)]"
proof -
  obtain m' where m': "exec lapic_preempt_stub (deliver 0x1000 task_machine) = Some m'"
      "regs m' = regs task_machine" "pc m' = pc task_machine" "rflags m' = rflags task_machine"
      "statics_of m' = stub_effect (irq_frame (deliver 0x1000 task_machine)) (statics_of task_machine)"
      "mmio m' = mmio task_machine @ (if EOI_BASE (stat task_machine) = 0 then [] else [(EOI_BASE (stat task_machine), 0)])"
    using irq_transparent[where h = "0x1000", OF task_machine_room] by blast
  have "PREEMPT_SWITCHES (statics_of m') = 1"
    using task_machine_yankable unfolding m'(5) by (simp add: stub_effect_def yankable_def current_idx_def)
      (simp add: statics_of_def task_machine_def statics_boot_def)
  then show ?thesis using m'(1-4,6) by (simp add: task_machine_def)
qed

lemma below_aligned: "((r :: u64) AND NOT 15) - 16 \<noteq> r"
proof
  assume "(r AND NOT 15) - 16 = r"
  then have eq: "r AND NOT 15 = r + 16" by (simp add: algebra_simps)
  have "unat (r + 16) = (unat r + 16) mod 2 ^ 64" by (simp add: unat_word_ariths)
  then have "(unat r + 16) mod 2 ^ 64 = unat r div 16 * 16" using eq and_not_15[of r] by simp
  moreover have "unat r div 16 * 16 \<le> unat r" "unat r < 2 ^ 64" "unat r < unat r div 16 * 16 + 16"
    using unat_u64_less[of r] dividend_less_div_times[of 16 "unat r"] by simp_all
  ultimately show False by (auto simp: mod_if split: if_splits)
qed

text \<open>
  C36. The word a yank stores as the interrupted stack pointer is the address of the
  saved RSP in the interrupt frame, 16 bytes below the aligned stack pointer, and never the
  interrupted stack pointer itself: in 64-bit mode the processor aligns the stack and pushes five words.
\<close>

theorem stashed_rsp_differs:
  assumes "irq_room m" "yankable (statics_of m)"
  shows "\<exists>m'. exec lapic_preempt_stub (deliver h m) = Some m' \<and>
     f_rsp (TASK_FRAMES (statics_of m') ! current_idx (stat m)) = (regs m RSP AND NOT 15) - 16 \<and>
     f_rsp (TASK_FRAMES (statics_of m') ! current_idx (stat m)) \<noteq> regs m RSP"
proof -
  obtain m' where m': "exec lapic_preempt_stub (deliver h m) = Some m'"
      "statics_of m' = stub_effect (irq_frame (deliver h m)) (statics_of m)"
    using irq_runs[OF assms(1)] by blast
  have idx: "current_idx (statics_of m) = current_idx (stat m)" by (simp add: statics_of_def current_idx_def)
  have "TASK_FRAMES (statics_of m') ! current_idx (stat m) = irq_frame (deliver h m)\<lparr>f_magic := PREEMPT_MAGIC\<rparr>"
    using assms(2) unfolding m'(2)
    by (simp add: stub_effect_def yankable_def current_idx_def statics_of_def frames_of_def)
  then show ?thesis using m'(1) below_aligned by (simp add: irq_frame_def)
qed

theorem stashed_rsp_differs_witness:
  "\<exists>m'. exec lapic_preempt_stub (deliver 0x1000 task_machine) = Some m' \<and>
     f_rsp (TASK_FRAMES (statics_of m') ! 2) = 0x8FF0 \<and> regs task_machine RSP = 0x9008"
proof -
  have "current_idx (stat task_machine) = 2" "regs task_machine RSP = 0x9008"
    by (simp_all add: task_machine_def current_idx_def)
  moreover have "((0x9008 :: u64) AND NOT 15) - 16 = 0x8FF0" by simp
  ultimately show ?thesis
    using stashed_rsp_differs[OF task_machine_room task_machine_yankable, of "0x1000"] by metis
qed

end
