(* ===== verification/Switch.thy ===== *)
theory Switch
  imports Stub
begin

text \<open>
  The cooperative switch of \<open>task.rs\<close>: \<open>context_switch\<close> and \<open>task_trampoline\<close> as instruction lists,
  and \<open>init_task_context\<close>, which builds the frame the first switch returns through. A \<open>Context\<close> is one
  cell, the saved stack pointer, at the address the caller passes.
\<close>

definition callee_saved :: "reg list" where
  "callee_saved = [RBP, RBX, R12, R13, R14, R15]"

definition context_switch :: "instr list" where
  "context_switch =
    [PUSH RBP,
     PUSH RBX,
     PUSH R12,
     PUSH R13,
     PUSH R14,
     PUSH R15,
     STORE RDI 0x00 RSP,
     LOAD RSP RSI 0x00,
     POP R15,
     POP R14,
     POP R13,
     POP R12,
     POP RBX,
     POP RBP,
     RET]"

definition task_trampoline :: "u64 \<Rightarrow> instr list" where
  "task_trampoline body = [STORE_SYM S_entry_rsp RSP, JMP body]"

definition init_task_context :: "u64 \<Rightarrow> u64 \<Rightarrow> (u64 \<Rightarrow> u64) \<Rightarrow> (u64 \<times> (u64 \<Rightarrow> u64)) outcome" where
  "init_task_context trampoline tp M =
     obind (assert_that (tp mod 16 = 0) ''task stack top must be 16-byte aligned'') (\<lambda>_.
     obind (sub_op tp 64) (\<lambda>rsp.
     obind (assert_that (rsp mod 16 = 0) ''bootstrap frame must start 16-aligned'') (\<lambda>_.
     obind (add_op rsp 56) (\<lambda>resumed.
     obind (assert_that (resumed mod 16 = 8) ''resumed rsp would break the ABI parity'') (\<lambda>_.
       Inr (rsp, stores rsp [0, 0, 0, 0, 0, 0, trampoline, 0] M))))))"

section \<open>What the switch does\<close>

lemma callee_saved_facts [simp]: "RSP \<notin> set callee_saved" "distinct callee_saved" "length callee_saved = 6"
  by (simp_all add: callee_saved_def)

lemma context_switch_parts:
  "context_switch = (map PUSH callee_saved @ [STORE RDI 0x00 RSP, LOAD RSP RSI 0x00] @ map POP (rev callee_saved)) @ [RET]"
  by (simp add: context_switch_def callee_saved_def)

text \<open>
  \<open>switched_out m\<close> is memory once the running side is saved: six registers pushed, and the
  stack pointer in the old context.
\<close>

definition switched_out :: "machine \<Rightarrow> u64 \<Rightarrow> u64" where
  "switched_out m =
     (stores (regs m RSP - 48) (rev (map (regs m) callee_saved)) (mem m))(regs m RDI := regs m RSP - 48)"

lemma assign_other: "r \<notin> set rs \<Longrightarrow> assign rs vs f r = f r"
  by (auto simp: assign_def dest: map_of_SomeD set_zip_leftD split: option.split)

lemma assign_upd: "r \<notin> set rs \<Longrightarrow> (assign rs vs (f(r := v)))(r := w) = assign rs vs (f(r := w))"
  by (auto simp: assign_def fun_eq_iff dest: map_of_SomeD set_zip_leftD split: option.split)

lemma assign_map: "distinct rs \<Longrightarrow> length vs = length rs \<Longrightarrow> map (assign rs vs f) rs = vs"
  by (intro nth_equalityI) (simp_all add: assign_def map_of_zip_nth)

lemma exec_context_switch:
  assumes "aligned8 (regs m RSP)" "aligned8 (regs m RDI)" "aligned8 (regs m RSI)"
    and new: "aligned8 (switched_out m (regs m RSI))"
  defines "n \<equiv> switched_out m (regs m RSI)"
  shows "exec context_switch m = Some (m\<lparr>
     regs := assign (rev callee_saved) (loads n 6 (switched_out m)) ((regs m)(RSP := n + 56)),
     mem := switched_out m, pc := switched_out m (n + 48)\<rparr>)"
proof -
  let ?m1 = "m\<lparr>regs := (regs m)(RSP := regs m RSP - 48),
      mem := stores (regs m RSP - 48) (rev (map (regs m) callee_saved)) (mem m)\<rparr>"
  let ?m2 = "m\<lparr>regs := (regs m)(RSP := n), mem := switched_out m\<rparr>"
  let ?m3 = "m\<lparr>regs := assign (rev callee_saved) (loads n 6 (switched_out m)) ((regs m)(RSP := n + 48)), mem := switched_out m\<rparr>"
  have "run (map PUSH callee_saved) m = Some ?m1"
    using run_pushes[of m callee_saved] assms(1) by simp
  moreover have "run [STORE RDI 0x00 RSP, LOAD RSP RSI 0x00] ?m1 = Some ?m2"
    using assms(2,3) by (simp add: store_def load_def n_def switched_out_def machine_order)
  moreover have "run (map POP (rev callee_saved)) ?m2 = Some ?m3"
    using run_pops[of ?m2 "rev callee_saved"] new by (simp add: n_def)
  ultimately have "run (map PUSH callee_saved @ [STORE RDI 0x00 RSP, LOAD RSP RSI 0x00] @ map POP (rev callee_saved)) m = Some ?m3"
    by (simp only: run_append bind.bind_lunit)
  then have "exec context_switch m = do_ret ?m3"
    unfolding context_switch_parts by (subst exec_straight) (auto simp: list_all_iff exec.simps)
  moreover have "regs ?m3 RSP = n + 48" by (simp add: assign_other)
  moreover have "aligned8 (n + 48)" using aligned8_add[of n 6] new by (simp add: n_def)
  moreover have "(regs ?m3)(RSP := n + 56) = assign (rev callee_saved) (loads n 6 (switched_out m)) ((regs m)(RSP := n + 56))"
    by (simp add: assign_upd)
  ultimately show ?thesis by (simp add: do_ret_def load_def machine_order add.commute)
qed

section \<open>A side that was switched away resumes where it was\<close>

text \<open>
  \<open>suspended M c vs ra sp\<close>: the context at \<open>c\<close> holds a suspended side, with its callee-saved registers
  \<open>vs\<close> (in pop order) and its return address \<open>ra\<close> on its stack; \<open>sp\<close> is the stack pointer it resumes with.
\<close>

definition suspended :: "(u64 \<Rightarrow> u64) \<Rightarrow> u64 \<Rightarrow> u64 list \<Rightarrow> u64 \<Rightarrow> u64 \<Rightarrow> bool" where
  "suspended M c vs ra sp \<longleftrightarrow>
     M c = sp - 56 \<and> loads (sp - 56) 6 M = vs \<and> M (sp - 8) = ra \<and> aligned8 sp"

text \<open>The cells a suspended side owns: its context, the six registers and the return address.\<close>

definition image :: "u64 \<Rightarrow> u64 \<Rightarrow> u64 set" where
  "image c sp = insert c (cells (sp - 56) 7)"

definition switch_ready :: "machine \<Rightarrow> bool" where
  "switch_ready m \<longleftrightarrow> aligned8 (regs m RSP) \<and> aligned8 (regs m RDI) \<and> aligned8 (regs m RSI) \<and>
     regs m RDI \<notin> cells (regs m RSP - 48) 7"

lemma cell_in: "i < n \<Longrightarrow> a + 8 * of_nat i \<in> cells a n"
  by (auto simp: cells_def)

lemma suspended_cong:
  assumes "\<And>x. x \<in> image c sp \<Longrightarrow> M x = M' x"
  shows "suspended M c vs ra sp = suspended M' c vs ra sp"
proof -
  have "loads (sp - 56) 6 M = loads (sp - 56) 6 M'"
    using assms cells_shift[of 0 6 7 "sp - 56"] by (intro loads_cong) (auto simp: image_def)
  moreover have "sp - 8 \<in> cells (sp - 56) 7" using cell_in[of 6 7 "sp - 56"] by simp
  then have "M (sp - 8) = M' (sp - 8)" using assms by (simp add: image_def)
  ultimately show ?thesis using assms[of c] by (simp add: suspended_def image_def)
qed

lemma switched_out_suspended:
  assumes "switch_ready m"
  shows "suspended (switched_out m) (regs m RDI) (rev (map (regs m) callee_saved)) (mem m (regs m RSP)) (regs m RSP + 8)"
proof -
  let ?sp = "regs m RSP - 48" and ?vs = "rev (map (regs m) callee_saved)"
  have out: "regs m RDI \<notin> cells ?sp 7" using assms by (simp add: switch_ready_def)
  have "loads ?sp 6 (switched_out m) = loads ?sp 6 (stores ?sp ?vs (mem m))"
    using out cells_shift[of 0 6 7 ?sp] by (intro loads_cong) (auto simp: switched_out_def)
  also have "\<dots> = ?vs" using loads_stores[of ?vs ?sp] by simp
  finally have regs: "loads ?sp 6 (switched_out m) = ?vs" .
  have "regs m RSP \<in> cells ?sp 7" using cell_in[of 6 7 ?sp] by simp
  moreover have "regs m RSP \<notin> cells ?sp 6"
    using cells_disjoint[of 0 6 6 1 ?sp] by (auto simp: cells_def)
  ultimately have "switched_out m (regs m RSP) = mem m (regs m RSP)"
    using out by (auto simp: switched_out_def stores_outside)
  then show ?thesis
    using regs assms aligned8_add[of "regs m RSP" 1]
    by (simp add: suspended_def switch_ready_def algebra_simps) (simp add: switched_out_def)
qed

lemma switched_out_outside:
  "x \<notin> image (regs m RDI) (regs m RSP + 8) \<Longrightarrow> switched_out m x = mem m x"
proof -
  assume "x \<notin> image (regs m RDI) (regs m RSP + 8)"
  then have "x \<noteq> regs m RDI" "x \<notin> cells (regs m RSP - 48) 6"
    using cells_shift[of 0 6 7 "regs m RSP - 48"] by (auto simp: image_def algebra_simps)
  then show ?thesis by (simp add: switched_out_def stores_outside)
qed

text \<open>Switching to a suspended side.\<close>

lemma switch_to_suspended:
  assumes "switch_ready m" "suspended (mem m) (regs m RSI) vs ra sp"
    and apart: "image (regs m RDI) (regs m RSP + 8) \<inter> image (regs m RSI) sp = {}"
  shows "\<exists>m'. exec context_switch m = Some m' \<and> pc m' = ra \<and> regs m' RSP = sp \<and>
     map (regs m') (rev callee_saved) = vs \<and> mem m' = switched_out m \<and>
     (\<forall>r. r \<notin> set callee_saved \<and> r \<noteq> RSP \<longrightarrow> regs m' r = regs m r)"
proof -
  have same: "suspended (switched_out m) (regs m RSI) vs ra sp"
    using assms(2) apart switched_out_outside[of _ m]
    by (subst suspended_cong[where M' = "mem m"]) auto
  then have n: "switched_out m (regs m RSI) = sp - 56" "loads (sp - 56) 6 (switched_out m) = vs"
      "switched_out m (sp - 8) = ra" "aligned8 sp"
    by (simp_all add: suspended_def)
  have "aligned8 (sp - 56)" using aligned8_diff[OF n(4), of 7] by simp
  then have "exec context_switch m = Some (m\<lparr>regs := assign (rev callee_saved) vs ((regs m)(RSP := sp)),
      mem := switched_out m, pc := ra\<rparr>)"
    using exec_context_switch[of m] assms(1) n by (simp add: switch_ready_def)
  moreover have "length vs = 6" using n(2) by (auto simp: loads_def)
  then have "map (assign (rev callee_saved) vs ((regs m)(RSP := sp))) (rev callee_saved) = vs"
    by (intro assign_map) simp_all
  ultimately show ?thesis by (simp add: assign_other)
qed

lemma init_task_context_eq:
  assumes "16 dvd unat tp" "64 \<le> unat tp"
  shows "init_task_context tr tp M = Inr (tp - 64, stores (tp - 64) [0, 0, 0, 0, 0, 0, tr, 0] M)"
    "(tp - 8) mod 16 = 8"
proof -
  obtain q where q: "unat tp = 16 * q" using assms(1) by (elim dvdE)
  have u: "unat (tp - k) = unat tp - unat k" if "unat k \<le> 64" for k
    using that assms(2) by (subst unat_sub) (simp_all add: word_le_nat_alt)
  have a: "unat (tp - 64) = 16 * (q - 4)" using u[of 64] q by simp
  have b: "unat (tp - 8) = 16 * (q - 1) + 8" using u[of 8] q assms(2) by simp
  show mod: "(tp - 8) mod 16 = 8" using b by (simp add: word_unat_eq_iff unat_mod)
  have "add_op (tp - 64) 56 = Inr (tp - 8)"
    using add_op_no_overflow[of "tp - 64" 56] a q unat_u64_less[of tp] by simp
  moreover have "sub_op tp 64 = Inr (tp - 64)" using assms(2) a q by (simp add: rust_arith)
  moreover have "tp mod 16 = 0" "(tp - 64) mod 16 = 0" using q a by (simp_all add: word_unat_eq_iff unat_mod)
  ultimately show "init_task_context tr tp M = Inr (tp - 64, stores (tp - 64) [0, 0, 0, 0, 0, 0, tr, 0] M)"
    using mod by (simp add: init_task_context_def)
qed

lemma bootstrap_suspended:
  assumes "16 dvd unat tp" "M c = tp - 64"
    and "\<forall>x\<in>cells (tp - 64) 7. M x = stores (tp - 64) [0, 0, 0, 0, 0, 0, tr, 0] M0 x"
  shows "suspended M c (replicate 6 0) tr (tp - 8)"
proof -
  let ?vs = "[0, 0, 0, 0, 0, 0, tr, 0]" and ?n = "tp - 64"
  have cell: "M (?n + 8 * of_nat i) = ?vs ! i" if "i < 7" for i
    using that assms(3) cell_in[of i 7 ?n] stores_cell[of i ?vs ?n M0] by simp
  have "loads ?n 6 M = map (\<lambda>i. ?vs ! i) [0..<6]" unfolding loads_def by (rule map_cong) (auto intro!: cell)
  also have "\<dots> = replicate 6 0" by (simp add: upt_rec numeral_eq_Suc)
  finally have "loads ?n 6 M = replicate 6 0" .
  moreover have "M (tp - 16) = tr" using cell[of 6] by simp
  moreover have "aligned8 (tp - 8)"
  proof -
    have "aligned8 tp" unfolding aligned8_iff using assms(1) by (rule dvd_trans[rotated]) simp
    then show ?thesis using aligned8_diff[of tp 1] by simp
  qed
  ultimately show ?thesis using assms(2) by (simp add: suspended_def)
qed

section \<open>Properties\<close>


text \<open>A driver at 0x9000 with its context at 0x5000, and a fresh task with its context at 0x6000 and its stack below 0x8000.\<close>

definition driver_machine :: machine where
  "driver_machine = task_machine\<lparr>regs := (regs task_machine)(RSP := 0x9000, RDI := 0x5000, RSI := 0x6000, RBP := 11),
     mem := (stores 0x7FC0 [0, 0, 0, 0, 0, 0, 0xABC, 0] (\<lambda>_. 0))(0x6000 := 0x7FC0, 0x9000 := 0x777)\<rparr>"

lemma image_apart:
  assumes "cells a 7 \<inter> cells b 7 = {}" "c \<noteq> d" "c \<notin> cells b 7" "d \<notin> cells a 7"
  shows "image c (a + 56) \<inter> image d (b + 56) = {}"
  using assms by (auto simp: image_def)

lemma not_in_cells: "unat a + 8 * n \<le> 2 ^ 64 \<Longrightarrow> unat c < unat a \<or> unat a + 8 * n \<le> unat c \<Longrightarrow> c \<notin> cells a n"
  using unat_cells[of c a n] by auto

lemma driver_mem:
  "mem driver_machine 0x6000 = 0x7FC0" "mem driver_machine 0x9000 = 0x777"
  "x \<in> cells 0x7FC0 7 \<Longrightarrow> mem driver_machine x = stores 0x7FC0 [0, 0, 0, 0, 0, 0, 0xABC, 0] (\<lambda>_. 0) x"
  using not_in_cells[of "0x7FC0" 7 "0x6000"] not_in_cells[of "0x7FC0" 7 "0x9000"]
  by (auto simp: driver_machine_def)

lemma driver_facts:
  "switch_ready driver_machine" "regs driver_machine RSI = 0x6000" "regs driver_machine RDI = 0x5000"
  "regs driver_machine RSP = 0x9000"
  "suspended (mem driver_machine) 0x6000 (replicate 6 0) 0xABC 0x7FF8"
  "image 0x5000 0x9008 \<inter> image 0x6000 0x7FF8 = {}"
proof -
  show regs: "regs driver_machine RSI = 0x6000" "regs driver_machine RDI = 0x5000" "regs driver_machine RSP = 0x9000"
    by (simp_all add: driver_machine_def)
  show "switch_ready driver_machine"
    using not_in_cells[of "0x8FD0" 7 "0x5000"] by (simp add: switch_ready_def regs aligned8_def)
  show "suspended (mem driver_machine) 0x6000 (replicate 6 0) 0xABC 0x7FF8"
    using bootstrap_suspended[of "0x8000" "mem driver_machine" "0x6000" "0xABC" "\<lambda>_. 0"] driver_mem by simp
  show "image 0x5000 0x9008 \<inter> image 0x6000 0x7FF8 = {}"
    using image_apart[of "0x8FD0" "0x7FC0" "0x5000" "0x6000"] cells_apart[of "0x7FC0" 7 "0x8FD0" 7]
      not_in_cells[of "0x7FC0" 7 "0x5000"] not_in_cells[of "0x8FD0" 7 "0x6000"] by (auto simp: Int_commute)
qed


text \<open>
  C24. The first switch to a fresh task lands in the trampoline: the frame \<open>init_task_context\<close> plants
  makes \<open>context_switch\<close> return to the trampoline with cleared callee-saved registers and the stack
  pointer 8 below the top, and the value the trampoline records passes the parity assertion of
  \<open>task_trampoline_body\<close>.
\<close>

theorem first_switch_enters_trampoline:
  assumes top: "16 dvd unat tp" "64 \<le> unat tp"
    and init: "init_task_context tr tp M = Inr (rsp, M')"
    and m: "switch_ready m" "mem m (regs m RSI) = rsp" "\<forall>x\<in>cells (tp - 64) 7. mem m x = M' x"
      "image (regs m RDI) (regs m RSP + 8) \<inter> image (regs m RSI) (tp - 8) = {}"
  shows "\<exists>m1 m2. exec context_switch m = Some m1 \<and> pc m1 = tr \<and> (\<forall>r\<in>set callee_saved. regs m1 r = 0) \<and>
     exec (task_trampoline body) m1 = Some m2 \<and> pc m2 = body \<and> regs m2 = regs m1 \<and>
     entry_rsp m2 = tp - 8 \<and> entry_rsp m2 mod 16 = 8"
proof -
  have i: "rsp = tp - 64" "M' = stores (tp - 64) [0, 0, 0, 0, 0, 0, tr, 0] M"
    using init init_task_context_eq(1)[OF top, of tr M] by auto
  then have "suspended (mem m) (regs m RSI) (replicate 6 0) tr (tp - 8)"
    using bootstrap_suspended[OF top(1)] m(2,3) by simp
  from switch_to_suspended[OF m(1) this m(4)]
  obtain m1 where m1: "exec context_switch m = Some m1" "pc m1 = tr" "regs m1 RSP = tp - 8"
      "map (regs m1) (rev callee_saved) = replicate 6 0"
    by blast
  have zero: "\<forall>r\<in>set callee_saved. regs m1 r = 0"
    using m1(4) by (simp add: callee_saved_def numeral_eq_Suc)
  have "exec (task_trampoline body) m1 = Some (m1\<lparr>entry_rsp := tp - 8, pc := body\<rparr>)"
    using m1(3) by (simp add: task_trampoline_def exec.simps)
  then show ?thesis using m1(1,2) zero init_task_context_eq(2)[OF top] by auto
qed

theorem first_switch_enters_trampoline_witness:
  "\<exists>m1 m2. exec context_switch driver_machine = Some m1 \<and> pc m1 = 0xABC \<and>
     exec (task_trampoline 0xDEF) m1 = Some m2 \<and> pc m2 = 0xDEF \<and> entry_rsp m2 = 0x7FF8"
proof -
  have "init_task_context 0xABC 0x8000 (\<lambda>_. 0) = Inr (0x7FC0, stores 0x7FC0 [0, 0, 0, 0, 0, 0, 0xABC, 0] (\<lambda>_. 0))"
    using init_task_context_eq(1)[of "0x8000" "0xABC" "\<lambda>_. 0"] by simp
  then show ?thesis
    using first_switch_enters_trampoline[of "0x8000" "0xABC" "\<lambda>_. 0" "0x7FC0" _ driver_machine "0xDEF"]
      driver_facts driver_mem by auto
qed

end
