(* ===== verification/Config.thy ===== *)
theory Config
  imports Prelude
begin

text \<open>
  The configuration readers: the build script \<open>kernel/build.rs\<close>, the constant parsers
  \<open>parse_heap_bytes\<close> (\<open>memory.rs\<close>) and \<open>parse_stack_bytes\<close> (\<open>task.rs\<close>) that read back what the build
  script prints, and the gates on the Cargo features in \<open>memory.rs\<close> and \<open>task.rs\<close>.

  A text is the list of its bytes. White space and letter case are those of ASCII, which is what
  keys, values and section names of the configuration file are written in. A line the build script prints
  for cargo is a pair of a variable and its value. The text \<open>read_to_string\<close> returns and the features cargo
  sets are arguments.
\<close>

section \<open>The string operations of the core library\<close>

definition white :: "char \<Rightarrow> bool" where
  "white c \<longleftrightarrow> (let n = of_char c :: nat in n = 32 \<or> 9 \<le> n \<and> n \<le> 13)"

definition trim_by :: "(char \<Rightarrow> bool) \<Rightarrow> string \<Rightarrow> string" where
  "trim_by p s = rev (dropWhile p (rev (dropWhile p s)))"

definition trim_end_by :: "(char \<Rightarrow> bool) \<Rightarrow> string \<Rightarrow> string" where
  "trim_end_by p s = rev (dropWhile p (rev s))"

abbreviation trim :: "string \<Rightarrow> string" where
  "trim \<equiv> trim_by white"

definition upper_char :: "char \<Rightarrow> char" where
  "upper_char c = (let n = of_char c :: nat in if 97 \<le> n \<and> n \<le> 122 then char_of (n - 32) else c)"

definition lower_char :: "char \<Rightarrow> char" where
  "lower_char c = (let n = of_char c :: nat in if 65 \<le> n \<and> n \<le> 90 then char_of (n + 32) else c)"

fun split_on :: "char \<Rightarrow> string \<Rightarrow> string list" where
  "split_on c [] = [[]]"
| "split_on c (x # xs) =
     (if x = c then [] # split_on c xs
      else case split_on c xs of [] \<Rightarrow> [[x]] | y # ys \<Rightarrow> (x # y) # ys)"

definition strip_cr :: "string \<Rightarrow> string" where
  "strip_cr s = (if s \<noteq> [] \<and> last s = CHR 0x0D then butlast s else s)"

definition text_lines :: "string \<Rightarrow> string list" where
  "text_lines s =
     (let ps = split_on CHR 0x0A s in
      map strip_cr (butlast ps) @ (if last ps = [] then [] else [last ps]))"

definition starts_with :: "char \<Rightarrow> string \<Rightarrow> bool" where
  "starts_with c s \<longleftrightarrow> s \<noteq> [] \<and> hd s = c"

definition strip_prefix :: "char \<Rightarrow> string \<Rightarrow> string option" where
  "strip_prefix c s = (if s \<noteq> [] \<and> hd s = c then Some (tl s) else None)"

definition strip_suffix :: "char set \<Rightarrow> string \<Rightarrow> string option" where
  "strip_suffix cs s = (if s \<noteq> [] \<and> last s \<in> cs then Some (butlast s) else None)"

definition split_once :: "char \<Rightarrow> string \<Rightarrow> (string \<times> string) option" where
  "split_once c s =
     (if c \<in> set s then Some (takeWhile (\<lambda>x. x \<noteq> c) s, tl (dropWhile (\<lambda>x. x \<noteq> c) s)) else None)"

definition before_char :: "char \<Rightarrow> string \<Rightarrow> string" where
  "before_char c s = takeWhile (\<lambda>x. x \<noteq> c) s"

section \<open>Numbers\<close>

definition digit :: "char \<Rightarrow> u8" where
  "digit c = of_char c - 48"

text \<open>\<open>u64::from_str\<close>: an optional plus sign, at least one digit, no overflow.\<close>

fun parse_u64_from :: "u64 \<Rightarrow> string \<Rightarrow> u64 option" where
  "parse_u64_from n [] = Some n"
| "parse_u64_from n (c # cs) =
     (if digit c < 10
      then (case checked_mul n 10 of None \<Rightarrow> None
            | Some n' \<Rightarrow> case checked_add n' (ucast (digit c)) of None \<Rightarrow> None
              | Some n'' \<Rightarrow> parse_u64_from n'' cs)
      else None)"

definition parse_u64 :: "string \<Rightarrow> u64 option" where
  "parse_u64 s =
     (let ds = (case strip_prefix CHR ''+'' s of Some r \<Rightarrow> r | None \<Rightarrow> s) in
      if ds = [] then None else parse_u64_from 0 ds)"

text \<open>The decimal form \<open>{}\<close> prints.\<close>

fun show_nat :: "nat \<Rightarrow> string" where
  "show_nat n = (if n < 10 then [char_of (48 + n)] else show_nat (n div 10) @ [char_of (48 + n mod 10)])"

declare show_nat.simps [simp del]

definition show_u64 :: "u64 \<Rightarrow> string" where
  "show_u64 n = show_nat (unat n)"

text \<open>
  The loop of the two constant parsers. A failed assertion and an overflow of the unchecked
  \<open>n * 10 + d\<close> stop the compiler.
\<close>

fun const_digits :: "string \<Rightarrow> u64 \<Rightarrow> string \<Rightarrow> u64 outcome" where
  "const_digits msg n [] = Inr n"
| "const_digits msg n (c # cs) =
     (let d = digit c in
      obind (assert_that (d < 10) msg) (\<lambda>_.
      obind (mul_op n 10) (\<lambda>n'. obind (add_op n' (ucast d)) (\<lambda>n''. const_digits msg n'' cs))))"

definition parse_heap_bytes :: "string \<Rightarrow> u64 outcome" where
  "parse_heap_bytes s = const_digits ''heap_size_kb must be digits'' 0 s"

definition parse_stack_bytes :: "string \<Rightarrow> u64 outcome" where
  "parse_stack_bytes s = const_digits ''stack_size must be digits'' 0 s"

section \<open>The build script\<close>

definition parse_size_bytes :: "string \<Rightarrow> u64 option" where
  "parse_size_bytes v =
     (let v = trim v;
          dm = (case strip_suffix {CHR ''K'', CHR ''k''} v of
                  Some n \<Rightarrow> (trim_end_by (\<lambda>c. c \<in> {CHR ''B'', CHR ''b''}) n, 1024)
                | None \<Rightarrow> (case strip_suffix {CHR ''M'', CHR ''m''} v of
                    Some n \<Rightarrow> (trim_end_by (\<lambda>c. c \<in> {CHR ''B'', CHR ''b''}) n, 1024 * 1024)
                  | None \<Rightarrow> (case strip_suffix {CHR ''G'', CHR ''g''} v of
                      Some n \<Rightarrow> (trim_end_by (\<lambda>c. c \<in> {CHR ''B'', CHR ''b''}) n, 1024 * 1024 * 1024)
                    | None \<Rightarrow> (v, 1))))
      in case parse_u64 (fst dm) of None \<Rightarrow> None | Some d \<Rightarrow> checked_mul d (snd dm))"

record build_state =
  section_name :: string
  frame_allocator_cfg :: "string option"
  sched_cfg :: "string option"
  rustc_env :: "(string \<times> string) list"

definition build_start :: build_state where
  "build_start = \<lparr>section_name = [], frame_allocator_cfg = None, sched_cfg = None, rustc_env = []\<rparr>"

definition key_name :: "string \<Rightarrow> string" where
  "key_name k = map (\<lambda>c. if c = CHR ''-'' \<or> c = CHR ''.'' then CHR ''_'' else c) (trim k)"

definition emit :: "string \<Rightarrow> string \<Rightarrow> build_state \<Rightarrow> build_state" where
  "emit k v b = b\<lparr>rustc_env := rustc_env b @ [(k, v)]\<rparr>"

definition build_entry :: "string \<Rightarrow> string \<Rightarrow> build_state \<Rightarrow> build_state outcome" where
  "build_entry k v b =
     (let v = trim (trim_by (\<lambda>c. c = CHR 0x22) (trim v));
          upper = map upper_char (key_name k);
          b = (if section_name b \<noteq> [] then emit (''KERNEL_CONFIG_'' @ section_name b @ ''_'' @ upper) v b else b);
          b = emit (''KERNEL_CONFIG_'' @ upper) v b in
      obind (if upper = ''HEAP_SIZE_KB''
             then (case parse_u64 v of
                     None \<Rightarrow> Inl (Failed ''heap_size_kb must be a plain number'')
                   | Some kb \<Rightarrow> obind (mul_op kb 1024) (\<lambda>n. Inr (emit ''KERNEL_CONFIG_HEAP_SIZE_BYTES'' (show_u64 n) b)))
             else Inr b) (\<lambda>b.
      obind (if upper = ''STACK_SIZE''
             then (case parse_size_bytes v of
                     None \<Rightarrow> Inl (Failed ''stack_size must be like 128K'')
                   | Some n \<Rightarrow> Inr (emit ''KERNEL_CONFIG_STACK_SIZE_BYTES'' (show_u64 n) b))
             else Inr b) (\<lambda>b.
        let b = (if section_name b = ''MEMORY'' \<and> upper = ''FRAME_ALLOCATOR''
                 then b\<lparr>frame_allocator_cfg := Some (map lower_char v)\<rparr> else b) in
        Inr (if section_name b = ''SCHED'' \<and> upper = ''DEFAULT''
             then b\<lparr>sched_cfg := Some (map lower_char v)\<rparr> else b))))"

definition build_line :: "string \<Rightarrow> build_state \<Rightarrow> build_state outcome" where
  "build_line raw b =
     (let line = trim raw in
      if line = [] \<or> starts_with CHR ''#'' line then Inr b
      else case Option.bind (strip_prefix CHR ''['' line) (strip_suffix {CHR '']''}) of
             Some name \<Rightarrow> Inr (b\<lparr>section_name := map upper_char (key_name name)\<rparr>)
           | None \<Rightarrow>
               (case split_once CHR ''='' (trim (before_char CHR ''#'' line)) of
                  Some (k, v) \<Rightarrow> build_entry k v b
                | None \<Rightarrow> Inr b))"

fun build_lines :: "string list \<Rightarrow> build_state \<Rightarrow> build_state outcome" where
  "build_lines [] b = Inr b"
| "build_lines (l # ls) b = obind (build_line l b) (build_lines ls)"

definition feature_check :: "string \<Rightarrow> string \<Rightarrow> string \<Rightarrow> bool \<Rightarrow> bool \<Rightarrow> string option \<Rightarrow> unit outcome" where
  "feature_check msg first second f g cfg =
     (case cfg of None \<Rightarrow> Inr ()
      | Some v \<Rightarrow>
          if v = first \<and> f \<and> \<not> g then Inr ()
          else if v = second \<and> g \<and> \<not> f then Inr ()
          else Inl (Failed msg))"

record features =
  ALLOC_BUMP :: bool
  ALLOC_BUDDY :: bool
  SCHED_RR :: bool
  SCHED_CFS :: bool

definition build_main :: "string option \<Rightarrow> features \<Rightarrow> (string \<times> string) list outcome" where
  "build_main file fs =
     (let config = (case file of Some t \<Rightarrow> t | None \<Rightarrow> []) in
      obind (build_lines (text_lines config) build_start) (\<lambda>b.
      obind (feature_check ''frame_allocator disagrees with Cargo features'' ''bump'' ''buddy''
               (ALLOC_BUMP fs) (ALLOC_BUDDY fs) (frame_allocator_cfg b)) (\<lambda>_.
      obind (feature_check ''sched default disagrees with Cargo features'' ''rr'' ''cfs''
               (SCHED_RR fs) (SCHED_CFS fs) (sched_cfg b)) (\<lambda>_.
        Inr (rustc_env b)))))"

section \<open>What the compiler makes of it\<close>

text \<open>
  The compile errors of \<open>memory::init\<close> and of the head of \<open>RoundRobin\<close>, and the constants the kernel takes from the variables of
  the build script. \<open>env!\<close> of a variable that was not printed is a compile error too; of two lines for one variable cargo keeps
  the later one.
\<close>

definition allocator_gate :: "features \<Rightarrow> unit outcome" where
  "allocator_gate fs =
     (if ALLOC_BUMP fs \<and> ALLOC_BUDDY fs then Inl (Failed ''select exactly one of alloc-bump / alloc-buddy, not both'')
      else if \<not> (ALLOC_BUMP fs \<or> ALLOC_BUDDY fs) then Inl (Failed ''select one of alloc-bump / alloc-buddy'')
      else Inr ())"

definition scheduler_gate :: "features \<Rightarrow> unit outcome" where
  "scheduler_gate fs =
     (if SCHED_RR fs \<and> SCHED_CFS fs then Inl (Failed ''select exactly one of sched-rr / sched-cfs, not both'')
      else if \<not> (SCHED_RR fs \<or> SCHED_CFS fs) then Inl (Failed ''select one of sched-rr / sched-cfs'')
      else Inr ())"

definition env_var :: "(string \<times> string) list \<Rightarrow> string \<Rightarrow> string outcome" where
  "env_var env v =
     (case map_of (rev env) v of
        None \<Rightarrow> Inl (Failed ''environment variable not defined at compile time'')
      | Some s \<Rightarrow> Inr s)"

record kernel_consts =
  HEAP_SIZE :: u64
  stack_bytes :: u64
  SELF_TEST :: bool

definition compile_kernel :: "string option \<Rightarrow> features \<Rightarrow> kernel_consts outcome" where
  "compile_kernel file fs =
     obind (build_main file fs) (\<lambda>env.
     obind (allocator_gate fs) (\<lambda>_.
     obind (scheduler_gate fs) (\<lambda>_.
     obind (env_var env ''KERNEL_CONFIG_HEAP_SIZE_BYTES'') (\<lambda>h.
     obind (parse_heap_bytes h) (\<lambda>heap.
     obind (env_var env ''KERNEL_CONFIG_STACK_SIZE_BYTES'') (\<lambda>s.
     obind (parse_stack_bytes s) (\<lambda>stack.
     obind (env_var env ''KERNEL_CONFIG_MEMORY_SELF_TEST'') (\<lambda>t.
       Inr \<lparr>HEAP_SIZE = heap, stack_bytes = stack, SELF_TEST = (t = ''true'')\<rparr>))))))))"

section \<open>Numbers survive printing and parsing\<close>

lemma of_char_less [simp]: "of_char c < (256 :: nat)"
  using of_char_mod_256[of c, where 'a = nat] by (metis mod_less_divisor zero_less_numeral)

lemma unat_digit: "unat (digit c) = (if 48 \<le> (of_char c :: nat) then of_char c - 48 else of_char c + 208)"
proof -
  have "unat (of_nat (of_char c) :: u8) = of_char c" by (simp only: unat_of_nat) simp
  then have "unat (of_char c :: u8) = of_char c" by (simp only: of_nat_of_char)
  then show ?thesis by (simp add: digit_def unat_sub_if')
qed

lemma digit_less: "digit c < 10 \<longleftrightarrow> 48 \<le> (of_char c :: nat) \<and> (of_char c :: nat) \<le> 57"
  by (auto simp: word_less_nat_alt unat_digit)

lemma digit_bound: "unat (digit c) < 2 ^ 64"
  using unsigned_less[of "digit c", where 'a = nat] by simp

lemma digit_char: "d < 10 \<Longrightarrow> unat (digit (char_of (48 + d))) = d"
  by (simp add: unat_digit)

lemma show_nat_digits: "\<forall>c\<in>set (show_nat n). digit c < 10"
proof (induction n rule: show_nat.induct)
  case (1 n)
  have d: "digit (char_of (48 + k)) < 10" if "k < 10" for k :: nat
    using digit_char[OF that] that by (simp add: word_less_nat_alt)
  show ?case
    using 1 d[of n] d[of "n mod 10"] by (subst show_nat.simps) auto
qed

lemma show_nat_nonempty [simp]: "show_nat n \<noteq> []"
  by (subst show_nat.simps) simp

lemma const_digits_append:
  "const_digits msg n (xs @ ys) = obind (const_digits msg n xs) (\<lambda>m. const_digits msg m ys)"
proof (induction xs arbitrary: n)
  case (Cons c cs)
  show ?case
    by (cases "digit c < 10"; cases "mul_op n 10") (auto simp: Cons.IH obind_def Let_def split: sum.splits)
qed simp

lemma const_digits_char:
  assumes "10 * m + d < 2 ^ 64" "d < 10"
  shows "const_digits msg (of_nat m) [char_of (48 + d)] = Inr (of_nat (10 * m + d))"
proof -
  let ?c = "char_of (48 + d) :: char"
  have u: "unat (digit ?c) = d" using assms(2) by (rule digit_char)
  have m: "unat (of_nat m :: u64) = m" "unat (10 :: u64) = 10" using assms by (simp_all add: unat_of_nat)
  have "mul_op (of_nat m) (10 :: u64) = Inr (of_nat m * 10)"
    using assms m by (simp add: mul_op_def checked_mul_def)
  moreover have "unat (of_nat m * 10 :: u64) = 10 * m" using assms m by (simp add: unat_word_ariths)
  moreover have "unat (ucast (digit ?c) :: u64) = d" using u digit_bound[of ?c] by (simp add: unsigned_ucast_eq take_bit_nat_eq_self)
  ultimately have "add_op (of_nat m * 10 :: u64) (ucast (digit ?c)) = Inr (of_nat m * 10 + ucast (digit ?c))"
    using assms by (simp add: add_op_def checked_add_def)
  moreover have "ucast (digit ?c) = (of_nat d :: u64)" using u by (simp add: word_unat_eq_iff unsigned_ucast_eq take_bit_nat_eq_self unat_of_nat take_bit_eq_mod)
  moreover have "digit ?c < 10" using u assms(2) by (simp add: word_less_nat_alt)
  ultimately show ?thesis using \<open>mul_op _ _ = _\<close> by (simp add: mult.commute)
qed

lemma const_digits_show: "n < 2 ^ 64 \<Longrightarrow> const_digits msg 0 (show_nat n) = Inr (of_nat n)"
proof (induction n rule: show_nat.induct)
  case (1 n)
  show ?case
  proof (cases "n < 10")
    case True
    then show ?thesis using const_digits_char[of 0 n] by (subst show_nat.simps) simp
  next
    case False
    then have "const_digits msg 0 (show_nat (n div 10)) = Inr (of_nat (n div 10))" using 1 by simp
    then show ?thesis
      using False 1(2) const_digits_char[of "n div 10" "n mod 10"]
      by (subst show_nat.simps) (simp add: const_digits_append)
  qed
qed

lemma parse_u64_from_eq:
  "parse_u64_from n s = (case const_digits msg n s of Inr m \<Rightarrow> Some m | Inl _ \<Rightarrow> None)"
  by (induction s arbitrary: n) (auto simp: mul_op_def add_op_def Let_def split: option.splits)

lemma parse_u64_show: "parse_u64 (show_u64 n) = Some n"
proof -
  have "\<not> digit (CHR ''+'') < 10" by (simp add: digit_less)
  then have "hd (show_nat (unat n)) \<noteq> CHR ''+''" using show_nat_digits[of "unat n"]
    by (metis show_nat_nonempty hd_in_set)
  then have "strip_prefix CHR ''+'' (show_u64 n) = None" by (simp add: strip_prefix_def show_u64_def)
  then show ?thesis
    using const_digits_show[of "unat n" "[]"] unat_u64_less[of n] parse_u64_from_eq[of 0 _ "[]"]
    by (simp add: parse_u64_def show_u64_def)
qed

lemma trim_by_id: "s \<noteq> [] \<Longrightarrow> \<not> p (hd s) \<Longrightarrow> \<not> p (last s) \<Longrightarrow> trim_by p s = s"
proof -
  assume s: "s \<noteq> []" "\<not> p (hd s)" "\<not> p (last s)"
  then have "dropWhile p s = s" by (cases s) auto
  moreover have "dropWhile p (rev s) = rev s" using s(1,3) by (cases s rule: rev_cases) auto
  ultimately show ?thesis by (simp add: trim_by_def)
qed

lemma show_u64_ends:
  "show_u64 n \<noteq> []" "digit (hd (show_u64 n)) < 10" "digit (last (show_u64 n)) < 10"
  using show_nat_digits[of "unat n"] by (simp_all add: show_u64_def)

lemma digit_plain:
  assumes "digit c < 10"
  shows "\<not> white c" "c \<notin> {CHR ''K'', CHR ''k''}" "c \<notin> {CHR ''M'', CHR ''m''}" "c \<notin> {CHR ''G'', CHR ''g''}"
    "c \<notin> {CHR ''B'', CHR ''b''}"
  using assms by (auto simp: digit_less white_def Let_def)

text \<open>What a configured policy name promises about the two Cargo features that select a policy.\<close>

definition agrees :: "string \<Rightarrow> string \<Rightarrow> bool \<Rightarrow> bool \<Rightarrow> string option \<Rightarrow> bool" where
  "agrees first second f g cfg \<longleftrightarrow>
     cfg = None \<or> cfg = Some first \<and> f \<and> \<not> g \<or> cfg = Some second \<and> g \<and> \<not> f"

lemma feature_check_ok: "feature_check msg first second f g cfg = Inr u \<longleftrightarrow> agrees first second f g cfg"
  by (cases cfg) (simp_all add: feature_check_def agrees_def)

section \<open>The shipped configuration\<close>

text \<open>\<open>config/kernel_config.toml\<close> without its comment lines and the comment after \<open>cpu\<close>.\<close>

definition shipped_config :: string where
  "shipped_config = concat (map (\<lambda>l. l @ [CHR 0x0A])
     [''[arch]'', ''target = \"x86_64-unknown-none\"'', ''cpu = \"x86-64-v2\"'',
      ''[sched]'', ''default = \"rr\" # rr | cfs'', ''quantum_us = 1000'',
      ''[memory]'', ''phys_offset = \"0xFFFF800000000000\"'', ''heap_size_kb = 1024'', ''stack_size = \"128K\"'', ''frame_allocator = \"buddy\" # bump | buddy'', ''self_test = true'',
      ''[drivers]'', ''uart = true'', ''virtio = true'', ''ps2kbd = false'',
      ''[log]'', ''level = \"info\" # trace | debug | info | warn | error'',
      ''[qemu]'', ''machine = \"q35\"'', ''memory = \"512M\"'', ''smp = 2'', ''display = \"none\"'', ''serial = \"stdio\"'', ''extra_args = \"-no-reboot -no-shutdown\"''])"

lemma shipped_lines: "text_lines shipped_config =
     [''[arch]'', ''target = \"x86_64-unknown-none\"'', ''cpu = \"x86-64-v2\"'',
      ''[sched]'', ''default = \"rr\" # rr | cfs'', ''quantum_us = 1000'',
      ''[memory]'', ''phys_offset = \"0xFFFF800000000000\"'', ''heap_size_kb = 1024'', ''stack_size = \"128K\"'', ''frame_allocator = \"buddy\" # bump | buddy'', ''self_test = true'',
      ''[drivers]'', ''uart = true'', ''virtio = true'', ''ps2kbd = false'',
      ''[log]'', ''level = \"info\" # trace | debug | info | warn | error'',
      ''[qemu]'', ''machine = \"q35\"'', ''memory = \"512M\"'', ''smp = 2'', ''display = \"none\"'', ''serial = \"stdio\"'', ''extra_args = \"-no-reboot -no-shutdown\"'']"
  by code_simp

lemma shipped_headers:
  "build_line ''[arch]'' b = Inr (b\<lparr>section_name := ''ARCH''\<rparr>)"
  "build_line ''[sched]'' b = Inr (b\<lparr>section_name := ''SCHED''\<rparr>)"
  "build_line ''[memory]'' b = Inr (b\<lparr>section_name := ''MEMORY''\<rparr>)"
  "build_line ''[drivers]'' b = Inr (b\<lparr>section_name := ''DRIVERS''\<rparr>)"
  "build_line ''[log]'' b = Inr (b\<lparr>section_name := ''LOG''\<rparr>)"
  "build_line ''[qemu]'' b = Inr (b\<lparr>section_name := ''QEMU''\<rparr>)"
  by code_simp+

text \<open>A line with an entry, once key and value are known.\<close>

definition entry_line :: "string \<Rightarrow> string \<Rightarrow> string \<Rightarrow> bool" where
  "entry_line raw u w \<longleftrightarrow> trim raw \<noteq> [] \<and> \<not> starts_with CHR ''#'' (trim raw) \<and>
     Option.bind (strip_prefix CHR ''['' (trim raw)) (strip_suffix {CHR '']''}) = None \<and>
     (case split_once CHR ''='' (trim (before_char CHR ''#'' (trim raw))) of
        Some (k, v) \<Rightarrow> map upper_char (key_name k) = u \<and> trim (trim_by (\<lambda>c. c = CHR 0x22) (trim v)) = w
      | None \<Rightarrow> False)"

lemma emit_section [simp]: "section_name (emit k v b) = section_name b"
  by (simp add: emit_def)

lemma entry_line_cases:
  assumes "entry_line raw u w"
  obtains k v where "build_line raw b = build_entry k v b" "map upper_char (key_name k) = u" "trim (trim_by (\<lambda>c. c = CHR 0x22) (trim v)) = w"
  using assms by (cases "split_once CHR ''='' (trim (before_char CHR ''#'' (trim raw)))") (auto simp: entry_line_def build_line_def Let_def)

lemma plain_entry:
  assumes "entry_line raw u w" "u \<noteq> ''HEAP_SIZE_KB''" "u \<noteq> ''STACK_SIZE''" "section_name b \<noteq> []"
  shows "build_line raw b =
    (let b = emit (''KERNEL_CONFIG_'' @ u) w (emit (''KERNEL_CONFIG_'' @ section_name b @ ''_'' @ u) w b);
         b = (if section_name b = ''MEMORY'' \<and> u = ''FRAME_ALLOCATOR'' then b\<lparr>frame_allocator_cfg := Some (map lower_char w)\<rparr> else b) in
     Inr (if section_name b = ''SCHED'' \<and> u = ''DEFAULT'' then b\<lparr>sched_cfg := Some (map lower_char w)\<rparr> else b))"
  using assms(1)
proof (cases rule: entry_line_cases[where b = b])
  case (1 k v)
  show ?thesis unfolding 1(1) build_entry_def Let_def 1(2,3) using assms(2-4) by simp
qed

lemma size_entry:
  assumes "section_name b = ''MEMORY''"
  shows "entry_line raw ''HEAP_SIZE_KB'' w \<Longrightarrow> parse_u64 w = Some kb \<Longrightarrow> mul_op kb 1024 = Inr n \<Longrightarrow>
      build_line raw b = Inr (emit ''KERNEL_CONFIG_HEAP_SIZE_BYTES'' (show_u64 n)
        (emit ''KERNEL_CONFIG_HEAP_SIZE_KB'' w (emit ''KERNEL_CONFIG_MEMORY_HEAP_SIZE_KB'' w b)))"
    and "entry_line raw ''STACK_SIZE'' w \<Longrightarrow> parse_size_bytes w = Some n \<Longrightarrow>
      build_line raw b = Inr (emit ''KERNEL_CONFIG_STACK_SIZE_BYTES'' (show_u64 n)
        (emit ''KERNEL_CONFIG_STACK_SIZE'' w (emit ''KERNEL_CONFIG_MEMORY_STACK_SIZE'' w b)))"
proof -
  assume "entry_line raw ''HEAP_SIZE_KB'' w" "parse_u64 w = Some kb" "mul_op kb 1024 = Inr n"
  then show "build_line raw b = Inr (emit ''KERNEL_CONFIG_HEAP_SIZE_BYTES'' (show_u64 n)
        (emit ''KERNEL_CONFIG_HEAP_SIZE_KB'' w (emit ''KERNEL_CONFIG_MEMORY_HEAP_SIZE_KB'' w b)))"
    by (elim entry_line_cases[where b = b]) (simp add: build_entry_def assms Let_def)
next
  assume "entry_line raw ''STACK_SIZE'' w" "parse_size_bytes w = Some n"
  then show "build_line raw b = Inr (emit ''KERNEL_CONFIG_STACK_SIZE_BYTES'' (show_u64 n)
        (emit ''KERNEL_CONFIG_STACK_SIZE'' w (emit ''KERNEL_CONFIG_MEMORY_STACK_SIZE'' w b)))"
    by (elim entry_line_cases[where b = b]) (simp add: build_entry_def assms Let_def)
qed

lemma shipped_entries:
  "entry_line ''target = \"x86_64-unknown-none\"'' ''TARGET'' ''x86_64-unknown-none''"
  "entry_line ''cpu = \"x86-64-v2\"'' ''CPU'' ''x86-64-v2''"
  "entry_line ''default = \"rr\" # rr | cfs'' ''DEFAULT'' ''rr''"
  "entry_line ''quantum_us = 1000'' ''QUANTUM_US'' ''1000''"
  "entry_line ''phys_offset = \"0xFFFF800000000000\"'' ''PHYS_OFFSET'' ''0xFFFF800000000000''"
  "entry_line ''frame_allocator = \"buddy\" # bump | buddy'' ''FRAME_ALLOCATOR'' ''buddy''"
  "entry_line ''self_test = true'' ''SELF_TEST'' ''true''"
  "entry_line ''uart = true'' ''UART'' ''true''"
  "entry_line ''virtio = true'' ''VIRTIO'' ''true''"
  "entry_line ''ps2kbd = false'' ''PS2KBD'' ''false''"
  "entry_line ''level = \"info\" # trace | debug | info | warn | error'' ''LEVEL'' ''info''"
  "entry_line ''machine = \"q35\"'' ''MACHINE'' ''q35''"
  "entry_line ''memory = \"512M\"'' ''MEMORY'' ''512M''"
  "entry_line ''smp = 2'' ''SMP'' ''2''"
  "entry_line ''display = \"none\"'' ''DISPLAY'' ''none''"
  "entry_line ''serial = \"stdio\"'' ''SERIAL'' ''stdio''"
  "entry_line ''extra_args = \"-no-reboot -no-shutdown\"'' ''EXTRA_ARGS'' ''-no-reboot -no-shutdown''"
  by code_simp+

lemma shipped_sizes:
  "entry_line ''heap_size_kb = 1024'' ''HEAP_SIZE_KB'' ''1024''"
  "entry_line ''stack_size = \"128K\"'' ''STACK_SIZE'' ''128K''"
  by code_simp+

lemma shipped_numbers:
  "parse_u64 ''1024'' = Some 1024" "mul_op (1024 :: u64) 1024 = Inr 1048576" "parse_size_bytes ''128K'' = Some 131072"
  "parse_heap_bytes (show_u64 n) = Inr n" "parse_stack_bytes (show_u64 n) = Inr n"
proof -
  have s: "show_u64 1024 = ''1024''" "show_u64 128 = ''128''"
    by (simp_all add: show_u64_def show_nat.simps, code_simp+)
  show "parse_u64 ''1024'' = Some 1024" using parse_u64_show[of 1024] s(1) by simp
  show "mul_op (1024 :: u64) 1024 = Inr 1048576" by (simp add: mul_op_def checked_mul_def)
  have "trim ''128K'' = ''128K''" "strip_suffix {CHR ''K'', CHR ''k''} ''128K'' = Some ''128''"
      "trim_end_by (\<lambda>c. c \<in> {CHR ''B'', CHR ''b''}) ''128'' = ''128''" by code_simp+
  then show "parse_size_bytes ''128K'' = Some 131072"
    using parse_u64_show[of 128] s(2) by (simp add: parse_size_bytes_def checked_mul_def)
  have "const_digits msg 0 (show_u64 n) = Inr n" for msg
    using const_digits_show[of "unat n"] unat_u64_less[of n] by (simp add: show_u64_def)
  then show "parse_heap_bytes (show_u64 n) = Inr n" "parse_stack_bytes (show_u64 n) = Inr n"
    by (simp_all add: parse_heap_bytes_def parse_stack_bytes_def)
qed

lemma shipped_build:
  "build_lines (text_lines shipped_config) build_start = Inr \<lparr>section_name = ''QEMU'', frame_allocator_cfg = Some ''buddy'', sched_cfg = Some ''rr'',
     rustc_env =
       [(''KERNEL_CONFIG_ARCH_TARGET'', ''x86_64-unknown-none''), (''KERNEL_CONFIG_TARGET'', ''x86_64-unknown-none''),
        (''KERNEL_CONFIG_ARCH_CPU'', ''x86-64-v2''), (''KERNEL_CONFIG_CPU'', ''x86-64-v2''),
        (''KERNEL_CONFIG_SCHED_DEFAULT'', ''rr''), (''KERNEL_CONFIG_DEFAULT'', ''rr''),
        (''KERNEL_CONFIG_SCHED_QUANTUM_US'', ''1000''), (''KERNEL_CONFIG_QUANTUM_US'', ''1000''),
        (''KERNEL_CONFIG_MEMORY_PHYS_OFFSET'', ''0xFFFF800000000000''), (''KERNEL_CONFIG_PHYS_OFFSET'', ''0xFFFF800000000000''),
        (''KERNEL_CONFIG_MEMORY_HEAP_SIZE_KB'', ''1024''), (''KERNEL_CONFIG_HEAP_SIZE_KB'', ''1024''),
        (''KERNEL_CONFIG_HEAP_SIZE_BYTES'', show_u64 1048576), (''KERNEL_CONFIG_MEMORY_STACK_SIZE'', ''128K''),
        (''KERNEL_CONFIG_STACK_SIZE'', ''128K''), (''KERNEL_CONFIG_STACK_SIZE_BYTES'', show_u64 131072),
        (''KERNEL_CONFIG_MEMORY_FRAME_ALLOCATOR'', ''buddy''), (''KERNEL_CONFIG_FRAME_ALLOCATOR'', ''buddy''),
        (''KERNEL_CONFIG_MEMORY_SELF_TEST'', ''true''), (''KERNEL_CONFIG_SELF_TEST'', ''true''),
        (''KERNEL_CONFIG_DRIVERS_UART'', ''true''), (''KERNEL_CONFIG_UART'', ''true''),
        (''KERNEL_CONFIG_DRIVERS_VIRTIO'', ''true''), (''KERNEL_CONFIG_VIRTIO'', ''true''),
        (''KERNEL_CONFIG_DRIVERS_PS2KBD'', ''false''), (''KERNEL_CONFIG_PS2KBD'', ''false''),
        (''KERNEL_CONFIG_LOG_LEVEL'', ''info''), (''KERNEL_CONFIG_LEVEL'', ''info''),
        (''KERNEL_CONFIG_QEMU_MACHINE'', ''q35''), (''KERNEL_CONFIG_MACHINE'', ''q35''),
        (''KERNEL_CONFIG_QEMU_MEMORY'', ''512M''), (''KERNEL_CONFIG_MEMORY'', ''512M''),
        (''KERNEL_CONFIG_QEMU_SMP'', ''2''), (''KERNEL_CONFIG_SMP'', ''2''),
        (''KERNEL_CONFIG_QEMU_DISPLAY'', ''none''), (''KERNEL_CONFIG_DISPLAY'', ''none''),
        (''KERNEL_CONFIG_QEMU_SERIAL'', ''stdio''), (''KERNEL_CONFIG_SERIAL'', ''stdio''),
        (''KERNEL_CONFIG_QEMU_EXTRA_ARGS'', ''-no-reboot -no-shutdown''), (''KERNEL_CONFIG_EXTRA_ARGS'', ''-no-reboot -no-shutdown'')]\<rparr>"
proof -
  have low: "lower_char CHR ''b'' = CHR ''b''" "lower_char CHR ''u'' = CHR ''u''" "lower_char CHR ''d'' = CHR ''d''"
      "lower_char CHR ''y'' = CHR ''y''" "lower_char CHR ''r'' = CHR ''r''" by code_simp+
  note plain = shipped_entries[THEN plain_entry]
  show ?thesis
    by (simp add: shipped_lines shipped_headers plain
        size_entry(1)[OF _ shipped_sizes(1) shipped_numbers(1,2)] size_entry(2)[OF _ shipped_sizes(2) shipped_numbers(3)]
        low Let_def)
      (simp add: emit_def build_start_def)
qed

abbreviation default_features :: features where
  "default_features \<equiv> \<lparr>ALLOC_BUMP = False, ALLOC_BUDDY = True, SCHED_RR = True, SCHED_CFS = False\<rparr>"

lemma shipped_compiles:
  "compile_kernel (Some shipped_config) default_features = Inr \<lparr>HEAP_SIZE = 1048576, stack_bytes = 131072, SELF_TEST = True\<rparr>"
  by (simp add: compile_kernel_def build_main_def shipped_build feature_check_def allocator_gate_def scheduler_gate_def env_var_def
      shipped_numbers(4,5))

section \<open>Properties\<close>

text \<open>
  C37. Sizes survive the trip from the configuration file into the kernel's constants: a decimal number
  with the suffix K, M or G, or with none, is read by \<open>parse_size_bytes\<close> as the number of bytes it
  means (and refused exactly when that does not fit 64 bits), and the decimal form the build script
  prints is read back unchanged by the constant parsers of the task stacks and of the heap.
\<close>

theorem size_round_trip:
  "parse_size_bytes (show_u64 n @ ''K'') = checked_mul n 1024 \<and>
   parse_size_bytes (show_u64 n @ ''M'') = checked_mul n (1024 * 1024) \<and>
   parse_size_bytes (show_u64 n @ ''G'') = checked_mul n (1024 * 1024 * 1024) \<and>
   parse_size_bytes (show_u64 n) = Some n \<and>
   parse_stack_bytes (show_u64 n) = Inr n \<and> parse_heap_bytes (show_u64 n) = Inr n"
proof -
  note e = show_u64_ends[of n]
  have ends: "\<not> white (hd (show_u64 n))" "\<not> white (last (show_u64 n))"
    using e digit_plain(1) by blast+
  have trim: "trim (show_u64 n @ [c]) = show_u64 n @ [c]" if "\<not> white c" for c
    using that ends e(1) by (intro trim_by_id) auto
  have plain: "trim (show_u64 n) = show_u64 n" using e(1) ends by (rule trim_by_id)
  have tail: "trim_end_by (\<lambda>c. c = CHR ''B'' \<or> c = CHR ''b'') (show_u64 n) = show_u64 n"
    using e digit_plain(5)[OF e(3)] by (cases "show_u64 n" rule: rev_cases) (auto simp: trim_end_by_def)
  have "parse_size_bytes (show_u64 n @ ''K'') = checked_mul n 1024"
    using trim[of "CHR ''K''"] tail by (simp add: parse_size_bytes_def strip_suffix_def white_def parse_u64_show)
  moreover have "parse_size_bytes (show_u64 n @ ''M'') = checked_mul n (1024 * 1024)"
    using trim[of "CHR ''M''"] tail by (simp add: parse_size_bytes_def strip_suffix_def white_def parse_u64_show)
  moreover have "parse_size_bytes (show_u64 n @ ''G'') = checked_mul n (1024 * 1024 * 1024)"
    using trim[of "CHR ''G''"] tail by (simp add: parse_size_bytes_def strip_suffix_def white_def parse_u64_show)
  moreover have "parse_size_bytes (show_u64 n) = Some n"
    using plain e(1) digit_plain[OF e(3)]
    by (simp add: parse_size_bytes_def strip_suffix_def parse_u64_show checked_mul_def unat_u64_less[simplified])
  moreover have "const_digits msg 0 (show_u64 n) = Inr n" for msg
    using const_digits_show[of "unat n"] unat_u64_less[of n] by (simp add: show_u64_def)
  ultimately show ?thesis by (simp add: parse_stack_bytes_def parse_heap_bytes_def)
qed

text \<open>
  C39. The spelling with a trailing B, which the comments of \<open>build.rs\<close> announce, is always refused:
  whatever stands before KB, MB or GB, the value has no size.
\<close>

theorem size_with_B_refused:
  "parse_size_bytes (v @ ''KB'') = None \<and> parse_size_bytes (v @ ''MB'') = None \<and> parse_size_bytes (v @ ''GB'') = None"
proof -
  have bad: "const_digits [] n (xs @ [CHR ''B'']) \<noteq> Inr m" for n m xs
    by (cases "const_digits [] n xs") (simp_all add: const_digits_append digit_less)
  have u: "parse_u64 (xs @ [CHR ''B'']) = None" for xs
  proof -
    have "\<exists>ys. (case strip_prefix CHR ''+'' (xs @ [CHR ''B'']) of Some r \<Rightarrow> r | None \<Rightarrow> xs @ [CHR ''B'']) = ys @ [CHR ''B'']"
      by (cases xs) (auto simp: strip_prefix_def)
    then show ?thesis using bad by (auto simp: parse_u64_def parse_u64_from_eq[of _ _ "[]"] split: sum.splits)
  qed
  have w: "\<exists>w. trim (v @ [c, CHR ''B'']) = w @ [CHR ''B'']" if "\<not> white c" for c
    using that by (cases "\<forall>x\<in>set v. white x") (auto simp: trim_by_def white_def dropWhile_append)
  have "parse_size_bytes (v @ [c, CHR ''B'']) = None" if c: "\<not> white c" for c
  proof -
    obtain w where "trim (v @ [c, CHR ''B'']) = w @ [CHR ''B'']" using w[OF c] by (elim exE)
    then show ?thesis using u by (simp add: parse_size_bytes_def strip_suffix_def)
  qed
  from this[of "CHR ''K''"] this[of "CHR ''M''"] this[of "CHR ''G''"] show ?thesis by (simp add: white_def)
qed


end
