(* ===== verification/Task.thy ===== *)
theory Task
  imports Switch Config
begin

text \<open>
  Tasks (\<open>kernel/src/task.rs\<close>): stacks, construction, the slot table, and one turn of a task from
  the moment the driver switches to it until it yields back.

  The boxed tasks are a store from box addresses to task records; a queue holds addresses, as the
  \<open>VecDeque<Box<Task>>\<close> does. Memory is the cells of the stacks. What the closures of the tasks capture and
  touch besides is one value of a type parameter, the world. A step is a function of
  the number of timer interrupts that hit it, of the world and of memory; it has no result if it
  does not return with so many interrupts.

  A turn is seen from the statics: where \<open>context_switch\<close> enters and leaves a stack is shown on the
  instruction level in \<open>Switch\<close>, what a timer interrupt does to the statics in \<open>Stub\<close>. The three places
  a timer interrupt can hit on a task's stack are kept apart: after \<open>sti\<close> and before the
  fence goes up, while the fence is up, and after it went down. Where the kernel stops for good (a panic,
  a halt loop, a step that does not return) the outcome is an \<open>Inl\<close>.
\<close>

definition STACK_CANARY :: u64 where
  "STACK_CANARY = 0xDEADBEEFCAFEF00D"

definition STACK_ALIGN :: u64 where
  "STACK_ALIGN = 16"

text \<open>The stack size of the shipped configuration, in bytes.\<close>

definition STACK_SIZE_BYTES :: u64 where
  "STACK_SIZE_BYTES = 131072"

definition STACK_ALLOC_BYTES :: u64 where
  "STACK_ALLOC_BYTES = STACK_SIZE_BYTES + STACK_ALIGN"

text \<open>The compile-time capacity check, for a given heap size.\<close>

definition stacks_fit :: "u64 \<Rightarrow> bool" where
  "stacks_fit heap_size \<longleftrightarrow> MAX_TASKS * unat STACK_ALLOC_BYTES \<le> unat heap_size"

record TaskStack =
  backing :: u64
  top_addr :: u64
  bottom :: u64

datatype TaskState = Ready | Running | Sleeping u64 | Finished

type_synonym cells_of = "u64 \<Rightarrow> u64"
type_synonym 'w step = "nat \<Rightarrow> 'w \<Rightarrow> cells_of \<Rightarrow> (bool \<times> 'w \<times> cells_of) option"

text \<open>
  \<open>entered\<close> tells whether the saved return address is the trampoline (a task that has never run) or
  lies behind the yield of the trampoline's loop. \<open>vruntime\<close> and \<open>weight\<close> exist under \<open>sched-cfs\<close>
  only; nothing reads them under \<open>sched-rr\<close>.
\<close>

record 'w Task =
  task_id :: u64
  task_name :: string
  state :: TaskState
  runs :: u64
  vruntime :: u64
  weight :: u32
  stack :: TaskStack
  ctx :: u64
  entered :: bool
  preempt :: FullFrame
  slot :: u8
  step :: "'w step"

record 'w kernel =
  pre :: statics
  TASK_PTRS :: "u64 option list"
  boxes :: "u64 \<rightharpoonup> 'w Task"
  kmem :: cells_of
  irq_enabled :: bool
  RSP0 :: u64
  TRAMPOLINE_ENTRY_RSP :: u64
  world :: 'w

definition kernel_boot :: "'w \<Rightarrow> 'w kernel" where
  "kernel_boot w = \<lparr>pre = statics_boot, TASK_PTRS = replicate MAX_TASKS None, boxes = Map.empty, kmem = (\<lambda>_. 0),
     irq_enabled = True, RSP0 = 0, TRAMPOLINE_ENTRY_RSP = 0, world = w\<rparr>"

section \<open>Building a task\<close>

text \<open>
  \<open>raw\<close> is the address the heap hands out for the backing store, which arrives zeroed.
\<close>

definition zeroed :: "u64 \<Rightarrow> u64 \<Rightarrow> cells_of \<Rightarrow> cells_of" where
  "zeroed raw n M = (\<lambda>a. if unat raw \<le> unat a \<and> unat a < unat raw + unat n then 0 else M a)"

definition TaskStack_new :: "u64 \<Rightarrow> cells_of \<Rightarrow> (TaskStack \<times> cells_of) outcome" where
  "TaskStack_new raw M =
     (let M = zeroed raw STACK_ALLOC_BYTES M in
      obind (next_multiple_of raw STACK_ALIGN) (\<lambda>btm.
      obind (add_op btm STACK_SIZE_BYTES) (\<lambda>tp.
      obind (assert_that (btm mod STACK_ALIGN = 0) ''stack bottom misaligned after align-up'') (\<lambda>_.
      obind (assert_that (tp mod STACK_ALIGN = 0) ''stack top misaligned'') (\<lambda>_.
      obind (add_op raw STACK_ALLOC_BYTES) (\<lambda>limit.
      obind (assert_that (tp \<le> limit) ''aligned stack window escaped its backing allocation'') (\<lambda>_.
        Inr (\<lparr>backing = raw, top_addr = tp, bottom = btm\<rparr>, M(btm := STACK_CANARY)))))))))"

definition canary_ok :: "cells_of \<Rightarrow> TaskStack \<Rightarrow> bool" where
  "canary_ok M s \<longleftrightarrow> M (bottom s) = STACK_CANARY"

definition CFS_DEFAULT_WEIGHT :: u32 where
  "CFS_DEFAULT_WEIGHT = 1024"

definition CFS_BASE_SLICE :: u64 where
  "CFS_BASE_SLICE = 100"

definition alloc_slot :: "statics \<Rightarrow> u8 outcome" where
  "alloc_slot p =
     (case find (\<lambda>idx. SLOT_USED p AND push_bit idx 1 = 0) [0..<MAX_TASKS] of
        Some idx \<Rightarrow> Inr (of_nat idx)
      | None \<Rightarrow> Inl (Failed ''preempt: task table full''))"

text \<open>
  The body that \<open>Task::new\<close> and \<open>Task::sleeping\<close> share word for word. The address of the trampoline
  and the code selector in \<open>CS\<close> are arguments.
\<close>

record site =
  heap_addr :: u64
  trampoline :: u64
  code_selector :: u16

definition Task_build ::
  "site \<Rightarrow> u64 \<Rightarrow> string \<Rightarrow> TaskState \<Rightarrow> 'w step \<Rightarrow> 'w kernel \<Rightarrow> ('w Task \<times> 'w kernel) outcome" where
  "Task_build e tid nm st f k =
     obind (TaskStack_new (heap_addr e) (kmem k)) (\<lambda>(stk, M).
     obind (init_task_context (trampoline e) (top_addr stk) M) (\<lambda>(c, M).
     obind (fresh (trampoline e) (code_selector e) (top_addr stk)) (\<lambda>fr.
     obind (assert_that (valid_for fr (bottom stk) (top_addr stk)) ''fresh preempt frame failed its own validation'') (\<lambda>_.
     obind (alloc_slot (pre k)) (\<lambda>sl.
     obind (register_task (unat sl) fr (pre k)) (\<lambda>p.
     obind (set_slot_bounds (unat sl) (bottom stk) (top_addr stk) p) (\<lambda>p.
       Inr (\<lparr>task_id = tid, task_name = nm, state = st, runs = 0, vruntime = 0, weight = CFS_DEFAULT_WEIGHT,
              stack = stk, ctx = c, entered = False, preempt = fr, slot = sl, step = f\<rparr>,
            k\<lparr>pre := p, kmem := M\<rparr>))))))))"

definition Task_new :: "site \<Rightarrow> u64 \<Rightarrow> string \<Rightarrow> 'w step \<Rightarrow> 'w kernel \<Rightarrow> ('w Task \<times> 'w kernel) outcome" where
  "Task_new e tid nm f k = Task_build e tid nm Ready f k"

definition Task_sleeping ::
  "site \<Rightarrow> u64 \<Rightarrow> string \<Rightarrow> u64 \<Rightarrow> 'w step \<Rightarrow> 'w kernel \<Rightarrow> ('w Task \<times> 'w kernel) outcome" where
  "Task_sleeping e tid nm until_tick f k = Task_build e tid nm (Sleeping until_tick) f k"

definition with_weight :: "u32 \<Rightarrow> 'w Task \<Rightarrow> 'w Task outcome" where
  "with_weight w t = obind (assert_that (w > 0) ''task weight must be > 0'') (\<lambda>_. Inr (t\<lparr>weight := w\<rparr>))"

section \<open>The slot table\<close>

definition task_at :: "nat \<Rightarrow> 'w kernel \<Rightarrow> u64 option" where
  "task_at idx k = (if MAX_TASKS \<le> idx then None else TASK_PTRS k ! idx)"

definition set_task_ptr :: "nat \<Rightarrow> u64 \<Rightarrow> 'w kernel \<Rightarrow> 'w kernel outcome" where
  "set_task_ptr idx p k =
     obind (assert_that (idx < MAX_TASKS) ''slot overflow in TASK_PTRS'') (\<lambda>_.
       Inr (k\<lparr>TASK_PTRS := (TASK_PTRS k)[idx := Some p]\<rparr>))"

definition clear_task_ptr :: "nat \<Rightarrow> 'w kernel \<Rightarrow> 'w kernel" where
  "clear_task_ptr idx k =
     (if idx < MAX_TASKS then k\<lparr>TASK_PTRS := (TASK_PTRS k)[idx := None]\<rparr> else k)"

definition current_task :: "'w kernel \<Rightarrow> u64 outcome" where
  "current_task k =
     (case task_at (current_idx (pre k)) k of
        Some p \<Rightarrow> Inr p
      | None \<Rightarrow> Inl (Failed ''trampoline on stack of unregistered slot''))"

text \<open>Following a task pointer; a pointer to a dropped box would be undefined behaviour.\<close>

definition deref :: "u64 \<Rightarrow> 'w kernel \<Rightarrow> 'w Task outcome" where
  "deref p k = (case boxes k p of Some t \<Rightarrow> Inr t | None \<Rightarrow> Inl (Failed ''dangling task pointer''))"

section \<open>A turn of a task\<close>

text \<open>
  The timer interrupts of one turn, each as the frame the stub would store, and the stack pointer
  with which the task yields. A schedule of interrupts gives the turn of each box.
\<close>

record irqs =
  before_fence :: "FullFrame list"
  in_step :: "FullFrame list"
  after_fence :: "FullFrame list"
  yield_rsp :: u64

abbreviation ticks_hit :: "FullFrame list \<Rightarrow> statics \<Rightarrow> statics" where
  "ticks_hit fs p \<equiv> fold stub_effect fs p"

text \<open>Landing on the stack: a task that never ran passes the entry assertion of the trampoline.\<close>

definition trampoline_entry :: "u64 \<Rightarrow> 'w kernel \<Rightarrow> 'w kernel outcome" where
  "trampoline_entry p k =
     obind (deref p k) (\<lambda>t.
       if entered t then Inr k
       else
         let rsp = ctx t + 56; k = k\<lparr>TRAMPOLINE_ENTRY_RSP := rsp, boxes := (boxes k)(p \<mapsto> t\<lparr>entered := True\<rparr>)\<rparr> in
         obind (assert_that (rsp mod 16 = 8) ''ABI violation: task entered with a misaligned rsp'') (\<lambda>_. Inr k))"

text \<open>One iteration of the loop of \<open>task_trampoline_body\<close>, up to the switch back.\<close>

definition trampoline_loop :: "(u64 \<Rightarrow> irqs) \<Rightarrow> 'w kernel \<Rightarrow> 'w kernel outcome" where
  "trampoline_loop irq k =
     obind (current_task k) (\<lambda>p.
     obind (deref p k) (\<lambda>t.
       if \<not> canary_ok (kmem k) (stack t) then Inl (Failed ''sched FAILED: stack overflow (canary trashed)'')
       else
         let i = irq p;
             s = set_preemptible True (ticks_hit (before_fence i) (pre k));
             s = ticks_hit (in_step i) s in
         case step t (length (in_step i)) (world k) (kmem k) of
           None \<Rightarrow> Inl (Failed ''the step does not return'')
         | Some (alive, w, M) \<Rightarrow>
             obind (add_op (runs t) 1) (\<lambda>n.
               let s = ticks_hit (after_fence i) (set_preemptible False s);
                   t = t\<lparr>runs := n, state := (if alive then Ready else Finished), ctx := yield_rsp i\<rparr> in
               Inr (k\<lparr>pre := s, boxes := (boxes k)(p \<mapsto> t), kmem := M, world := w, irq_enabled := False\<rparr>))))"

text \<open>\<open>gdt::set_rsp0\<close>: \<open>VirtAddr::new\<close> panics on an address that is not canonical.\<close>

definition set_rsp0 :: "u64 \<Rightarrow> 'w kernel \<Rightarrow> 'w kernel outcome" where
  "set_rsp0 tp k = obind (assert_that (canonical tp) ''virtual address must be sign extended'') (\<lambda>_. Inr (k\<lparr>RSP0 := tp\<rparr>))"

definition switch_to_task :: "(u64 \<Rightarrow> irqs) \<Rightarrow> u64 \<Rightarrow> 'w kernel \<Rightarrow> 'w kernel outcome" where
  "switch_to_task irq p k =
     obind (deref p k) (\<lambda>t.
       let k = k\<lparr>pre := set_current (unat (slot t)) (pre k)\<rparr> in
       obind (set_rsp0 (top_addr (stack t)) k) (\<lambda>k.
       obind (trampoline_entry p (k\<lparr>irq_enabled := False\<rparr>)) (\<lambda>k.
       obind (trampoline_loop irq k) (\<lambda>k.
         Inr (k\<lparr>pre := set_current MAX_TASKS (pre k), irq_enabled := True\<rparr>)))))"

section \<open>What the two policies do with the task they picked\<close>

definition awake :: "u64 \<Rightarrow> 'w Task \<Rightarrow> bool" where
  "awake now t \<longleftrightarrow> (case state t of Sleeping until_tick \<Rightarrow> \<not> now < until_tick | _ \<Rightarrow> True)"

text \<open>Mark it running, switch to it, and check both frames once it is back.\<close>

definition dispatch :: "(u64 \<Rightarrow> irqs) \<Rightarrow> u64 \<Rightarrow> 'w kernel \<Rightarrow> 'w kernel outcome" where
  "dispatch irq p k =
     obind (deref p k) (\<lambda>t.
     obind (switch_to_task irq p (k\<lparr>boxes := (boxes k)(p \<mapsto> t\<lparr>state := Running\<rparr>)\<rparr>)) (\<lambda>k.
     obind (deref p k) (\<lambda>t.
     obind (assert_that (valid_for (preempt t) (bottom (stack t)) (top_addr (stack t))) ''fresh preempt template trashed'') (\<lambda>_.
     obind (frame_ok (unat (slot t)) (pre k)) (\<lambda>ok.
     obind (assert_that ok ''IRQ-stashed frame invalid or unregistered'') (\<lambda>_. Inr k))))))"

text \<open>Release the slot of a finished task, pointer first, and drop its box.\<close>

definition retire :: "u64 \<Rightarrow> 'w kernel \<Rightarrow> 'w kernel outcome" where
  "retire p k =
     obind (deref p k) (\<lambda>t.
       let k = clear_task_ptr (unat (slot t)) k in
       obind (unregister_task (unat (slot t)) (pre k)) (\<lambda>s.
         Inr (k\<lparr>pre := s, boxes := (boxes k)(p := None)\<rparr>)))"

section \<open>The invariant of the task table\<close>

text \<open>
  \<open>window_ok\<close>: a stack window whose addresses are all canonical. \<open>task_ok k p t\<close>: box \<open>p\<close> holds
  task \<open>t\<close> and every table knows it: pointer, bounds and a valid frame in its slot, the canary in
  place, and the entry parity of a task that has not run yet.
\<close>

definition window_ok :: "TaskStack \<Rightarrow> bool" where
  "window_ok s \<longleftrightarrow> 0 < bottom s \<and> bottom s < top_addr s \<and>
     (\<forall>a. bottom s \<le> a \<and> a \<le> top_addr s \<longrightarrow> canonical a)"

definition frame_in :: "statics \<Rightarrow> 'w Task \<Rightarrow> bool" where
  "frame_in p t \<longleftrightarrow> SLOT_BOUNDS p ! unat (slot t) = (bottom (stack t), top_addr (stack t)) \<and>
     valid_for (TASK_FRAMES p ! unat (slot t)) (bottom (stack t)) (top_addr (stack t))"

definition task_ok :: "'w kernel \<Rightarrow> u64 \<Rightarrow> 'w Task \<Rightarrow> bool" where
  "task_ok k p t \<longleftrightarrow> unat (slot t) < MAX_TASKS \<and> TASK_PTRS k ! unat (slot t) = Some p \<and> window_ok (stack t) \<and>
     frame_in (pre k) t \<and> valid_for (preempt t) (bottom (stack t)) (top_addr (stack t)) \<and>
     canary_ok (kmem k) (stack t) \<and> (\<not> entered t \<longrightarrow> (ctx t + 56) mod 16 = 8)"

text \<open>
  \<open>tables_ok q k\<close>: the boxes of the queue \<open>q\<close> are exactly the registered tasks. \<open>driving k\<close>: the
  driver has the processor, with the fence down, no current slot and interrupts on.
\<close>

definition tables_ok :: "u64 list \<Rightarrow> 'w kernel \<Rightarrow> bool" where
  "tables_ok q k \<longleftrightarrow> table_ok (pre k) \<and> length (TASK_PTRS k) = MAX_TASKS \<and> distinct q \<and>
     dom (boxes k) = set q \<and> (\<forall>p t. boxes k p = Some t \<longrightarrow> task_ok k p t) \<and>
     (\<forall>i<MAX_TASKS. bit (SLOT_USED (pre k)) i \<longleftrightarrow> TASK_PTRS k ! i \<noteq> None) \<and>
     (\<forall>i<MAX_TASKS. \<forall>p. TASK_PTRS k ! i = Some p \<longrightarrow> (\<exists>t. boxes k p = Some t \<and> unat (slot t) = i))"

definition driving :: "'w kernel \<Rightarrow> bool" where
  "driving k \<longleftrightarrow> PREEMPTIBLE (pre k) = 0 \<and> CURRENT_IDX (pre k) = of_nat MAX_TASKS \<and> irq_enabled k"

definition kernel_ok :: "u64 list \<Rightarrow> 'w kernel \<Rightarrow> bool" where
  "kernel_ok q k \<longleftrightarrow> tables_ok q k \<and> driving k"

text \<open>
  What a turn relies on: every frame an interrupt finds lies in the task's stack window, the step
  returns, and it leaves every canary alone.
\<close>

definition turn_ok :: "(u64 \<Rightarrow> irqs) \<Rightarrow> 'w kernel \<Rightarrow> u64 \<Rightarrow> 'w Task \<Rightarrow> bool" where
  "turn_ok irq k p t \<longleftrightarrow>
     (\<forall>f\<in>set (in_step (irq p)). bottom (stack t) \<le> f_rsp f \<and> f_rsp f \<le> top_addr (stack t)) \<and>
     runs t \<noteq> - 1 \<and>
     (case step t (length (in_step (irq p))) (world k) (kmem k) of
        None \<Rightarrow> False
      | Some (alive, w, M) \<Rightarrow> \<forall>u\<in>ran (boxes k). M (bottom (stack u)) = kmem k (bottom (stack u)))"

section \<open>Timer interrupts during a turn\<close>

lemma ticks_hit_simps [simp]:
  "PREEMPTIBLE (ticks_hit fs p) = PREEMPTIBLE p" "CURRENT_IDX (ticks_hit fs p) = CURRENT_IDX p"
  "SLOT_USED (ticks_hit fs p) = SLOT_USED p" "SLOT_BOUNDS (ticks_hit fs p) = SLOT_BOUNDS p"
  "current_idx (ticks_hit fs p) = current_idx p" "EOI_BASE (ticks_hit fs p) = EOI_BASE p"
  "table_ok (ticks_hit fs p) = table_ok p" "APIC_TICKS (ticks_hit fs p) = APIC_TICKS p + of_nat (length fs)"
  by (induction fs arbitrary: p) simp_all

lemma ticks_hit_fence_down: "PREEMPTIBLE p = 0 \<Longrightarrow> TASK_FRAMES (ticks_hit fs p) = TASK_FRAMES p"
  by (induction fs arbitrary: p) (simp_all add: stub_effect_frames yankable_def)

lemma ticks_hit_switches:
  "PREEMPT_SWITCHES (ticks_hit fs p) = PREEMPT_SWITCHES p + (if yankable p then of_nat (length fs) else 0)"
proof (induction fs arbitrary: p)
  case (Cons f fs)
  have "yankable (stub_effect f p) = yankable p" by (simp add: yankable_def)
  moreover have "PREEMPT_SWITCHES (stub_effect f p) = PREEMPT_SWITCHES p + (if yankable p then 1 else 0)"
    by (simp add: stub_effect_def Let_def yankable_def current_idx_def)
  ultimately show ?case by (simp add: Cons.IH algebra_simps)
qed simp

text \<open>With the fence up, a frame whose stack pointer is in the window replaces a valid frame by a valid one.\<close>

lemma ticks_hit_frames:
  assumes "\<forall>f\<in>set fs. bottom s \<le> f_rsp f \<and> f_rsp f \<le> top_addr s" "window_ok s" "table_ok p"
  shows "i \<noteq> current_idx p \<Longrightarrow> TASK_FRAMES (ticks_hit fs p) ! i = TASK_FRAMES p ! i"
    and "valid_for (TASK_FRAMES p ! current_idx p) (bottom s) (top_addr s) \<Longrightarrow> current_idx p < MAX_TASKS \<Longrightarrow>
      valid_for (TASK_FRAMES (ticks_hit fs p) ! current_idx p) (bottom s) (top_addr s)"
proof -
  show "i \<noteq> current_idx p \<Longrightarrow> TASK_FRAMES (ticks_hit fs p) ! i = TASK_FRAMES p ! i"
    by (induction fs arbitrary: p) (simp_all add: stub_effect_other)
  assume idx: "current_idx p < MAX_TASKS"
    and v: "valid_for (TASK_FRAMES p ! current_idx p) (bottom s) (top_addr s)"
  show "valid_for (TASK_FRAMES (ticks_hit fs p) ! current_idx p) (bottom s) (top_addr s)"
    using v idx assms
  proof (induction fs arbitrary: p)
    case (Cons f fs)
    let ?p = "stub_effect f p"
    have "valid_for (f\<lparr>f_magic := PREEMPT_MAGIC\<rparr>) (bottom s) (top_addr s)"
      using Cons.prems(3,4) by (simp add: valid_for_iff window_ok_def)
    then have "valid_for (TASK_FRAMES ?p ! current_idx p) (bottom s) (top_addr s)"
      using Cons.prems(1,2,5) by (simp add: stub_effect_frames table_ok_def)
    then show ?case using Cons.IH[of ?p] Cons.prems by simp
  qed simp
qed

section \<open>One turn, functionally\<close>

definition stepped :: "(u64 \<Rightarrow> irqs) \<Rightarrow> 'w kernel \<Rightarrow> u64 \<Rightarrow> 'w Task \<Rightarrow> bool \<times> 'w \<times> cells_of" where
  "stepped irq k p t = the (step t (length (in_step (irq p))) (world k) (kmem k))"

abbreviation alive_after :: "(u64 \<Rightarrow> irqs) \<Rightarrow> 'w kernel \<Rightarrow> u64 \<Rightarrow> 'w Task \<Rightarrow> bool" where
  "alive_after irq k p t \<equiv> fst (stepped irq k p t)"

definition ran_task :: "(u64 \<Rightarrow> irqs) \<Rightarrow> 'w kernel \<Rightarrow> u64 \<Rightarrow> 'w Task \<Rightarrow> 'w Task" where
  "ran_task irq k p t = t\<lparr>entered := True, runs := runs t + 1,
     state := (if alive_after irq k p t then Ready else Finished), ctx := yield_rsp (irq p)\<rparr>"

definition after_turn :: "(u64 \<Rightarrow> irqs) \<Rightarrow> u64 \<Rightarrow> 'w Task \<Rightarrow> 'w kernel \<Rightarrow> 'w kernel \<Rightarrow> bool" where
  "after_turn irq p t k k' \<longleftrightarrow>
     boxes k' = (boxes k)(p \<mapsto> ran_task irq k p t) \<and>
     world k' = fst (snd (stepped irq k p t)) \<and> kmem k' = snd (snd (stepped irq k p t)) \<and> RSP0 k' = top_addr (stack t) \<and>
     APIC_TICKS (pre k') = APIC_TICKS (pre k) +
       of_nat (length (before_fence (irq p)) + length (in_step (irq p)) + length (after_fence (irq p))) \<and>
     PREEMPT_SWITCHES (pre k') = PREEMPT_SWITCHES (pre k) + of_nat (length (in_step (irq p))) \<and>
     SLOT_USED (pre k') = SLOT_USED (pre k) \<and> TASK_PTRS k' = TASK_PTRS k \<and>
     (\<forall>i. i \<noteq> unat (slot t) \<longrightarrow> TASK_FRAMES (pre k') ! i = TASK_FRAMES (pre k) ! i)"

text \<open>The statics once a turn is over.\<close>

definition turn_statics :: "irqs \<Rightarrow> nat \<Rightarrow> statics \<Rightarrow> statics" where
  "turn_statics i sl s = set_current MAX_TASKS (ticks_hit (after_fence i) (set_preemptible False
     (ticks_hit (in_step i) (set_preemptible True (ticks_hit (before_fence i) (set_current sl s))))))"

lemma set_current_simps [simp]:
  "PREEMPTIBLE (set_current i s) = PREEMPTIBLE s" "SLOT_USED (set_current i s) = SLOT_USED s"
  "SLOT_BOUNDS (set_current i s) = SLOT_BOUNDS s" "TASK_FRAMES (set_current i s) = TASK_FRAMES s"
  "APIC_TICKS (set_current i s) = APIC_TICKS s" "PREEMPT_SWITCHES (set_current i s) = PREEMPT_SWITCHES s"
  "CURRENT_IDX (set_current i s) = of_nat i" "EOI_BASE (set_current i s) = EOI_BASE s"
  by (simp_all add: set_current_def)

lemma set_preemptible_simps [simp]:
  "PREEMPTIBLE (set_preemptible b s) = (if b then 1 else 0)" "SLOT_USED (set_preemptible b s) = SLOT_USED s"
  "SLOT_BOUNDS (set_preemptible b s) = SLOT_BOUNDS s" "TASK_FRAMES (set_preemptible b s) = TASK_FRAMES s"
  "APIC_TICKS (set_preemptible b s) = APIC_TICKS s" "PREEMPT_SWITCHES (set_preemptible b s) = PREEMPT_SWITCHES s"
  "CURRENT_IDX (set_preemptible b s) = CURRENT_IDX s" "current_idx (set_preemptible b s) = current_idx s"
  by (simp_all add: set_preemptible_def current_idx_def)

lemma current_idx_set [simp]: "i \<le> MAX_TASKS \<Longrightarrow> current_idx (set_current i s) = i"
  by (simp add: current_idx_def MAX_TASKS_def unat_of_nat)

lemma turn_statics_simps [simp]:
  "PREEMPTIBLE (turn_statics i sl s) = 0" "SLOT_USED (turn_statics i sl s) = SLOT_USED s"
  "SLOT_BOUNDS (turn_statics i sl s) = SLOT_BOUNDS s" "CURRENT_IDX (turn_statics i sl s) = of_nat MAX_TASKS"
  "APIC_TICKS (turn_statics i sl s) = APIC_TICKS s +
     of_nat (length (before_fence i) + length (in_step i) + length (after_fence i))"
  "EOI_BASE (turn_statics i sl s) = EOI_BASE s"
  by (simp_all add: turn_statics_def set_preemptible_def)

lemma turn_statics_switches:
  assumes "PREEMPTIBLE s = 0" "sl < MAX_TASKS" "bit (SLOT_USED s) sl"
  shows "PREEMPT_SWITCHES (turn_statics i sl s) = PREEMPT_SWITCHES s + of_nat (length (in_step i))"
  using assms by (simp add: turn_statics_def ticks_hit_switches yankable_def)

lemma turn_statics_frames:
  assumes "PREEMPTIBLE s = 0" "table_ok s" "sl < MAX_TASKS" "window_ok stk"
    "\<forall>f\<in>set (in_step i). bottom stk \<le> f_rsp f \<and> f_rsp f \<le> top_addr stk"
  shows "table_ok (turn_statics i sl s)"
    and "j \<noteq> sl \<Longrightarrow> TASK_FRAMES (turn_statics i sl s) ! j = TASK_FRAMES s ! j"
    and "valid_for (TASK_FRAMES s ! sl) (bottom stk) (top_addr stk) \<Longrightarrow>
      valid_for (TASK_FRAMES (turn_statics i sl s) ! sl) (bottom stk) (top_addr stk)"
proof -
  let ?s = "set_preemptible True (ticks_hit (before_fence i) (set_current sl s))"
  have s: "table_ok ?s" "TASK_FRAMES ?s = TASK_FRAMES s" "current_idx ?s = sl"
    using assms(1-3) by (simp_all add: table_ok_def ticks_hit_fence_down)
  have fr: "TASK_FRAMES (turn_statics i sl s) = TASK_FRAMES (ticks_hit (in_step i) ?s)"
    by (simp add: turn_statics_def ticks_hit_fence_down)
  have "table_ok (ticks_hit (in_step i) ?s)" using s(1) by simp
  then show "table_ok (turn_statics i sl s)" using assms(2) unfolding table_ok_def fr by simp
  show "j \<noteq> sl \<Longrightarrow> TASK_FRAMES (turn_statics i sl s) ! j = TASK_FRAMES s ! j"
    using ticks_hit_frames(1)[OF assms(5,4) s(1), of j] s fr by simp
  show "valid_for (TASK_FRAMES s ! sl) (bottom stk) (top_addr stk) \<Longrightarrow>
      valid_for (TASK_FRAMES (turn_statics i sl s) ! sl) (bottom stk) (top_addr stk)"
    using ticks_hit_frames(2)[OF assms(5,4) s(1)] s assms(3) fr by simp
qed

lemma kernel_okD:
  assumes "kernel_ok q k" "boxes k p = Some t"
  shows "task_ok k p t" "bit (SLOT_USED (pre k)) (unat (slot t))" "unat (slot t) < MAX_TASKS"
    "table_ok (pre k)" "PREEMPTIBLE (pre k) = 0" "p \<in> set q" "window_ok (stack t)"
  using assms by (auto simp: kernel_ok_def tables_ok_def task_ok_def driving_def)

lemma unat_suc_bound: "n \<noteq> - 1 \<Longrightarrow> unat (n :: u64) + unat (1 :: u64) < 2 ^ LENGTH(64)"
proof -
  assume "n \<noteq> - 1"
  then have "unat n \<noteq> 2 ^ 64 - 1" using unat_max_word[where 'a = 64] by (auto simp: word_unat_eq_iff)
  then show ?thesis using unat_u64_less[of n] by simp
qed

lemma kernel_ok_owner:
  "kernel_ok q k \<Longrightarrow> i < MAX_TASKS \<Longrightarrow> TASK_PTRS k ! i = Some p \<Longrightarrow> \<exists>t. boxes k p = Some t \<and> unat (slot t) = i"
  unfolding kernel_ok_def tables_ok_def by simp

lemma kernel_ok_bit: "kernel_ok q k \<Longrightarrow> i < MAX_TASKS \<Longrightarrow> bit (SLOT_USED (pre k)) i \<longleftrightarrow> TASK_PTRS k ! i \<noteq> None"
  unfolding kernel_ok_def tables_ok_def by simp

lemma kernel_ok_queue:
  assumes "kernel_ok q k"
  shows "distinct q" "dom (boxes k) = set q" "length (TASK_PTRS k) = MAX_TASKS" "table_ok (pre k)" "driving k"
  using assms by (simp_all add: kernel_ok_def tables_ok_def)

lemma queue_task: "kernel_ok q k \<Longrightarrow> p \<in> set q \<Longrightarrow> \<exists>t. boxes k p = Some t"
  using kernel_ok_queue(2) by fastforce

lemma switch_to_task_eq:
  assumes ok: "kernel_ok q k" and t: "boxes k p = Some t" and turn: "turn_ok irq k p t"
  shows "\<exists>e. switch_to_task irq p k = Inr (k\<lparr>pre := turn_statics (irq p) (unat (slot t)) (pre k),
     boxes := (boxes k)(p \<mapsto> ran_task irq k p t), kmem := snd (snd (stepped irq k p t)), irq_enabled := True,
     RSP0 := top_addr (stack t), TRAMPOLINE_ENTRY_RSP := e, world := fst (snd (stepped irq k p t))\<rparr>)"
proof -
  note k = kernel_okD[OF ok t]
  let ?k1 = "k\<lparr>pre := set_current (unat (slot t)) (pre k), RSP0 := top_addr (stack t), irq_enabled := False\<rparr>"
  have "canonical (top_addr (stack t))" using k(7) by (auto simp: window_ok_def)
  then have rsp0: "set_rsp0 (top_addr (stack t)) (k\<lparr>pre := set_current (unat (slot t)) (pre k)\<rparr>) =
      Inr (k\<lparr>pre := set_current (unat (slot t)) (pre k), RSP0 := top_addr (stack t)\<rparr>)"
    by (simp add: set_rsp0_def)
  obtain e where entry: "trampoline_entry p ?k1 =
      Inr (?k1\<lparr>TRAMPOLINE_ENTRY_RSP := e, boxes := (boxes k)(p \<mapsto> t\<lparr>entered := True\<rparr>)\<rparr>)" (is "_ = Inr ?k2")
  proof (cases "entered t")
    case True
    then have "t\<lparr>entered := True\<rparr> = t" by simp
    then show ?thesis using True t that[of "TRAMPOLINE_ENTRY_RSP k"]
      by (simp add: trampoline_entry_def deref_def fun_upd_idem)
  next
    case False
    then show ?thesis using t k(1) that by (simp add: trampoline_entry_def deref_def Let_def task_ok_def)
  qed
  obtain a w M where st: "step t (length (in_step (irq p))) (world k) (kmem k) = Some (a, w, M)"
    using turn by (auto simp: turn_ok_def split: option.splits)
  have run: "add_op (runs t) 1 = Inr (runs t + 1)"
    using turn by (auto simp: turn_ok_def intro!: add_op_no_overflow unat_suc_bound)
  have loop: "trampoline_loop irq ?k2 = Inr (?k2\<lparr>
      pre := ticks_hit (after_fence (irq p)) (set_preemptible False (ticks_hit (in_step (irq p))
        (set_preemptible True (ticks_hit (before_fence (irq p)) (pre ?k2))))),
      boxes := (boxes k)(p \<mapsto> ran_task irq k p t), kmem := M, world := w, irq_enabled := False\<rparr>)"
    using k(1,3) st run
    by (simp add: trampoline_loop_def current_task_def task_at_def deref_def task_ok_def Let_def ran_task_def stepped_def)
  show ?thesis
    using t st
    by (auto simp: switch_to_task_def deref_def rsp0 entry loop stepped_def turn_statics_def Let_def intro!: exI[of _ e])
qed

lemma switch_to_task_spec:
  assumes ok: "kernel_ok q k" and t: "boxes k p = Some t" and turn: "turn_ok irq k p t"
  shows "\<exists>k'. switch_to_task irq p k = Inr k' \<and> after_turn irq p t k k' \<and> kernel_ok q k'"
proof -
  note k = kernel_okD[OF ok t]
  obtain e where e: "switch_to_task irq p k = Inr (k\<lparr>pre := turn_statics (irq p) (unat (slot t)) (pre k),
     boxes := (boxes k)(p \<mapsto> ran_task irq k p t), kmem := snd (snd (stepped irq k p t)), irq_enabled := True,
     RSP0 := top_addr (stack t), TRAMPOLINE_ENTRY_RSP := e, world := fst (snd (stepped irq k p t))\<rparr>)" (is "_ = Inr ?k'")
    using switch_to_task_eq[OF assms] by (elim exE)
  have irq: "\<forall>f\<in>set (in_step (irq p)). bottom (stack t) \<le> f_rsp f \<and> f_rsp f \<le> top_addr (stack t)"
    using turn by (simp add: turn_ok_def)
  note fr = turn_statics_frames[OF k(5,4,3,7) irq]
  have "after_turn irq p t k ?k'"
    using turn_statics_switches[OF k(5,3,2)] fr(2) by (simp add: after_turn_def)
  moreover have canaries: "kmem ?k' (bottom (stack u)) = kmem k (bottom (stack u))" if "boxes k b = Some u" for b u
    using turn that by (auto simp: turn_ok_def stepped_def ran_def split: option.splits)
  have same: "task_ok ?k' b u" if b: "boxes k b = Some u" for b u
  proof -
    have u: "task_ok k b u" by (rule kernel_okD(1)[OF ok b])
    have "unat (slot u) = unat (slot t) \<Longrightarrow> u = t" using u k(1) b t by (simp add: task_ok_def)
    then have "frame_in (turn_statics (irq p) (unat (slot t)) (pre k)) u"
      using u fr(2)[of "unat (slot u)"] fr(3) by (cases "unat (slot u) = unat (slot t)") (auto simp: task_ok_def frame_in_def)
    then show ?thesis using u canaries[OF b] by (simp add: task_ok_def canary_ok_def)
  qed
  have "task_ok ?k' b u" if "boxes ?k' b = Some u" for b u
    using that same[of b u] same[OF t] by (cases "b = p") (auto simp: ran_task_def task_ok_def frame_in_def)
  then have "kernel_ok q ?k'"
    using ok t fr(1) by (auto simp: kernel_ok_def tables_ok_def driving_def ran_task_def)
  ultimately show ?thesis using e by blast
qed

lemma frame_ok_task:
  assumes "kernel_ok q k" "boxes k p = Some t"
  shows "frame_ok (unat (slot t)) (pre k) = Inr True" "valid_for (preempt t) (bottom (stack t)) (top_addr (stack t))"
  using kernel_okD[OF assms] by (auto simp: frame_ok_eq task_ok_def frame_in_def window_ok_def)

text \<open>The invariant and a turn do not see the state of a task.\<close>

lemma kernel_ok_state:
  assumes "kernel_ok q k" "boxes k p = Some t"
  shows "kernel_ok q (k\<lparr>boxes := (boxes k)(p \<mapsto> t\<lparr>state := s, vruntime := v\<rparr>)\<rparr>)"
  using assms unfolding kernel_ok_def tables_ok_def driving_def
  by (auto simp: task_ok_def frame_in_def)

lemma ran_replace: "m p = Some t \<Longrightarrow> ran (m(p \<mapsto> t')) = insert t' (ran (m(p := None)))" "m p = Some t \<Longrightarrow> ran m = insert t (ran (m(p := None)))"
  using ran_map_upd[of "m(p := None)" p t'] ran_map_upd[of "m(p := None)" p t] by (simp_all add: fun_upd_idem)

lemma turn_state:
  assumes "boxes k p = Some t"
  shows "turn_ok irq (k\<lparr>boxes := (boxes k)(p \<mapsto> t\<lparr>state := s, vruntime := v\<rparr>)\<rparr>) p (t\<lparr>state := s, vruntime := v\<rparr>) = turn_ok irq k p t"
    "stepped irq (k\<lparr>boxes := b\<rparr>) p (t\<lparr>state := s, vruntime := v\<rparr>) = stepped irq k p t"
  unfolding turn_ok_def ran_replace(2)[where m = "boxes k" and p = p, OF assms]
  by (simp_all add: stepped_def ran_replace(1)[where m = "boxes k" and p = p, OF assms] split: option.split)

lemma dispatch_spec:
  assumes ok: "kernel_ok q k" and t: "boxes k p = Some t" and turn: "turn_ok irq k p t"
  shows "\<exists>k'. dispatch irq p k = Inr k' \<and> after_turn irq p t k k' \<and> kernel_ok q k'"
proof -
  let ?t = "t\<lparr>state := Running\<rparr>"
  let ?k = "k\<lparr>boxes := (boxes k)(p \<mapsto> ?t)\<rparr>"
  have "kernel_ok q ?k" using kernel_ok_state[OF ok t, where s = Running and v = "vruntime t"] by simp
  moreover have "turn_ok irq ?k p ?t" using turn_state(1)[OF t, where irq = irq and s = Running and v = "vruntime t"] turn by simp
  ultimately obtain k' where k': "switch_to_task irq p ?k = Inr k'" "after_turn irq p ?t ?k k'" "kernel_ok q k'"
    using switch_to_task_spec[of q ?k p ?t irq] by auto
  have st: "stepped irq ?k p ?t = stepped irq k p t" using turn_state(2)[OF t, where irq = irq and b = "(boxes k)(p \<mapsto> ?t)" and s = Running and v = "vruntime t"] by simp
  then have "ran_task irq ?k p ?t = ran_task irq k p t" by (simp add: ran_task_def)
  then have a: "after_turn irq p t k k'" using k'(2) st by (simp add: after_turn_def)
  then have b: "boxes k' p = Some (ran_task irq k p t)" by (simp add: after_turn_def)
  show ?thesis
    using t k' a b frame_ok_task[OF k'(3) b] by (auto simp: dispatch_def deref_def)
qed

section \<open>Registering and releasing\<close>

lemma tables_okI:
  assumes "table_ok (pre k)" "length (TASK_PTRS k) = MAX_TASKS" "distinct q" "dom (boxes k) = set q"
    and "\<And>p t. boxes k p = Some t \<Longrightarrow> task_ok k p t"
    and "\<And>i. i < MAX_TASKS \<Longrightarrow> bit (SLOT_USED (pre k)) i \<longleftrightarrow> TASK_PTRS k ! i \<noteq> None"
    and "\<And>i p. i < MAX_TASKS \<Longrightarrow> TASK_PTRS k ! i = Some p \<Longrightarrow> \<exists>t. boxes k p = Some t \<and> unat (slot t) = i"
  shows "tables_ok q k"
  unfolding tables_ok_def using assms by blast

lemma kernel_okI:
  assumes "tables_ok q k" "driving k"
  shows "kernel_ok q k"
  using assms by (simp add: kernel_ok_def)

lemma retire_spec:
  assumes ok: "kernel_ok q k" and t: "boxes k p = Some t"
  shows "\<exists>k'. retire p k = Inr k' \<and> kernel_ok (remove1 p q) k' \<and> boxes k' = (boxes k)(p := None) \<and>
     world k' = world k \<and> kmem k' = kmem k \<and> APIC_TICKS (pre k') = APIC_TICKS (pre k) \<and>
     PREEMPT_SWITCHES (pre k') = PREEMPT_SWITCHES (pre k) \<and>
     \<not> bit (SLOT_USED (pre k')) (unat (slot t)) \<and> TASK_PTRS k' ! unat (slot t) = None \<and>
     TASK_FRAMES (pre k') ! unat (slot t) = FullFrame_ZERO"
proof -
  note k = kernel_okD[OF ok t]
  let ?i = "unat (slot t)"
  have len: "length (TASK_PTRS k) = MAX_TASKS" using ok by (simp add: kernel_ok_def tables_ok_def)
  obtain s where s: "unregister_task ?i (pre k) = Inr s" "slots_in_use s = slots_in_use (pre k) - {?i}" "table_ok s"
      "TASK_FRAMES s = (TASK_FRAMES (pre k))[?i := FullFrame_ZERO]" "SLOT_BOUNDS s = SLOT_BOUNDS (pre k)"
      "PREEMPTIBLE s = PREEMPTIBLE (pre k)" "CURRENT_IDX s = CURRENT_IDX (pre k)" "APIC_TICKS s = APIC_TICKS (pre k)"
      "PREEMPT_SWITCHES s = PREEMPT_SWITCHES (pre k)"
    using unregister_task_spec[of "pre k" ?i] k(2-4) by (auto simp: slots_in_use_def)
  let ?k' = "k\<lparr>TASK_PTRS := (TASK_PTRS k)[?i := None], pre := s, boxes := (boxes k)(p := None)\<rparr>"
  have r: "retire p k = Inr ?k'" using t k(3) s(1) by (simp add: retire_def deref_def clear_task_ptr_def)
  have bits: "bit (SLOT_USED s) j \<longleftrightarrow> bit (SLOT_USED (pre k)) j \<and> j \<noteq> ?i" if "j < MAX_TASKS" for j
    using s(2) that by (auto simp: slots_in_use_def)
  have other: "unat (slot u) \<noteq> ?i" if "boxes k b = Some u" "b \<noteq> p" for b u
    using kernel_okD(1)[OF ok that(1)] k(1) that(2) by (auto simp: task_ok_def)
  have tasks: "task_ok ?k' b u" if b: "boxes ?k' b = Some u" for b u
  proof -
    have b': "boxes k b = Some u" "b \<noteq> p" using b by (simp_all split: if_splits)
    show ?thesis using kernel_okD(1)[OF ok b'(1)] other[OF b'] s(4,5) by (simp add: task_ok_def frame_in_def)
  qed
  have ptrs: "bit (SLOT_USED s) j \<longleftrightarrow> TASK_PTRS ?k' ! j \<noteq> None" if "j < MAX_TASKS" for j
    using ok that len bits[OF that] k(3) by (simp add: kernel_ok_def tables_ok_def nth_list_update)
  have owner: "\<exists>u. boxes ?k' b = Some u \<and> unat (slot u) = j" if j: "j < MAX_TASKS" "TASK_PTRS ?k' ! j = Some b" for j b
  proof -
    have b: "j \<noteq> ?i" "TASK_PTRS k ! j = Some b" using j len k(3) by (auto simp: nth_list_update split: if_splits)
    then obtain u where u: "boxes k b = Some u" "unat (slot u) = j" using kernel_ok_owner[OF ok j(1)] by auto
    then have "b \<noteq> p" using t b by auto
    then show ?thesis using u by simp
  qed
  have "dom (boxes ?k') = set (remove1 p q)" using kernel_ok_queue(1,2)[OF ok] by simp
  then have "tables_ok (remove1 p q) ?k'"
    using len s(3) ptrs kernel_ok_queue(1)[OF ok]
    by (intro tables_okI tasks owner) simp_all
  moreover have "driving ?k'" using ok s by (simp add: kernel_ok_def driving_def)
  ultimately have "kernel_ok (remove1 p q) ?k'" by (rule kernel_okI)
  moreover have "TASK_FRAMES s ! ?i = FullFrame_ZERO" using s(4) k(3,4) by (simp add: table_ok_def)
  ultimately show ?thesis using r s bits[OF k(3)] k(3) len by (intro exI[of _ ?k']) simp
qed

text \<open>The first free slot.\<close>

lemma find_upt: "find P [0..<n] = Some i \<longleftrightarrow> i < n \<and> P i \<and> (\<forall>j<i. \<not> P j)"
  unfolding find_Some_iff by (auto intro!: exI[of _ i])

lemma alloc_slot_eq:
  "alloc_slot p = (case find (\<lambda>idx. \<not> bit (SLOT_USED p) idx) [0..<MAX_TASKS] of
     Some idx \<Rightarrow> Inr (of_nat idx) | None \<Rightarrow> Inl (Failed ''preempt: task table full''))"
  by (simp add: alloc_slot_def slot_bit)

lemma alloc_slot_full:
  "alloc_slot p = Inl e \<longleftrightarrow> e = Failed ''preempt: task table full'' \<and> (\<forall>j<MAX_TASKS. bit (SLOT_USED p) j)"
proof (cases "find (\<lambda>idx. \<not> bit (SLOT_USED p) idx) [0..<MAX_TASKS]")
  case None
  moreover from None have "\<forall>j<MAX_TASKS. bit (SLOT_USED p) j" by (simp add: find_None_iff)
  ultimately show ?thesis by (auto simp: alloc_slot_eq)
next
  case (Some i)
  moreover from Some have "\<not> (\<forall>j<MAX_TASKS. bit (SLOT_USED p) j)" by (auto simp: find_upt)
  ultimately show ?thesis by (simp add: alloc_slot_eq)
qed

lemma alloc_slot_first:
  "alloc_slot p = Inr s \<longleftrightarrow> unat s < MAX_TASKS \<and> \<not> bit (SLOT_USED p) (unat s) \<and> (\<forall>j<unat s. bit (SLOT_USED p) j)"
proof -
  have "alloc_slot p = Inr s \<longleftrightarrow> (\<exists>i. find (\<lambda>idx. \<not> bit (SLOT_USED p) idx) [0..<MAX_TASKS] = Some i \<and> s = of_nat i)"
    by (auto simp: alloc_slot_eq split: option.split)
  also have "\<dots> \<longleftrightarrow> (\<exists>i<MAX_TASKS. \<not> bit (SLOT_USED p) i \<and> (\<forall>j<i. bit (SLOT_USED p) j) \<and> s = of_nat i)"
    by (auto simp: find_upt)
  also have "\<dots> \<longleftrightarrow> unat s < MAX_TASKS \<and> \<not> bit (SLOT_USED p) (unat s) \<and> (\<forall>j<unat s. bit (SLOT_USED p) j)"
    by (auto simp: MAX_TASKS_def unat_of_nat intro!: exI[of _ "unat s"])
  finally show ?thesis .
qed

lemma free_slot:
  assumes "kernel_ok q k" "length q < MAX_TASKS"
  shows "\<exists>s. alloc_slot (pre k) = Inr s"
proof (rule ccontr)
  assume "\<not> ?thesis"
  then obtain e where "alloc_slot (pre k) = Inl e" by (cases "alloc_slot (pre k)") auto
  then have full: "\<forall>i<MAX_TASKS. bit (SLOT_USED (pre k)) i" by (simp add: alloc_slot_full)
  have "i \<in> (\<lambda>p. unat (slot (the (boxes k p)))) ` set q" if i: "i < MAX_TASKS" for i
  proof -
    have "TASK_PTRS k ! i \<noteq> None" using kernel_ok_bit[OF assms(1) i] full i by simp
    then obtain p where p: "TASK_PTRS k ! i = Some p" by (elim not_None_eq[THEN iffD1, THEN exE])
    obtain t where t: "boxes k p = Some t" "unat (slot t) = i" using kernel_ok_owner[OF assms(1) i p] by (elim exE conjE)
    then show ?thesis using kernel_okD(6)[OF assms(1) t(1)] by (intro image_eqI[of _ _ p]) simp_all
  qed
  then have "{..<MAX_TASKS} \<subseteq> (\<lambda>p. unat (slot (the (boxes k p)))) ` set q" by (intro subsetI) simp
  then have "card {..<MAX_TASKS} \<le> card ((\<lambda>p. unat (slot (the (boxes k p)))) ` set q)"
    by (intro card_mono) simp_all
  also have "\<dots> \<le> card (set q)" by (rule card_image_le) simp
  also have "\<dots> \<le> length q" by (rule card_length)
  finally show False using assms(2) by simp
qed

text \<open>The queue is as long as the number of slots in use; a free slot means that it is shorter than the table.\<close>

lemma queue_slots:
  assumes ok: "kernel_ok q k"
  shows "length q \<le> card (slots_in_use (pre k))"
proof -
  let ?slot = "\<lambda>p. unat (slot (the (boxes k p)))"
  have slots: "?slot p \<in> slots_in_use (pre k) \<and> TASK_PTRS k ! ?slot p = Some p" if p: "p \<in> set q" for p
  proof -
    obtain t where t: "boxes k p = Some t" using queue_task[OF ok p] by (elim exE)
    show ?thesis using kernel_okD(1,2)[OF ok t] t by (simp add: task_ok_def slots_in_use_def)
  qed
  have "inj_on ?slot (set q)"
  proof (rule inj_onI)
    fix a b assume ab: "a \<in> set q" "b \<in> set q" "?slot a = ?slot b"
    have "Some a = TASK_PTRS k ! ?slot a" using slots[OF ab(1)] by (elim conjE) (rule sym)
    also have "\<dots> = TASK_PTRS k ! ?slot b" by (simp only: ab(3))
    also have "\<dots> = Some b" using slots[OF ab(2)] by (elim conjE)
    finally show "a = b" by (rule option.inject[THEN iffD1])
  qed
  moreover have "?slot ` set q \<subseteq> slots_in_use (pre k)" by (intro image_subsetI) (simp add: slots)
  moreover have "finite (slots_in_use (pre k))" by (simp add: slots_in_use_def)
  ultimately have "card (set q) \<le> card (slots_in_use (pre k))" by (rule card_inj_on_le)
  then show ?thesis using kernel_ok_queue(1)[OF ok] by (simp add: distinct_card)
qed

lemma queue_length: "kernel_ok q k \<Longrightarrow> length q \<le> MAX_TASKS"
  using queue_slots[of q k] card_mono[of "{..<MAX_TASKS}" "slots_in_use (pre k)"]
  by (simp add: slots_in_use_def subset_iff)

lemma queue_room:
  assumes ok: "kernel_ok q k" and s: "alloc_slot (pre k) = Inr s"
  shows "length q < MAX_TASKS"
proof -
  have "slots_in_use (pre k) \<subset> {..<MAX_TASKS}" using s by (force simp: slots_in_use_def alloc_slot_first)
  then have "card (slots_in_use (pre k)) < MAX_TASKS" by (metis card_lessThan finite_lessThan psubset_card_mono)
  then show ?thesis using queue_slots[OF ok] by simp
qed

section \<open>Building and registering a task\<close>

text \<open>
  \<open>block_ok\<close>: a non-null heap block for a stack inside one half of the canonical addresses; the kernel heap lies
  in the upper one. \<open>site_ok\<close>: such a block that holds no live stack.
\<close>

definition block_ok :: "u64 \<Rightarrow> bool" where
  "block_ok raw \<longleftrightarrow> 0 < raw \<and> unat raw + unat STACK_ALLOC_BYTES < 2 ^ 64 \<and>
     (unat raw + unat STACK_ALLOC_BYTES < 2 ^ 47 \<or> 2 ^ 64 - 2 ^ 47 \<le> unat raw)"

definition site_ok :: "site \<Rightarrow> 'w kernel \<Rightarrow> bool" where
  "site_ok e k \<longleftrightarrow> block_ok (heap_addr e) \<and>
     (\<forall>u\<in>ran (boxes k). unat (bottom (stack u)) < unat (heap_addr e) \<or>
        unat (heap_addr e) + unat STACK_ALLOC_BYTES \<le> unat (bottom (stack u)))"

lemma stack_sizes: "unat STACK_SIZE_BYTES = 131072" "unat STACK_ALIGN = 16" "unat STACK_ALLOC_BYTES = 131088"
  by (simp_all add: STACK_SIZE_BYTES_def STACK_ALIGN_def STACK_ALLOC_BYTES_def)

lemma TaskStack_new_spec:
  assumes "block_ok raw"
  shows "\<exists>s. TaskStack_new raw M = Inr (s, (zeroed raw STACK_ALLOC_BYTES M)(bottom s := STACK_CANARY)) \<and>
     unat (top_addr s) = unat (bottom s) + 131072 \<and> 16 dvd unat (top_addr s) \<and> unat raw \<le> unat (bottom s) \<and>
     unat (top_addr s) \<le> unat raw + 131088 \<and> window_ok s"
proof -
  let ?b = "align_up (unat raw) 16"
  have raw: "0 < unat raw" "unat raw + 131088 < 2 ^ 64" and half: "unat raw + 131088 < 2 ^ 47 \<or> 2 ^ 64 - 2 ^ 47 \<le> unat raw"
    using assms by (simp_all add: block_ok_def word_less_nat_alt stack_sizes)
  have b: "unat raw \<le> ?b" "?b < unat raw + 16" "16 dvd ?b" by (simp_all add: align_up_ge align_up_less)
  define btm :: u64 where "btm = of_nat ?b"
  have ub: "unat btm = ?b" using b raw by (simp add: btm_def unat_of_nat)
  define tp where "tp = btm + STACK_SIZE_BYTES"
  have ut: "unat tp = ?b + 131072" using b raw ub by (simp add: tp_def unat_word_ariths stack_sizes)
  have "next_multiple_of raw STACK_ALIGN = Inr btm"
    using b raw by (simp add: next_multiple_of_eq_Inr word_less_nat_alt stack_sizes ub)
  moreover have "add_op btm STACK_SIZE_BYTES = Inr tp"
    unfolding tp_def using b raw by (intro add_op_no_overflow) (simp add: ub stack_sizes)
  moreover have "add_op raw STACK_ALLOC_BYTES = Inr (raw + STACK_ALLOC_BYTES)"
    using raw by (intro add_op_no_overflow) (simp add: stack_sizes)
  moreover have d: "16 dvd unat tp" using b(3) ut by (simp add: dvd_add)
  then have "tp mod STACK_ALIGN = 0" "btm mod STACK_ALIGN = 0"
    using b(3) ub by (simp_all add: word_unat_eq_iff unat_mod stack_sizes)
  moreover have "tp \<le> raw + STACK_ALLOC_BYTES"
    using raw b ut by (simp add: word_le_nat_alt unat_word_ariths stack_sizes)
  moreover have "window_ok \<lparr>backing = raw, top_addr = tp, bottom = btm\<rparr>"
    using raw half b ut ub by (auto simp: window_ok_def word_less_nat_alt word_le_nat_alt canonical_def)
  ultimately show ?thesis
    using b ub ut raw d by (intro exI[of _ "\<lparr>backing = raw, top_addr = tp, bottom = btm\<rparr>"]) (simp add: TaskStack_new_def Let_def)
qed

text \<open>Nothing outside the backing store changes when a stack is prepared, and the canary stays.\<close>

lemma bootstrap_cells:
  assumes "64 \<le> unat tp" "x \<in> cells (tp - 64) 8"
  shows "unat tp - 64 \<le> unat x" "unat x < unat tp"
proof -
  have "unat (tp - 64) = unat tp - 64" using assms(1) by (subst unat_sub) (simp_all add: word_le_nat_alt)
  then have "unat tp - 64 \<le> unat x \<and> unat x < unat tp - 64 + 64"
    using unat_cells[of x "tp - 64" 8] assms unat_u64_less[of tp] by auto
  then show "unat tp - 64 \<le> unat x" "unat x < unat tp" using assms(1) by simp_all
qed

definition registered :: "u64 \<Rightarrow> 'w Task \<Rightarrow> 'w kernel \<Rightarrow> 'w kernel" where
  "registered p t k = k\<lparr>TASK_PTRS := (TASK_PTRS k)[unat (slot t) := Some p], boxes := (boxes k)(p \<mapsto> t)\<rparr>"

text \<open>The stack, the first context and the fresh frame of a task.\<close>

lemma stack_prepared:
  assumes site: "site_ok e k"
  shows "\<exists>stk M1 M2 fr. TaskStack_new (heap_addr e) (kmem k) = Inr (stk, M1) \<and>
     init_task_context (trampoline e) (top_addr stk) M1 = Inr (top_addr stk - 64, M2) \<and> (top_addr stk - 64 + 56) mod 16 = 8 \<and>
     fresh (trampoline e) (code_selector e) (top_addr stk) = Inr fr \<and> valid_for fr (bottom stk) (top_addr stk) \<and>
     window_ok stk \<and> canary_ok M2 stk \<and> (\<forall>u\<in>ran (boxes k). M2 (bottom (stack u)) = kmem k (bottom (stack u))) \<and>
     unat (heap_addr e) \<le> unat (bottom stk) \<and> unat (bottom stk) \<le> unat (heap_addr e) + 16 \<and>
     unat (top_addr stk) = unat (bottom stk) + 131072"
proof -
  let ?raw = "heap_addr e"
  have raw: "block_ok ?raw" using site by (simp add: site_ok_def)
  obtain stk where stk: "TaskStack_new ?raw (kmem k) = Inr (stk, (zeroed ?raw STACK_ALLOC_BYTES (kmem k))(bottom stk := STACK_CANARY))"
      "unat (top_addr stk) = unat (bottom stk) + 131072" "16 dvd unat (top_addr stk)" "unat ?raw \<le> unat (bottom stk)"
      "unat (top_addr stk) \<le> unat ?raw + 131088" "window_ok stk"
    using TaskStack_new_spec[OF raw, of "kmem k"] by (elim exE conjE)
  define M1 where "M1 = (zeroed ?raw STACK_ALLOC_BYTES (kmem k))(bottom stk := STACK_CANARY)"
  define M2 where "M2 = stores (top_addr stk - 64) [0, 0, 0, 0, 0, 0, trampoline e, 0] M1"
  have big: "64 \<le> unat (top_addr stk)" using stk(2) by simp
  have c: "init_task_context (trampoline e) (top_addr stk) M1 = Inr (top_addr stk - 64, M2)"
      "(top_addr stk - 64 + 56) mod 16 = 8"
    using init_task_context_eq(1)[OF stk(3) big, of "trampoline e" M1] init_task_context_eq(2)[OF stk(3) big] by (simp_all add: M2_def)
  have btm: "bottom stk \<le> top_addr stk - 8"
    using stk(2) big by (simp add: word_le_nat_alt unat_sub_if')
  have top8: "canonical (top_addr stk - 8)"
    using stk(6) btm big by (auto simp: window_ok_def word_le_nat_alt unat_sub_if')
  obtain fr where fr: "fresh (trampoline e) (code_selector e) (top_addr stk) = Inr fr" "valid_for fr (bottom stk) (top_addr stk)"
    using fresh_spec[OF stk(3) _ btm top8] big by auto
  have out: "x \<notin> cells (top_addr stk - 64) 8" if "unat x < unat ?raw \<or> unat ?raw + 131088 \<le> unat x \<or> x = bottom stk" for x
    using that bootstrap_cells[OF big, of x] stk(2,4,5) by force
  have M2: "M2 x = M1 x" if "unat x < unat ?raw \<or> unat ?raw + 131088 \<le> unat x \<or> x = bottom stk" for x
    unfolding M2_def using out[OF that] by (intro stores_outside) (simp add: numeral_eq_Suc)
  have "M2 (bottom (stack u)) = kmem k (bottom (stack u))" if "u \<in> ran (boxes k)" for u
  proof -
    have u: "unat (bottom (stack u)) < unat ?raw \<or> unat ?raw + 131088 \<le> unat (bottom (stack u))"
      using site that by (simp add: site_ok_def stack_sizes)
    then have "bottom (stack u) \<noteq> bottom stk" using stk(2,4,5) by auto
    moreover have "M2 (bottom (stack u)) = M1 (bottom (stack u))" using u by (intro M2) auto
    ultimately show ?thesis using u by (auto simp: M1_def zeroed_def stack_sizes)
  qed
  moreover have "canary_ok M2 stk" using M2[of "bottom stk"] by (simp add: canary_ok_def M1_def)
  ultimately show ?thesis
    using stk(1)[folded M1_def] stk(2-6) fr c
    by (intro exI[of _ stk] exI[of _ M1] exI[of _ M2] exI[of _ fr]) simp
qed

lemma Task_build_full:
  assumes "site_ok e k" "alloc_slot (pre k) = Inl x"
  shows "Task_build e tid nm st f k = Inl x"
proof -
  obtain stk M1 M2 fr where "TaskStack_new (heap_addr e) (kmem k) = Inr (stk, M1)"
     "init_task_context (trampoline e) (top_addr stk) M1 = Inr (top_addr stk - 64, M2)"
     "fresh (trampoline e) (code_selector e) (top_addr stk) = Inr fr" "valid_for fr (bottom stk) (top_addr stk)"
    using stack_prepared[OF assms(1)] by (elim exE conjE)
  then show ?thesis using assms(2) by (simp add: Task_build_def)
qed

lemma Task_build_spec:
  assumes ok: "kernel_ok q k" and room: "length q < MAX_TASKS" and site: "site_ok e k"
  shows "\<exists>t s M. Task_build e tid nm st f k = Inr (t, k\<lparr>pre := s, kmem := M\<rparr>) \<and>
     task_id t = tid \<and> task_name t = nm \<and> state t = st \<and> runs t = 0 \<and> vruntime t = 0 \<and> weight t = CFS_DEFAULT_WEIGHT \<and>
     step t = f \<and> \<not> entered t \<and> alloc_slot (pre k) = Inr (slot t) \<and> table_ok s \<and>
     TASK_FRAMES s = (TASK_FRAMES (pre k))[unat (slot t) := preempt t] \<and>
     SLOT_BOUNDS s = (SLOT_BOUNDS (pre k))[unat (slot t) := (bottom (stack t), top_addr (stack t))] \<and>
     slots_in_use s = insert (unat (slot t)) (slots_in_use (pre k)) \<and>
     PREEMPTIBLE s = PREEMPTIBLE (pre k) \<and> CURRENT_IDX s = CURRENT_IDX (pre k) \<and> APIC_TICKS s = APIC_TICKS (pre k) \<and>
     PREEMPT_SWITCHES s = PREEMPT_SWITCHES (pre k) \<and>
     window_ok (stack t) \<and> valid_for (preempt t) (bottom (stack t)) (top_addr (stack t)) \<and> (ctx t + 56) mod 16 = 8 \<and>
     canary_ok M (stack t) \<and> (\<forall>u\<in>ran (boxes k). M (bottom (stack u)) = kmem k (bottom (stack u))) \<and>
     unat (heap_addr e) \<le> unat (bottom (stack t)) \<and> unat (bottom (stack t)) \<le> unat (heap_addr e) + 16 \<and>
     unat (top_addr (stack t)) = unat (bottom (stack t)) + 131072"
proof -
  obtain stk M1 M2 fr where p: "TaskStack_new (heap_addr e) (kmem k) = Inr (stk, M1)"
     "init_task_context (trampoline e) (top_addr stk) M1 = Inr (top_addr stk - 64, M2)" "(top_addr stk - 64 + 56) mod 16 = 8"
     "fresh (trampoline e) (code_selector e) (top_addr stk) = Inr fr" "valid_for fr (bottom stk) (top_addr stk)"
     "window_ok stk" "canary_ok M2 stk" "\<forall>u\<in>ran (boxes k). M2 (bottom (stack u)) = kmem k (bottom (stack u))"
     "unat (heap_addr e) \<le> unat (bottom stk)" "unat (bottom stk) \<le> unat (heap_addr e) + 16" "unat (top_addr stk) = unat (bottom stk) + 131072"
    using stack_prepared[OF site] by (elim exE conjE)
  obtain sl where sl: "alloc_slot (pre k) = Inr sl" using free_slot[OF ok room] by (elim exE)
  have free: "unat sl < MAX_TASKS" "unat sl \<notin> slots_in_use (pre k)"
    using sl by (simp_all add: alloc_slot_first slots_in_use_def)
  obtain s1 where s1: "register_task (unat sl) fr (pre k) = Inr s1" "slots_in_use s1 = insert (unat sl) (slots_in_use (pre k))"
      "table_ok s1" "TASK_FRAMES s1 = (TASK_FRAMES (pre k))[unat sl := fr]" "SLOT_BOUNDS s1 = SLOT_BOUNDS (pre k)"
      "PREEMPTIBLE s1 = PREEMPTIBLE (pre k)" "CURRENT_IDX s1 = CURRENT_IDX (pre k)" "APIC_TICKS s1 = APIC_TICKS (pre k)"
      "PREEMPT_SWITCHES s1 = PREEMPT_SWITCHES (pre k)"
    using register_task_spec[OF kernel_ok_queue(4)[OF ok] free, of fr] by (elim exE conjE)
  let ?s = "s1\<lparr>SLOT_BOUNDS := (SLOT_BOUNDS s1)[unat sl := (bottom stk, top_addr stk)]\<rparr>"
  have s2: "set_slot_bounds (unat sl) (bottom stk) (top_addr stk) s1 = Inr ?s"
    using free(1) p(6) by (simp add: set_slot_bounds_def window_ok_def)
  moreover have "slots_in_use ?s = slots_in_use s1" by (simp add: slots_in_use_def)
  ultimately show ?thesis
    using p sl s1
    by (intro exI[of _ "\<lparr>task_id = tid, task_name = nm, state = st, runs = 0, vruntime = 0, weight = CFS_DEFAULT_WEIGHT,
          stack = stk, ctx = top_addr stk - 64, entered = False, preempt = fr, slot = sl, step = f\<rparr>"] exI[of _ ?s] exI[of _ M2])
      (simp add: Task_build_def table_ok_def)
qed

text \<open>A built task that is boxed and entered in the pointer table joins the queue.\<close>

lemma registered_ok:
  assumes ok: "kernel_ok q k" and room: "length q < MAX_TASKS" and site: "site_ok e k" and new: "p \<notin> set q"
    and built: "Task_build e tid nm st f k = Inr (t, k1)"
  shows "kernel_ok (q @ [p]) (registered p (t\<lparr>weight := w\<rparr>) k1)"
proof -
  obtain s M where b: "k1 = k\<lparr>pre := s, kmem := M\<rparr>" "alloc_slot (pre k) = Inr (slot t)" "table_ok s"
     "TASK_FRAMES s = (TASK_FRAMES (pre k))[unat (slot t) := preempt t]"
     "SLOT_BOUNDS s = (SLOT_BOUNDS (pre k))[unat (slot t) := (bottom (stack t), top_addr (stack t))]"
     "slots_in_use s = insert (unat (slot t)) (slots_in_use (pre k))"
     "PREEMPTIBLE s = PREEMPTIBLE (pre k)" "CURRENT_IDX s = CURRENT_IDX (pre k)"
     "window_ok (stack t)" "valid_for (preempt t) (bottom (stack t)) (top_addr (stack t))" "(ctx t + 56) mod 16 = 8"
     "canary_ok M (stack t)" "\<forall>u\<in>ran (boxes k). M (bottom (stack u)) = kmem k (bottom (stack u))"
    using Task_build_spec[OF ok room site, of tid nm st f] built by auto
  let ?i = "unat (slot t)" and ?k = "registered p (t\<lparr>weight := w\<rparr>) k1"
  note q = kernel_ok_queue[OF ok]
  have i: "?i < MAX_TASKS" "\<not> bit (SLOT_USED (pre k)) ?i" using b(2) by (simp_all add: alloc_slot_first)
  have fields: "pre ?k = s" "TASK_PTRS ?k = (TASK_PTRS k)[?i := Some p]" "boxes ?k = (boxes k)(p \<mapsto> t\<lparr>weight := w\<rparr>)" "kmem ?k = M"
    by (simp_all add: registered_def b(1))
  have other: "unat (slot u) \<noteq> ?i" if "boxes k a = Some u" for a u
    using kernel_okD(2)[OF ok that] i(2) by auto
  have old: "task_ok ?k a u" if a: "boxes k a = Some u" for a u
  proof -
    have "M (bottom (stack u)) = kmem k (bottom (stack u))" using b(13) ranI[of "boxes k", OF a] by (rule bspec)
    then show ?thesis using kernel_okD(1)[OF ok a] other[OF a] b(4,5) fields
      by (simp add: task_ok_def frame_in_def canary_ok_def)
  qed
  have tasks: "task_ok ?k a u" if "boxes ?k a = Some u" for a u
    using that old[of a u] b(3,4,5,9-12) i(1) q(3,4) fields
    by (cases "a = p") (auto simp: task_ok_def frame_in_def table_ok_def)
  have bits: "bit (SLOT_USED s) j \<longleftrightarrow> bit (SLOT_USED (pre k)) j \<or> j = ?i" if "j < MAX_TASKS" for j
    using b(6) that by (auto simp: slots_in_use_def)
  have ptrs: "bit (SLOT_USED (pre ?k)) j \<longleftrightarrow> TASK_PTRS ?k ! j \<noteq> None" if "j < MAX_TASKS" for j
    using kernel_ok_bit[OF ok that] bits[OF that] i(1) q(3) that fields by (simp add: nth_list_update)
  have owner: "\<exists>u. boxes ?k a = Some u \<and> unat (slot u) = j" if j: "j < MAX_TASKS" "TASK_PTRS ?k ! j = Some a" for j a
  proof (cases "j = ?i")
    case True
    then show ?thesis using j fields i q(3) by simp
  next
    case False
    then have "TASK_PTRS k ! j = Some a" using j fields i q(3) by simp
    then obtain u where u: "boxes k a = Some u" "unat (slot u) = j" using kernel_ok_owner[OF ok j(1)] by auto
    moreover have "a \<noteq> p" using kernel_okD(6)[OF ok u(1)] new by auto
    ultimately show ?thesis using fields by simp
  qed
  have "tables_ok (q @ [p]) ?k"
    using b(3) q new fields by (intro tables_okI tasks ptrs owner) auto
  moreover have "driving ?k" using q(5) b fields by (simp add: driving_def registered_def)
  ultimately show ?thesis by (rule kernel_okI)
qed

end
