(* ===== verification/Scheduler.thy ===== *)
theory Scheduler
  imports Task
begin

text \<open>
  The scheduler contract of \<open>task.rs\<close>: the state both policies keep, what they share of it (numbering,
  the verdict on a task that came back, the ledger), and the trait \<open>Scheduler\<close> as a locale whose laws
  \<open>Round_Robin\<close> and \<open>Cfs\<close> prove for their own \<open>schedule_once\<close>.
\<close>

record sched =
  ready :: "u64 list"
  finished_runs :: "(u64 \<times> string \<times> u64) list"
  next_number :: u64

definition sched_new :: sched where
  "sched_new = \<lparr>ready = [], finished_runs = [], next_number = 1\<rparr>"

definition next_id :: "sched \<Rightarrow> (u64 \<times> sched) outcome" where
  "next_id s = obind (add_op (next_number s) 1) (\<lambda>n. Inr (next_number s, s\<lparr>next_number := n\<rparr>))"

definition alive :: "sched \<Rightarrow> nat" where
  "alive s = length (ready s)"

text \<open>Boxing a task at address \<open>p\<close>, publishing the address and queueing the box.\<close>

definition enqueue :: "u64 \<Rightarrow> 'w Task \<Rightarrow> sched \<Rightarrow> 'w kernel \<Rightarrow> (sched \<times> 'w kernel) outcome" where
  "enqueue p t s k =
     obind (set_task_ptr (unat (slot t)) p (k\<lparr>boxes := (boxes k)(p \<mapsto> t)\<rparr>)) (\<lambda>k.
       Inr (s\<lparr>ready := ready s @ [p]\<rparr>, k))"

text \<open>The verdict on a task that is back: queue it again, or release it and note its runs.\<close>

definition settle :: "u64 \<Rightarrow> sched \<Rightarrow> 'w kernel \<Rightarrow> (bool \<times> sched \<times> 'w kernel) outcome" where
  "settle p s k =
     obind (deref p k) (\<lambda>t.
       if state t = Ready then Inr (True, s\<lparr>ready := ready s @ [p]\<rparr>, k)
       else obind (retire p k) (\<lambda>k.
         Inr (True, s\<lparr>finished_runs := finished_runs s @ [(task_id t, task_name t, runs t)]\<rparr>, k)))"

fun derefs :: "u64 list \<Rightarrow> 'w kernel \<Rightarrow> 'w Task list outcome" where
  "derefs [] k = Inr []"
| "derefs (p # ps) k = obind (deref p k) (\<lambda>t. obind (derefs ps k) (\<lambda>ts. Inr (t # ts)))"

definition ledger :: "sched \<Rightarrow> 'w kernel \<Rightarrow> (u64 \<times> string \<times> u64) list outcome" where
  "ledger s k =
     obind (derefs (ready s) k) (\<lambda>ts.
       Inr (sort_key fst (map (\<lambda>t. (task_id t, task_name t, runs t)) ts @ finished_runs s)))"

section \<open>The invariant and one turn, seen from the queue\<close>

definition sched_ok :: "sched \<Rightarrow> 'w kernel \<Rightarrow> bool" where
  "sched_ok s k \<longleftrightarrow> kernel_ok (ready s) k \<and> (\<forall>t\<in>ran (boxes k). state t = Ready \<or> (\<exists>u. state t = Sleeping u))"

definition turn_taken ::
  "(u64 \<Rightarrow> irqs) \<Rightarrow> u64 \<Rightarrow> 'w Task \<Rightarrow> sched \<Rightarrow> 'w kernel \<Rightarrow> sched \<Rightarrow> 'w kernel \<Rightarrow> bool" where
  "turn_taken irq p t s k s' k' \<longleftrightarrow>
     boxes k p = Some t \<and> p \<in> set (ready s) \<and> awake (APIC_TICKS (pre k)) t \<and>
     world k' = fst (snd (stepped irq k p t)) \<and> kmem k' = snd (snd (stepped irq k p t)) \<and>
     APIC_TICKS (pre k') = APIC_TICKS (pre k) +
       of_nat (length (before_fence (irq p)) + length (in_step (irq p)) + length (after_fence (irq p))) \<and>
     PREEMPT_SWITCHES (pre k') = PREEMPT_SWITCHES (pre k) + of_nat (length (in_step (irq p))) \<and>
     next_number s' = next_number s \<and> (\<forall>b. b \<noteq> p \<longrightarrow> boxes k' b = boxes k b) \<and>
     (if alive_after irq k p t
      then mset (ready s') = mset (ready s) \<and> finished_runs s' = finished_runs s \<and>
           (\<exists>v. boxes k' p = Some ((ran_task irq k p t)\<lparr>vruntime := v\<rparr>))
      else mset (ready s') = mset (ready s) - {#p#} \<and> boxes k' p = None \<and>
           finished_runs s' = finished_runs s @ [(task_id t, task_name t, runs t + 1)])"

lemma sched_okD: "sched_ok s k \<Longrightarrow> kernel_ok (ready s) k"
  by (simp add: sched_ok_def)

lemma kernel_ok_perm: "mset q = mset q' \<Longrightarrow> kernel_ok q k = kernel_ok q' k"
proof -
  assume m: "mset q = mset q'"
  then have "set q = set q'" by (rule mset_eq_setD)
  moreover have "distinct q = distinct q'" using m by (rule mset_eq_imp_distinct_iff)
  ultimately show ?thesis by (simp add: kernel_ok_def tables_ok_def)
qed

lemma derefs_queue: "kernel_ok q k \<Longrightarrow> set ps \<subseteq> set q \<Longrightarrow> derefs ps k = Inr (map (\<lambda>p. the (boxes k p)) ps)"
proof (induction ps)
  case (Cons p ps)
  then obtain t where "boxes k p = Some t" using queue_task[of q k p] by auto
  then show ?case using Cons by (simp add: deref_def)
qed simp

text \<open>What the verdict does to a queue from which the task was taken.\<close>

lemma settle_turn:
  assumes ok: "sched_ok s k" and t: "boxes k p = Some t" "awake (APIC_TICKS (pre k)) t"
    and k1: "kernel_ok (ready s) k1" "boxes k1 = (boxes k)(p \<mapsto> (ran_task irq k p t)\<lparr>vruntime := v\<rparr>)"
      "world k1 = fst (snd (stepped irq k p t))" "kmem k1 = snd (snd (stepped irq k p t))"
      "APIC_TICKS (pre k1) = APIC_TICKS (pre k) +
         of_nat (length (before_fence (irq p)) + length (in_step (irq p)) + length (after_fence (irq p)))"
      "PREEMPT_SWITCHES (pre k1) = PREEMPT_SWITCHES (pre k) + of_nat (length (in_step (irq p)))"
    and s1: "mset (ready s) = add_mset p (mset (ready s1))" "finished_runs s1 = finished_runs s" "next_number s1 = next_number s"
  shows "\<exists>s' k'. settle p s1 k1 = Inr (True, s', k') \<and> sched_ok s' k' \<and> turn_taken irq p t s k s' k' \<and>
     ready s' = ready s1 @ (if alive_after irq k p t then [p] else []) \<and> (alive_after irq k p t \<longrightarrow> k' = k1)"
proof -
  let ?t = "(ran_task irq k p t)\<lparr>vruntime := v\<rparr>"
  have b: "boxes k1 p = Some ?t" using k1(2) by simp
  have pq: "p \<in> set (ready s)" using s1(1) by (metis set_mset_mset union_single_eq_member)
  show ?thesis
  proof (cases "alive_after irq k p t")
    case True
    then have "settle p s1 k1 = Inr (True, s1\<lparr>ready := ready s1 @ [p]\<rparr>, k1)"
      using b by (simp add: settle_def deref_def ran_task_def)
    moreover have "kernel_ok (ready s1 @ [p]) k1" using k1(1) s1(1) by (subst kernel_ok_perm[of _ "ready s"]) simp_all
    moreover have "\<forall>u\<in>ran (boxes k1). state u = Ready \<or> (\<exists>x. state u = Sleeping x)"
      using ok k1(2) True by (auto simp: sched_ok_def ran_def ran_task_def)
    ultimately show ?thesis using t k1 s1 pq True by (auto simp: sched_ok_def turn_taken_def)
  next
    case False
    obtain k2 where k2: "retire p k1 = Inr k2" "kernel_ok (remove1 p (ready s)) k2" "boxes k2 = (boxes k1)(p := None)"
        "world k2 = world k1" "kmem k2 = kmem k1" "APIC_TICKS (pre k2) = APIC_TICKS (pre k1)"
        "PREEMPT_SWITCHES (pre k2) = PREEMPT_SWITCHES (pre k1)"
      using retire_spec[OF k1(1) b] by (elim exE conjE)
    let ?s = "s1\<lparr>finished_runs := finished_runs s1 @ [(task_id t, task_name t, runs t + 1)]\<rparr>"
    have "settle p s1 k1 = Inr (True, ?s, k2)"
      using b False k2(1) by (simp add: settle_def deref_def ran_task_def)
    moreover have "kernel_ok (ready s1) k2" using k2(2) s1(1) by (subst kernel_ok_perm[of _ "remove1 p (ready s)"]) simp_all
    moreover have "\<forall>u\<in>ran (boxes k2). state u = Ready \<or> (\<exists>x. state u = Sleeping x)"
      using ok k1(2) k2(3) by (auto simp: sched_ok_def ran_def)
    moreover have "turn_taken irq p t s k ?s k2"
      using t k1 k2 s1 pq False unfolding turn_taken_def by simp
    ultimately show ?thesis using False by (intro exI[of _ ?s] exI[of _ k2]) (simp add: sched_ok_def)
  qed
qed

section \<open>The contract\<close>

text \<open>
  What the trait promises its caller. \<open>spawn\<close> queues a freshly built task last, whatever its
  positive weight. With nobody awake \<open>schedule_once\<close> answers false and changes nothing; otherwise some awake task
  takes exactly one turn, provided every turn the interrupts allow is a sound one.
\<close>

locale scheduler =
  fixes spawn :: "u64 \<Rightarrow> 'w Task \<Rightarrow> sched \<Rightarrow> 'w kernel \<Rightarrow> (sched \<times> 'w kernel) outcome"
    and schedule_once :: "(u64 \<Rightarrow> irqs) \<Rightarrow> sched \<Rightarrow> 'w kernel \<Rightarrow> (bool \<times> sched \<times> 'w kernel) outcome"
  assumes spawn: "unat (slot t) < MAX_TASKS \<Longrightarrow> 0 < weight t \<Longrightarrow>
      spawn p t s k = Inr (s\<lparr>ready := ready s @ [p]\<rparr>, registered p t k)"
    and idle: "sched_ok s k \<Longrightarrow> (\<forall>p\<in>set (ready s). \<not> awake (APIC_TICKS (pre k)) (the (boxes k p))) \<Longrightarrow>
      schedule_once irq s k = Inr (False, s, k)"
    and busy: "sched_ok s k \<Longrightarrow> q \<in> set (ready s) \<Longrightarrow> awake (APIC_TICKS (pre k)) (the (boxes k q)) \<Longrightarrow>
      (\<forall>p\<in>set (ready s). turn_ok irq k p (the (boxes k p))) \<Longrightarrow>
      \<exists>p t s' k'. schedule_once irq s k = Inr (True, s', k') \<and> sched_ok s' k' \<and> turn_taken irq p t s k s' k'"

lemma enqueue_eq:
  "unat (slot t) < MAX_TASKS \<Longrightarrow> enqueue p t s k = Inr (s\<lparr>ready := ready s @ [p]\<rparr>, registered p t k)"
  by (simp add: enqueue_def set_task_ptr_def registered_def)

text \<open>A built task of positive weight that is spawned keeps the invariant.\<close>

lemma spawned_ok:
  assumes ok: "sched_ok s k" and room: "length (ready s) < MAX_TASKS" and site: "site_ok e k" and new: "p \<notin> set (ready s)"
    and st: "st = Ready \<or> (\<exists>u. st = Sleeping u)" and built: "Task_build e tid nm st f k = Inr (t, k1)"
  shows "sched_ok (s\<lparr>ready := ready s @ [p]\<rparr>) (registered p (t\<lparr>weight := w\<rparr>) k1)"
proof -
  have kok: "kernel_ok (ready s) k" using ok by (simp add: sched_ok_def)
  obtain a M where b: "state t = st" "k1 = k\<lparr>pre := a, kmem := M\<rparr>"
    using Task_build_spec[OF kok room site, of tid nm st f] built by auto
  have "kernel_ok (ready s @ [p]) (registered p (t\<lparr>weight := w\<rparr>) k1)" using kok room site new built by (rule registered_ok)
  moreover have "\<forall>u\<in>ran (boxes (registered p (t\<lparr>weight := w\<rparr>) k1)). state u = Ready \<or> (\<exists>x. state u = Sleeping x)"
    using ok st b by (auto simp: sched_ok_def registered_def ran_def)
  ultimately show ?thesis by (simp add: sched_ok_def)
qed

section \<open>Many calls with tasks that never finish\<close>

fun schedule_many ::
  "((u64 \<Rightarrow> irqs) \<Rightarrow> sched \<Rightarrow> 'w kernel \<Rightarrow> (bool \<times> sched \<times> 'w kernel) outcome) \<Rightarrow>
   (u64 \<Rightarrow> irqs) list \<Rightarrow> sched \<Rightarrow> 'w kernel \<Rightarrow> (sched \<times> 'w kernel) outcome" where
  "schedule_many once [] s k = Inr (s, k)"
| "schedule_many once (irq # is) s k = obind (once irq s k) (\<lambda>(ran, s, k). schedule_many once is s k)"

text \<open>
  A task that never finishes, never blocks and spares the canaries; and interrupts whose frames lie in the windows of the tasks.
\<close>

definition tireless :: "'w Task \<Rightarrow> bool" where
  "tireless t \<longleftrightarrow> state t = Ready \<and>
     (\<forall>n w M. \<exists>w' M'. step t n w M = Some (True, w', M') \<and> (\<forall>x. M x = STACK_CANARY \<longrightarrow> M' x = M x))"

definition frames_fit :: "(u64 \<Rightarrow> irqs) \<Rightarrow> 'w kernel \<Rightarrow> bool" where
  "frames_fit irq k \<longleftrightarrow> (\<forall>p t. boxes k p = Some t \<longrightarrow>
     (\<forall>f\<in>set (in_step (irq p)). bottom (stack t) \<le> f_rsp f \<and> f_rsp f \<le> top_addr (stack t)))"

lemma tireless_turn:
  assumes ok: "kernel_ok q k" and t: "boxes k p = Some t" "tireless t" "frames_fit irq k" "unat (runs t) + 1 < 2 ^ 64"
  shows "turn_ok irq k p t" "alive_after irq k p t"
proof -
  obtain w M where st: "step t (length (in_step (irq p))) (world k) (kmem k) = Some (True, w, M)"
      "\<forall>x. kmem k x = STACK_CANARY \<longrightarrow> M x = kmem k x"
    using t(2) unfolding tireless_def by blast
  have "M (bottom (stack u)) = kmem k (bottom (stack u))" if u: "u \<in> ran (boxes k)" for u
  proof -
    obtain b where "boxes k b = Some u" using u by (auto simp: ran_def)
    then show ?thesis using kernel_okD(1)[OF ok] st(2) by (simp add: task_ok_def canary_ok_def)
  qed
  moreover have "runs t \<noteq> - 1" using t(4) by (auto simp: unat_max_word)
  moreover have "\<forall>f\<in>set (in_step (irq p)). bottom (stack t) \<le> f_rsp f \<and> f_rsp f \<le> top_addr (stack t)"
    using t(1,3) by (auto simp: frames_fit_def)
  ultimately show "turn_ok irq k p t" using st(1) by (simp add: turn_ok_def)
  show "alive_after irq k p t" using st(1) by (simp add: stepped_def)
qed

section \<open>The driver loop\<close>

text \<open>
  The \<open>while\<close> loop of the phase 3 demo in \<open>main.rs\<close>, for any implementation of the trait. An event is one
  stretch of the loop: the interrupts that arrive while the driver sleeps in \<open>hlt\<close> (the fence is
  down, so they only count), and the interrupts that would hit the turn of each box. If the
  events run out the driver is still waiting. The loop counters stay below the runaway guard and are natural numbers.
\<close>

definition SCHED_RUNAWAY_GUARD :: nat where
  "SCHED_RUNAWAY_GUARD = 100"

definition SCHED_FAIR_RUNS :: u64 where
  "SCHED_FAIR_RUNS = 5"

record event =
  wait_ticks :: "FullFrame list"
  turns :: "u64 \<Rightarrow> irqs"

record drive =
  schedules :: nat
  asleep_passes :: nat
  preempts :: nat
  last_switches :: u64
  last_tick :: u64

datatype 'w driven = Drained drive sched "'w kernel" | Waiting drive sched "'w kernel" | Halted string

definition drive_start :: "'w kernel \<Rightarrow> drive" where
  "drive_start k = \<lparr>schedules = 0, asleep_passes = 0, preempts = 0, last_switches = PREEMPT_SWITCHES (pre k),
     last_tick = APIC_TICKS (pre k)\<rparr>"

definition count_turn :: "'w kernel \<Rightarrow> drive \<Rightarrow> drive" where
  "count_turn k d =
     (let d = d\<lparr>asleep_passes := 0, schedules := schedules d + 1\<rparr> in
      if PREEMPT_SWITCHES (pre k) \<noteq> last_switches d
      then d\<lparr>preempts := preempts d + 1, last_switches := PREEMPT_SWITCHES (pre k)\<rparr> else d)"

fun drive_loop ::
  "((u64 \<Rightarrow> irqs) \<Rightarrow> sched \<Rightarrow> 'w kernel \<Rightarrow> (bool \<times> sched \<times> 'w kernel) outcome) \<Rightarrow>
   event list \<Rightarrow> drive \<Rightarrow> sched \<Rightarrow> 'w kernel \<Rightarrow> 'w driven outcome" where
  "drive_loop once [] d s k = Inr (if alive s = 0 then Drained d s k else Waiting d s k)"
| "drive_loop once (e # es) d s k =
     (if alive s = 0 then Inr (Drained d s k)
      else
        let k = k\<lparr>pre := ticks_hit (wait_ticks e) (pre k)\<rparr> in
        if APIC_TICKS (pre k) = last_tick d then drive_loop once es d s k
        else
          let d = d\<lparr>last_tick := APIC_TICKS (pre k)\<rparr> in
          obind (once (turns e) s k) (\<lambda>(ran, s, k).
            if \<not> ran then
              let d = d\<lparr>asleep_passes := asleep_passes d + 1\<rparr> in
              if SCHED_RUNAWAY_GUARD < asleep_passes d then Inr (Halted ''sched FAILED: tasks asleep forever'')
              else drive_loop once es d s k
            else
              let d = count_turn k d in
              if SCHED_RUNAWAY_GUARD < schedules d then Inr (Halted ''sched FAILED: runaway'')
              else drive_loop once es d s k))"

text \<open>What the demo makes of a drained queue: at least one yank, and the ledger it expects.\<close>

definition expected_runs :: "string \<Rightarrow> u64" where
  "expected_runs name = (if name = ''napper'' then 1 else SCHED_FAIR_RUNS)"

definition demo_verdict :: "'w driven \<Rightarrow> string outcome" where
  "demo_verdict r =
     (case r of
        Halted m \<Rightarrow> Inr m
      | Waiting d s k \<Rightarrow> Inr ''waiting for a tick''
      | Drained d s k \<Rightarrow>
          if preempts d = 0 then Inr ''sched FAILED: preemption stub silent''
          else obind (ledger s k) (\<lambda>rows.
            Inr (if \<forall>(i, name, n)\<in>set rows. n = expected_runs name then ''sched: fair. Phase 3 online''
                 else ''sched FAILED: unfair ledger'')))"

section \<open>Tasks with a known number of steps\<close>

text \<open>
  \<open>left w i\<close> is the number of steps task \<open>i\<close> still has to do in world \<open>w\<close>. A task that keeps to it
  returns true except on its last step, touches no other task's count and no canary.
\<close>

definition keeps_to :: "('w \<Rightarrow> u64 \<Rightarrow> nat) \<Rightarrow> 'w Task \<Rightarrow> bool" where
  "keeps_to left t \<longleftrightarrow>
     (\<forall>n w M a w' M'. step t n w M = Some (a, w', M') \<longrightarrow>
        (a \<longleftrightarrow> 1 < left w (task_id t)) \<and> left w' (task_id t) = left w (task_id t) - 1 \<and>
        (\<forall>j. j \<noteq> task_id t \<longrightarrow> left w' j = left w j) \<and> (\<forall>x. M x = STACK_CANARY \<longrightarrow> M' x = M x))"

text \<open>Every live task has steps left, and done plus left is what it was meant to run; the rows of the finished tasks say so too.\<close>

definition on_plan :: "('w \<Rightarrow> u64 \<Rightarrow> nat) \<Rightarrow> (u64 \<Rightarrow> nat) \<Rightarrow> sched \<Rightarrow> 'w kernel \<Rightarrow> bool" where
  "on_plan left want s k \<longleftrightarrow>
     inj_on (\<lambda>p. task_id (the (boxes k p))) (set (ready s)) \<and>
     (\<forall>p\<in>set (ready s). let t = the (boxes k p) in
        keeps_to left t \<and> 0 < left (world k) (task_id t) \<and> want (task_id t) < 2 ^ 64 \<and>
        unat (runs t) + left (world k) (task_id t) = want (task_id t)) \<and>
     (\<forall>(i, name, n)\<in>set (finished_runs s). unat n = want i)"

definition work_left :: "('w \<Rightarrow> u64 \<Rightarrow> nat) \<Rightarrow> sched \<Rightarrow> 'w kernel \<Rightarrow> nat" where
  "work_left left s k = sum_list (map (\<lambda>p. left (world k) (task_id (the (boxes k p)))) (ready s))"

text \<open>The rows the ledger will show, numbers and names.\<close>

definition roster :: "sched \<Rightarrow> 'w kernel \<Rightarrow> (u64 \<times> string) multiset" where
  "roster s k = mset (map (\<lambda>p. (task_id (the (boxes k p)), task_name (the (boxes k p)))) (ready s)) +
     mset (map (\<lambda>(i, name, n). (i, name)) (finished_runs s))"

text \<open>
  \<open>event_ok c left k e\<close>: at least one tick while waiting and at most \<open>c\<close> ticks in all, every interrupted frame in
  the window of its task, and every step returns with the ticks it gets.
\<close>

definition event_ok :: "nat \<Rightarrow> ('w \<Rightarrow> u64 \<Rightarrow> nat) \<Rightarrow> 'w kernel \<Rightarrow> event \<Rightarrow> bool" where
  "event_ok c left k e \<longleftrightarrow> wait_ticks e \<noteq> [] \<and>
     (\<forall>p. length (wait_ticks e) + length (before_fence (turns e p)) + length (in_step (turns e p)) +
        length (after_fence (turns e p)) \<le> c) \<and>
     (\<forall>p t. boxes k p = Some t \<longrightarrow>
        (\<forall>f\<in>set (in_step (turns e p)). bottom (stack t) \<le> f_rsp f \<and> f_rsp f \<le> top_addr (stack t)) \<and>
        (\<forall>w M. 0 < left w (task_id t) \<longrightarrow> step t (length (in_step (turns e p))) w M \<noteq> None))"

lemma wait_kernel_ok: "kernel_ok q k \<Longrightarrow> kernel_ok q (k\<lparr>pre := ticks_hit fs (pre k)\<rparr>)"
  unfolding kernel_ok_def tables_ok_def driving_def task_ok_def frame_in_def
  by (simp add: ticks_hit_fence_down)

lemma wait_sched_ok: "sched_ok s k \<Longrightarrow> sched_ok s (k\<lparr>pre := ticks_hit fs (pre k)\<rparr>)"
  by (simp add: sched_ok_def wait_kernel_ok)

lemma wait_switches: "driving k \<Longrightarrow> PREEMPT_SWITCHES (ticks_hit fs (pre k)) = PREEMPT_SWITCHES (pre k)"
  by (simp add: ticks_hit_switches driving_def yankable_def)

lemma stepped_facts:
  assumes "turn_ok irq k p t"
  shows "step t (length (in_step (irq p))) (world k) (kmem k) = Some (stepped irq k p t)"
  using assms by (auto simp: turn_ok_def stepped_def split: option.splits)

text \<open>One turn keeps the plan, does one unit of work and leaves the roster alone.\<close>

abbreviation id_at :: "'w kernel \<Rightarrow> u64 \<Rightarrow> u64" where
  "id_at k b \<equiv> task_id (the (boxes k b))"

text \<open>What a turn does to the counts of steps: one less for the task that ran, the others as before.\<close>

lemma turn_counts:
  assumes plan: "on_plan left want s k" and turn: "turn_taken irq p t s k s' k'" and ret: "turn_ok irq k p t"
  shows "alive_after irq k p t \<longleftrightarrow> 1 < left (world k) (task_id t)" "left (world k') (task_id t) = left (world k) (task_id t) - 1"
    "keeps_to left t" "0 < left (world k) (task_id t)" "want (task_id t) < 2 ^ 64"
    "unat (runs t + 1) + left (world k') (task_id t) = want (task_id t)"
    "b \<in> set (ready s) \<Longrightarrow> b \<noteq> p \<Longrightarrow> boxes k' b = boxes k b \<and> left (world k') (id_at k b) = left (world k) (id_at k b)"
proof -
  have t: "boxes k p = Some t" "p \<in> set (ready s)" "\<And>b. b \<noteq> p \<Longrightarrow> boxes k' b = boxes k b"
    using turn by (simp_all add: turn_taken_def)
  obtain a M' where st: "step t (length (in_step (irq p))) (world k) (kmem k) = Some (a, world k', M')" "alive_after irq k p t = a"
    using stepped_facts[OF ret] turn by (cases "stepped irq k p t") (auto simp: turn_taken_def)
  show pt: "keeps_to left t" "0 < left (world k) (task_id t)" "want (task_id t) < 2 ^ 64"
    using plan t by (auto simp: on_plan_def Let_def)
  have total: "unat (runs t) + left (world k) (task_id t) = want (task_id t)" using plan t by (auto simp: on_plan_def Let_def)
  have left: "a \<longleftrightarrow> 1 < left (world k) (task_id t)" "left (world k') (task_id t) = left (world k) (task_id t) - 1"
      "\<And>j. j \<noteq> task_id t \<Longrightarrow> left (world k') j = left (world k) j"
    using st(1) pt(1) unfolding keeps_to_def by blast+
  show "alive_after irq k p t \<longleftrightarrow> 1 < left (world k) (task_id t)" using left(1) st(2) by simp
  show "left (world k') (task_id t) = left (world k) (task_id t) - 1" by (rule left(2))
  have "unat (runs t + 1) = Suc (unat (runs t))" using pt total by (simp add: unat_word_ariths)
  then show "unat (runs t + 1) + left (world k') (task_id t) = want (task_id t)" using total pt(2) left(2) by simp
  show "boxes k' b = boxes k b \<and> left (world k') (id_at k b) = left (world k) (id_at k b)" if b: "b \<in> set (ready s)" "b \<noteq> p"
  proof -
    have "inj_on (id_at k) (set (ready s))" using plan by (simp add: on_plan_def)
    then have "id_at k b \<noteq> task_id t" using inj_onD[of "id_at k" "set (ready s)" b p] b t(1,2) by auto
    then show ?thesis using t(3)[OF b(2)] left(3) by simp
  qed
qed

text \<open>The sums over a queue from which one task was taken out do not see the turn of that task.\<close>

lemma turn_rest:
  assumes others: "\<And>b. b \<in># R \<Longrightarrow> boxes k' b = boxes k b \<and> left w' (id_at k b) = left w (id_at k b)"
  shows "(\<Sum>b\<in>#R. left w' (id_at k' b)) = (\<Sum>b\<in>#R. left w (id_at k b))"
    "image_mset (\<lambda>b. (id_at k' b, task_name (the (boxes k' b)))) R = image_mset (\<lambda>b. (id_at k b, task_name (the (boxes k b)))) R"
  by (intro arg_cong[of _ _ sum_mset] image_mset_cong; simp add: others)+

lemma turn_on_plan:
  assumes ok: "sched_ok s k" and plan: "on_plan left want s k" and turn: "turn_taken irq p t s k s' k'"
    and ret: "turn_ok irq k p t"
  shows "on_plan left want s' k'" "work_left left s k = Suc (work_left left s' k')" "roster s' k' = roster s k"
    "b \<in> set (ready s) \<Longrightarrow> b \<noteq> p \<Longrightarrow> b \<in> set (ready s') \<and> boxes k' b = boxes k b \<and>
       left (world k') (id_at k b) = left (world k) (id_at k b)"
proof -
  let ?w = "world k" and ?w' = "world k'"
  note c = turn_counts[OF plan turn ret]
  define R where "R = mset (ready s) - {#p#}"
  have t: "boxes k p = Some t" "p \<in> set (ready s)" using turn by (simp_all add: turn_taken_def)
  have "distinct (ready s)" by (rule kernel_ok_queue(1)[OF sched_okD[OF ok]])
  then have R: "mset (ready s) = add_mset p R" "b \<in># R \<longleftrightarrow> b \<in> set (ready s) \<and> b \<noteq> p" for b
    using t(2) by (simp_all add: R_def in_diff_count distinct_count_atmost_1)
  have others: "boxes k' b = boxes k b \<and> left ?w' (id_at k b) = left ?w (id_at k b)" if "b \<in># R" for b
    using c(7) that R(2) by simp
  note rest = turn_rest[where left = left and w = ?w and w' = ?w' and R = R, OF others]
  have W: "work_left left s k = left ?w (task_id t) + (\<Sum>b\<in>#R. left ?w (id_at k b))"
    unfolding work_left_def sum_mset_sum_list[symmetric] mset_map R(1) using t(1) by simp
  have old: "let u = the (boxes k' b) in keeps_to left u \<and> 0 < left ?w' (task_id u) \<and> want (task_id u) < 2 ^ 64 \<and>
      unat (runs u) + left ?w' (task_id u) = want (task_id u)" if "b \<in># R" for b
    using plan others[OF that] R(2)[of b] that by (auto simp: on_plan_def Let_def)
  have inj: "inj_on (id_at k) (insert p (set_mset R))" using plan R(1) unfolding on_plan_def by (metis set_mset_mset set_mset_add_mset_insert)
  have fin: "\<forall>(i, name, n)\<in>set (finished_runs s). unat n = want i" using plan by (simp add: on_plan_def)
  have "on_plan left want s' k' \<and> work_left left s k = Suc (work_left left s' k') \<and> roster s' k' = roster s k"
  proof (cases "alive_after irq k p t")
    case True
    then obtain v where v: "mset (ready s') = add_mset p R" "finished_runs s' = finished_runs s"
        "boxes k' p = Some ((ran_task irq k p t)\<lparr>vruntime := v\<rparr>)"
      using turn R(1) by (auto simp: turn_taken_def)
    have set': "set (ready s') = insert p (set_mset R)" using v(1) by (metis set_mset_mset set_mset_add_mset_insert)
    have new: "id_at k' p = task_id t" "task_name (the (boxes k' p)) = task_name t" "runs (the (boxes k' p)) = runs t + 1"
        "step (the (boxes k' p)) = step t"
      using v(3) by (simp_all add: ran_task_def)
    have "inj_on (id_at k') (insert p (set_mset R)) = inj_on (id_at k) (insert p (set_mset R))"
      using new(1) others t(1) by (intro inj_on_cong) auto
    moreover have "keeps_to left (the (boxes k' p))" using c(3) new by (simp add: keeps_to_def)
    ultimately have "on_plan left want s' k'" using inj old fin v(2) set' new c(1,2,5,6) True by (simp add: on_plan_def Let_def)
    moreover have "work_left left s' k' = left ?w' (task_id t) + (\<Sum>b\<in>#R. left ?w' (id_at k' b))"
      unfolding work_left_def sum_mset_sum_list[symmetric] mset_map v(1) using new by simp
    moreover have "roster s' k' = roster s k" unfolding roster_def mset_map v(1,2) R(1) using new rest(2) t(1) by simp
    ultimately show ?thesis using W rest(1) c(1,2) True by simp
  next
    case False
    then have v: "mset (ready s') = R" "finished_runs s' = finished_runs s @ [(task_id t, task_name t, runs t + 1)]"
      using turn by (auto simp: turn_taken_def R_def)
    have set': "set (ready s') = set_mset R" using v(1) by (metis set_mset_mset)
    have one: "left ?w (task_id t) = 1" using c(1,4) False by simp
    have "inj_on (id_at k') (set_mset R)" using inj others by (simp add: inj_on_def)
    then have "on_plan left want s' k'" using old fin v(2) c(2,6) one set' by (simp add: on_plan_def)
    moreover have "work_left left s' k' = (\<Sum>b\<in>#R. left ?w' (id_at k' b))"
      unfolding work_left_def sum_mset_sum_list[symmetric] mset_map v(1) by simp
    moreover have "roster s' k' = roster s k" unfolding roster_def mset_map v R(1) using rest(2) t(1) by simp
    ultimately show ?thesis using W rest(1) one by simp
  qed
  then show "on_plan left want s' k'" "work_left left s k = Suc (work_left left s' k')" "roster s' k' = roster s k"
    by simp_all
  have "R \<subseteq># mset (ready s')" using turn by (auto simp: turn_taken_def R_def split: if_splits)
  then show "b \<in> set (ready s) \<Longrightarrow> b \<noteq> p \<Longrightarrow> b \<in> set (ready s') \<and> boxes k' b = boxes k b \<and>
       left ?w' (id_at k b) = left ?w (id_at k b)"
    using others[of b] R(2)[of b] by (auto dest: mset_subset_eqD)
qed

lemma turn_tasks:
  assumes turn: "turn_taken irq p t s k s' k'" and b: "boxes k' b = Some u"
  shows "\<exists>v. boxes k b = Some v \<and> stack u = stack v \<and> step u = step v \<and> task_id u = task_id v \<and>
     (state u = state v \<or> state u = Ready)"
proof (cases "b = p")
  case False
  then show ?thesis using turn b by (simp add: turn_taken_def)
next
  case True
  then show ?thesis using turn b by (auto simp: turn_taken_def ran_task_def split: if_splits)
qed

lemma tireless_still:
  assumes turn: "turn_taken irq p t s k s1 k1" "alive_after irq k p t"
    and all: "\<forall>u\<in>ran (boxes k). tireless u \<and> unat (runs u) + Suc n < 2 ^ 64" and u: "u \<in> ran (boxes k1)"
  shows "tireless u \<and> unat (runs u) + n < 2 ^ 64 \<and> (\<exists>v\<in>ran (boxes k). weight u = weight v)"
proof -
  obtain b where b: "boxes k1 b = Some u" using u by (auto simp: ran_def)
  have t: "boxes k p = Some t" "t \<in> ran (boxes k)" using turn(1) by (auto simp: turn_taken_def intro: ranI)
  show ?thesis
  proof (cases "b = p")
    case True
    then obtain v where v: "u = (ran_task irq k p t)\<lparr>vruntime := v\<rparr>" using b turn by (auto simp: turn_taken_def)
    have pt: "tireless t" "unat (runs t) + Suc n < 2 ^ 64" using all t(2) by blast+
    then have "unat (runs t + 1) = Suc (unat (runs t))" by (simp add: unat_word_ariths)
    then have "tireless u \<and> unat (runs u) + n < 2 ^ 64 \<and> weight u = weight t"
      using pt turn(2) v by (simp add: tireless_def ran_task_def)
    then show ?thesis using t(2) by blast
  next
    case False
    then have "boxes k b = Some u" using b turn(1) by (simp add: turn_taken_def)
    then have "u \<in> ran (boxes k)" by (rule ranI)
    then show ?thesis using all by fastforce
  qed
qed

lemma frames_fit_turn:
  assumes turn: "turn_taken irq p t s k s1 k1" and fit: "frames_fit i k"
  shows "frames_fit i k1"
  unfolding frames_fit_def
proof (intro allI impI)
  fix b u assume "boxes k1 b = Some u"
  then obtain v where "boxes k b = Some v" "stack u = stack v" using turn_tasks[OF turn] by blast
  then show "\<forall>f\<in>set (in_step (i b)). bottom (stack u) \<le> f_rsp f \<and> f_rsp f \<le> top_addr (stack u)"
    using fit by (simp add: frames_fit_def)
qed

lemma turn_event_ok:
  assumes "turn_taken irq p t s k s' k'" "event_ok c left k e"
  shows "event_ok c left k' e"
proof -
  have "(\<forall>f\<in>set (in_step (turns e b)). bottom (stack u) \<le> f_rsp f \<and> f_rsp f \<le> top_addr (stack u)) \<and>
      (\<forall>w M. 0 < left w (task_id u) \<longrightarrow> step u (length (in_step (turns e b))) w M \<noteq> None)" if "boxes k' b = Some u" for b u
    using turn_tasks[OF assms(1) that] assms(2) by (auto simp: event_ok_def)
  then show ?thesis using assms(2) by (simp add: event_ok_def)
qed

lemma event_turn_ok:
  assumes ok: "sched_ok s k" and plan: "on_plan left want s k" and e: "event_ok c left k e" and p: "p \<in> set (ready s)"
  shows "turn_ok (turns e) k p (the (boxes k p))"
proof -
  note kok = sched_okD[OF ok]
  obtain t where t: "boxes k p = Some t" using queue_task[OF kok p] by (elim exE)
  have pt: "keeps_to left t" "0 < left (world k) (task_id t)" "want (task_id t) < 2 ^ 64"
      "unat (runs t) + left (world k) (task_id t) = want (task_id t)"
    using plan p t by (auto simp: on_plan_def Let_def)
  have fr: "\<forall>f\<in>set (in_step (turns e p)). bottom (stack t) \<le> f_rsp f \<and> f_rsp f \<le> top_addr (stack t)"
      and ret: "step t (length (in_step (turns e p))) (world k) (kmem k) \<noteq> None"
    using e t pt(2) by (auto simp: event_ok_def)
  obtain a w M where st: "step t (length (in_step (turns e p))) (world k) (kmem k) = Some (a, w, M)"
    using ret by (metis not_None_eq prod_cases3)
  have "unat (runs t) \<noteq> unat (- 1 :: u64)" using pt by (simp add: unat_max_word)
  then have "runs t \<noteq> - 1" by auto
  moreover have "M (bottom (stack u)) = kmem k (bottom (stack u))" if u: "u \<in> ran (boxes k)" for u
  proof -
    obtain b where "boxes k b = Some u" using u by (auto simp: ran_def)
    then have "kmem k (bottom (stack u)) = STACK_CANARY"
      using kernel_okD(1)[OF kok] by (simp add: task_ok_def canary_ok_def)
    then show ?thesis using pt(1) st unfolding keeps_to_def by blast
  qed
  ultimately show ?thesis using fr st t by (simp add: turn_ok_def)
qed

section \<open>The driver drains the queue\<close>

text \<open>
  The state of the driver with \<open>n\<close> events to come: the plan is kept, every sleeper is due by tick \<open>wake\<close>, the tick
  counter does not wrap, neither guard can trip before the work and the naps are over, the
  events suffice, and either a yank has been seen or task \<open>i\<close>, whose first step waits for a tick, has not run.
\<close>

definition under_way ::
  "nat \<Rightarrow> ('w \<Rightarrow> u64 \<Rightarrow> nat) \<Rightarrow> (u64 \<Rightarrow> nat) \<Rightarrow> nat \<Rightarrow> u64 \<Rightarrow> nat \<Rightarrow> drive \<Rightarrow> sched \<Rightarrow> 'w kernel \<Rightarrow> bool" where
  "under_way c left want wake i n d s k \<longleftrightarrow>
     sched_ok s k \<and> on_plan left want s k \<and>
     (\<forall>t\<in>ran (boxes k). \<forall>u. state t = Sleeping u \<longrightarrow> unat u \<le> wake) \<and>
     unat (APIC_TICKS (pre k)) + c * n < 2 ^ 64 \<and> unat (last_tick d) \<le> unat (APIC_TICKS (pre k)) \<and>
     last_switches d = PREEMPT_SWITCHES (pre k) \<and>
     schedules d + work_left left s k \<le> SCHED_RUNAWAY_GUARD \<and>
     asleep_passes d + (wake - unat (APIC_TICKS (pre k))) \<le> SCHED_RUNAWAY_GUARD \<and>
     work_left left s k + (wake - unat (APIC_TICKS (pre k))) \<le> n \<and>
     (0 < preempts d \<or> (\<exists>p\<in>set (ready s). task_id (the (boxes k p)) = i \<and> left (world k) i = want i)) \<and>
     (\<forall>t\<in>ran (boxes k). \<forall>w M. task_id t = i \<and> left w i = want i \<longrightarrow> step t 0 w M = None)"

lemma unat_add_nat: "unat (a :: u64) + n < 2 ^ 64 \<Longrightarrow> unat (a + of_nat n) = unat a + n"
  by (simp add: unat_word_ariths unat_of_nat)

abbreviation waited :: "event \<Rightarrow> 'w kernel \<Rightarrow> 'w kernel" where
  "waited e k \<equiv> k\<lparr>pre := ticks_hit (wait_ticks e) (pre k)\<rparr>"

lemma under_way_wait:
  assumes uw: "under_way c left want wake i (Suc n) d s k" and e: "event_ok c left k e"
  shows "unat (APIC_TICKS (pre (waited e k))) = unat (APIC_TICKS (pre k)) + length (wait_ticks e)"
    "APIC_TICKS (pre (waited e k)) \<noteq> last_tick d" "0 < length (wait_ticks e)" "sched_ok s (waited e k)"
    "PREEMPT_SWITCHES (pre (waited e k)) = PREEMPT_SWITCHES (pre k)" "event_ok c left (waited e k) e"
    "on_plan left want s (waited e k)" "work_left left s (waited e k) = work_left left s k"
proof -
  have len: "0 < length (wait_ticks e)" "length (wait_ticks e) \<le> c" using e by (auto simp: event_ok_def add.assoc dest: spec)
  have "unat (APIC_TICKS (pre k)) + length (wait_ticks e) < 2 ^ 64"
    using uw len by (simp add: under_way_def)
  then show t: "unat (APIC_TICKS (pre (waited e k))) = unat (APIC_TICKS (pre k)) + length (wait_ticks e)"
    using unat_add_nat by simp
  then show "APIC_TICKS (pre (waited e k)) \<noteq> last_tick d" using uw len by (auto simp: under_way_def)
  show "0 < length (wait_ticks e)" by (rule len)
  have ok: "sched_ok s k" using uw by (simp add: under_way_def)
  then show "sched_ok s (waited e k)" by (rule wait_sched_ok)
  show "PREEMPT_SWITCHES (pre (waited e k)) = PREEMPT_SWITCHES (pre k)"
    using wait_switches[OF kernel_ok_queue(5)[OF sched_okD[OF ok]]] by simp
  show "event_ok c left (waited e k) e" using e by (simp add: event_ok_def)
  show "on_plan left want s (waited e k)" using uw by (simp add: under_way_def on_plan_def)
  show "work_left left s (waited e k) = work_left left s k" by (simp add: work_left_def)
qed

lemma under_way_idle:
  assumes uw: "under_way c left want wake i (Suc n) d s k" and e: "event_ok c left k e" and alive: "ready s \<noteq> []"
    and idle: "\<forall>p\<in>set (ready s). \<not> awake (APIC_TICKS (pre (waited e k))) (the (boxes k p))"
  shows "under_way c left want wake i n
     (d\<lparr>last_tick := APIC_TICKS (pre (waited e k)), asleep_passes := Suc (asleep_passes d)\<rparr>) s (waited e k)"
proof -
  note w = under_way_wait[OF uw e]
  obtain p where p: "p \<in> set (ready s)" using alive by (cases "ready s") auto
  have ok: "sched_ok s k" using uw by (simp add: under_way_def)
  obtain t where t: "boxes k p = Some t" using queue_task[OF sched_okD[OF ok] p] by (elim exE)
  obtain u where u: "state t = Sleeping u" "APIC_TICKS (pre (waited e k)) < u"
    using idle p t by (fastforce simp: awake_def split: TaskState.splits)
  have "unat u \<le> wake" using uw u(1) t ranI[of "boxes k" p t] by (simp add: under_way_def)
  then have "unat (APIC_TICKS (pre (waited e k))) < wake" using u(2) by (simp add: word_less_nat_alt)
  moreover have "length (wait_ticks e) \<le> c" using e by (auto simp: event_ok_def add.assoc dest: spec)
  moreover obtain l where "length (wait_ticks e) = Suc l" using w(3) by (cases "length (wait_ticks e)") auto
  ultimately show ?thesis
    using uw w(1,4,5,7,8) by (auto simp: under_way_def)
qed

lemma under_way_turn:
  assumes uw: "under_way c left want wake i (Suc n) d s k" and e: "event_ok c left k e"
    and turn: "turn_taken (turns e) p t s (waited e k) s' k'" and ok: "sched_ok s' k'"
  shows "under_way c left want wake i n (count_turn k' (d\<lparr>last_tick := APIC_TICKS (pre (waited e k))\<rparr>)) s' k'"
proof -
  note w = under_way_wait[OF uw e]
  let ?k = "waited e k" and ?i = "turns e p"
  have t: "boxes ?k p = Some t" "p \<in> set (ready s)" using turn by (simp_all add: turn_taken_def)
  have ret: "turn_ok (turns e) ?k p t" using event_turn_ok[OF w(4,7,6) t(2)] t(1) by simp
  note plan = turn_on_plan[OF w(4,7) turn ret]
  define m where "m = length (before_fence ?i) + length (in_step ?i) + length (after_fence ?i)"
  have m: "length (wait_ticks e) + m \<le> c" using e by (simp add: event_ok_def m_def add.assoc)
  have fits: "unat (APIC_TICKS (pre k)) + c + c * n < 2 ^ 64" using uw by (simp add: under_way_def)
  have ticks: "unat (APIC_TICKS (pre k')) = unat (APIC_TICKS (pre k)) + length (wait_ticks e) + m"
    using turn unat_add_nat[of "APIC_TICKS (pre ?k)" m] w(1) m fits by (simp add: turn_taken_def m_def)
  have sw: "PREEMPT_SWITCHES (pre k') = PREEMPT_SWITCHES (pre k) + of_nat (length (in_step ?i))"
    using turn w(5) by (simp add: turn_taken_def)
  have small: "length (in_step ?i) < 2 ^ 64" using m fits by (simp add: m_def)
  have yank: "PREEMPT_SWITCHES (pre k') = PREEMPT_SWITCHES (pre k) \<longleftrightarrow> in_step ?i = []"
    using small by (cases "in_step ?i") (simp_all add: sw word_of_nat_eq_0_iff nat_dvd_not_less del: of_nat_Suc)
  have old: "\<forall>t\<in>ran (boxes k). \<forall>u. state t = Sleeping u \<longrightarrow> unat u \<le> wake"
      "\<forall>t\<in>ran (boxes k). \<forall>w M. task_id t = i \<and> left w i = want i \<longrightarrow> step t 0 w M = None"
      "0 < preempts d \<or> (\<exists>p\<in>set (ready s). task_id (the (boxes k p)) = i \<and> left (world k) i = want i)"
    using uw by (simp_all add: under_way_def)
  have from_old: "\<exists>v\<in>ran (boxes k). step u = step v \<and> task_id u = task_id v \<and> (state u = state v \<or> state u = Ready)"
    if u: "u \<in> ran (boxes k')" for u
  proof -
    obtain b where "boxes k' b = Some u" using u by (auto simp: ran_def)
    from turn_tasks[OF turn this] show ?thesis by (auto simp: ran_def)
  qed
  have sleep: "\<forall>t\<in>ran (boxes k'). \<forall>u. state t = Sleeping u \<longrightarrow> unat u \<le> wake"
    using from_old old(1) by force
  have eager: "\<forall>t\<in>ran (boxes k'). \<forall>w M. task_id t = i \<and> left w i = want i \<longrightarrow> step t 0 w M = None"
    using from_old old(2) by metis
  have "in_step ?i \<noteq> [] \<or> 0 < preempts d \<or> (\<exists>p\<in>set (ready s'). task_id (the (boxes k' p)) = i \<and> left (world k') i = want i)"
  proof (rule ccontr)
    assume no: "\<not> ?thesis"
    then obtain b where b: "b \<in> set (ready s)" "task_id (the (boxes k b)) = i" "left (world k) i = want i" using old(3) by auto
    show False
    proof (cases "b = p")
      case True
      then have "step t 0 (world k) (kmem k) = None" using old(2) b t(1) ranI[of "boxes k" p t] by auto
      then show False using stepped_facts[OF ret] no by simp
    next
      case False
      then show False using plan(4)[OF b(1) False] b no by auto
    qed
  qed
  then show ?thesis
    using uw ok plan(1,2) w(8) ticks m sw yank sleep eager w(1) w(5)
    by (auto simp: under_way_def count_turn_def Let_def)
qed

context scheduler
begin

lemma drive_round:
  assumes uw: "under_way c left want wake i (Suc n) d s k" and e: "event_ok c left k e" and alive: "ready s \<noteq> []"
  shows "\<exists>d' s' k'. drive_loop schedule_once (e # es) d s k = drive_loop schedule_once es d' s' k' \<and> under_way c left want wake i n d' s' k' \<and>
     roster s' k' = roster s k \<and> (\<forall>e'. event_ok c left k e' \<longrightarrow> event_ok c left k' e') \<and>
     (s' = s \<and> k' = waited e k \<or>
      sched_ok s (waited e k) \<and> on_plan left want s (waited e k) \<and> schedule_once (turns e) s (waited e k) = Inr (True, s', k') \<and>
      (\<forall>p\<in>set (ready s). turn_ok (turns e) (waited e k) p (the (boxes k p))))"
proof -
  note w = under_way_wait[OF uw e]
  have still: "event_ok c left (waited e k) e'" if "event_ok c left k e'" for e' using that by (simp add: event_ok_def)
  have row: "roster s (waited e k) = roster s k" by (simp add: roster_def)
  let ?d = "d\<lparr>last_tick := APIC_TICKS (pre (waited e k))\<rparr>"
  show ?thesis
  proof (cases "\<forall>p\<in>set (ready s). \<not> awake (APIC_TICKS (pre (waited e k))) (the (boxes k p))")
    case True
    let ?d' = "?d\<lparr>asleep_passes := Suc (asleep_passes d)\<rparr>"
    have uw': "under_way c left want wake i n ?d' s (waited e k)"
      using under_way_idle[OF uw e alive True] by simp
    moreover have "schedule_once (turns e) s (waited e k) = Inr (False, s, waited e k)" using idle[OF w(4)] True by simp
    moreover have "asleep_passes ?d' \<le> SCHED_RUNAWAY_GUARD" using uw' by (simp add: under_way_def)
    ultimately have "drive_loop schedule_once (e # es) d s k = drive_loop schedule_once es ?d' s (waited e k)"
      using alive w(2) by (simp add: alive_def)
    then show ?thesis using uw' row still by blast
  next
    case False
    then obtain q where q: "q \<in> set (ready s)" "awake (APIC_TICKS (pre (waited e k))) (the (boxes (waited e k) q))" by auto
    have all: "\<forall>p\<in>set (ready s). turn_ok (turns e) (waited e k) p (the (boxes (waited e k) p))"
      using event_turn_ok[OF w(4,7,6)] by blast
    obtain p t s' k' where r: "schedule_once (turns e) s (waited e k) = Inr (True, s', k')" "sched_ok s' k'"
        "turn_taken (turns e) p t s (waited e k) s' k'"
      using busy[OF w(4) q all] by (elim exE conjE)
    note uw' = under_way_turn[OF uw e r(3,2)]
    have "schedules (count_turn k' ?d) \<le> SCHED_RUNAWAY_GUARD" using uw' by (simp add: under_way_def)
    then have "drive_loop schedule_once (e # es) d s k = drive_loop schedule_once es (count_turn k' ?d) s' k'"
      using alive w(2) r(1) by (simp add: alive_def)
    moreover have "turn_ok (turns e) (waited e k) p t" using all r(3) by (auto simp: turn_taken_def)
    then have "roster s' k' = roster s k" using turn_on_plan(3)[OF w(4,7) r(3)] row by simp
    moreover have "\<forall>p\<in>set (ready s). turn_ok (turns e) (waited e k) p (the (boxes k p))" using all by simp
    ultimately show ?thesis using uw' turn_event_ok[OF r(3) still] w(4,7) r(1) by blast
  qed
qed

text \<open>The driver drains the queue, and keeps whatever waits and turns keep.\<close>

lemma drive_drains_keeping:
  assumes "under_way c left want wake i (length es) d s k" "\<forall>e\<in>set es. event_ok c left k e" "J s k"
    and wait: "\<And>s k fs. J s k \<Longrightarrow> J s (k\<lparr>pre := ticks_hit fs (pre k)\<rparr>)"
    and turn: "\<And>irq s k s' k'. J s k \<Longrightarrow> sched_ok s k \<Longrightarrow> on_plan left want s k \<Longrightarrow> schedule_once irq s k = Inr (True, s', k') \<Longrightarrow>
      (\<forall>p\<in>set (ready s). turn_ok irq k p (the (boxes k p))) \<Longrightarrow> J s' k'"
  shows "\<exists>d' s' k'. drive_loop schedule_once es d s k = Inr (Drained d' s' k') \<and> ready s' = [] \<and> 0 < preempts d' \<and>
     on_plan left want s' k' \<and> roster s' k' = roster s k \<and> sched_ok s' k' \<and> J s' k'"
  using assms(1-3)
proof (induction es arbitrary: d s k)
  case Nil
  then have uw: "under_way c left want wake i 0 d s k" by simp
  have "ready s = []"
  proof (rule ccontr)
    assume "ready s \<noteq> []"
    then obtain p ps where p: "ready s = p # ps" by (cases "ready s") auto
    then have "0 < left (world k) (task_id (the (boxes k p)))" using uw by (simp add: under_way_def on_plan_def Let_def)
    then have "0 < work_left left s k" by (simp add: work_left_def p)
    then show False using uw by (simp add: under_way_def)
  qed
  then show ?case using uw Nil.prems(3) by (auto simp: under_way_def alive_def)
next
  case (Cons e es)
  have uw: "under_way c left want wake i (Suc (length es)) d s k" and e: "event_ok c left k e" using Cons.prems by simp_all
  show ?case
  proof (cases "ready s = []")
    case True
    then show ?thesis using uw Cons.prems(3) by (auto simp: under_way_def alive_def)
  next
    case False
    obtain d1 s1 k1 where r: "drive_loop schedule_once (e # es) d s k = drive_loop schedule_once es d1 s1 k1"
        "under_way c left want wake i (length es) d1 s1 k1" "roster s1 k1 = roster s k" "\<forall>e'. event_ok c left k e' \<longrightarrow> event_ok c left k1 e'"
        "s1 = s \<and> k1 = waited e k \<or> sched_ok s (waited e k) \<and> on_plan left want s (waited e k) \<and>
          schedule_once (turns e) s (waited e k) = Inr (True, s1, k1) \<and> (\<forall>p\<in>set (ready s). turn_ok (turns e) (waited e k) p (the (boxes k p)))"
      using drive_round[OF uw e False, of es] by (elim exE conjE)
    have J: "J s (waited e k)" by (rule wait[OF Cons.prems(3)])
    have "J s1 k1" using r(5)
    proof (elim disjE conjE)
      assume "sched_ok s (waited e k)" "on_plan left want s (waited e k)" "schedule_once (turns e) s (waited e k) = Inr (True, s1, k1)"
        "\<forall>p\<in>set (ready s). turn_ok (turns e) (waited e k) p (the (boxes k p))"
      then show ?thesis by (intro turn[OF J]) simp_all
    qed (use J in simp)
    then show ?thesis using Cons.IH[OF r(2)] Cons.prems(2) r(1,3,4) by simp
  qed
qed

lemmas drive_drains = drive_drains_keeping[where J = "\<lambda>_ _. True", OF _ _ TrueI TrueI TrueI]

end

end
