(* ===== verification/Round_Robin.thy ===== *)
theory Round_Robin
  imports Scheduler
begin

text \<open>
  The round-robin policy (\<open>RoundRobin\<close> of \<open>task.rs\<close>): a first-in first-out queue, one pass over it per
  call. The policy keeps the contract of \<open>Scheduler\<close>, runs the first awake task in queue order, and gives
  every task an equal share of the calls.
\<close>

definition rr_spawn :: "u64 \<Rightarrow> 'w Task \<Rightarrow> sched \<Rightarrow> 'w kernel \<Rightarrow> (sched \<times> 'w kernel) outcome" where
  "rr_spawn p t s k = enqueue p t s k"

text \<open>The \<open>for\<close> loop of \<open>schedule_once\<close>, with the number of rounds still to go.\<close>

fun rr_pass :: "(u64 \<Rightarrow> irqs) \<Rightarrow> nat \<Rightarrow> sched \<Rightarrow> 'w kernel \<Rightarrow> (bool \<times> sched \<times> 'w kernel) outcome" where
  "rr_pass irq 0 s k = Inr (False, s, k)"
| "rr_pass irq (Suc n) s k =
     (case ready s of
        [] \<Rightarrow> Inr (False, s, k)
      | p # rest \<Rightarrow>
          obind (deref p k) (\<lambda>t.
            if \<not> awake (APIC_TICKS (pre k)) t then rr_pass irq n (s\<lparr>ready := rest @ [p]\<rparr>) k
            else obind (dispatch irq p k) (\<lambda>k. settle p (s\<lparr>ready := rest\<rparr>) k)))"

definition rr_schedule_once :: "(u64 \<Rightarrow> irqs) \<Rightarrow> sched \<Rightarrow> 'w kernel \<Rightarrow> (bool \<times> sched \<times> 'w kernel) outcome" where
  "rr_schedule_once irq s k =
     (let len = length (ready s) in if len = 0 then Inr (False, s, k) else rr_pass irq len s k)"

section \<open>One pass\<close>

lemma rr_pass_asleep:
  assumes "\<forall>p\<in>set xs. \<exists>t. boxes k p = Some t \<and> \<not> awake (APIC_TICKS (pre k)) t" "ready s = xs @ ys"
  shows "rr_pass irq (length xs + n) s k = rr_pass irq n (s\<lparr>ready := ys @ xs\<rparr>) k"
  using assms
proof (induction xs arbitrary: s ys)
  case (Cons p xs)
  then show ?case
    using Cons.IH[of "s\<lparr>ready := xs @ ys @ [p]\<rparr>" "ys @ [p]"] by (auto simp: deref_def)
qed simp

lemma rr_idle:
  assumes ok: "sched_ok s k" and idle: "\<forall>p\<in>set (ready s). \<not> awake (APIC_TICKS (pre k)) (the (boxes k p))"
  shows "rr_schedule_once irq s k = Inr (False, s, k)"
proof -
  have "\<forall>p\<in>set (ready s). \<exists>t. boxes k p = Some t \<and> \<not> awake (APIC_TICKS (pre k)) t"
    using idle queue_task[OF sched_okD[OF ok]] by force
  then show ?thesis
    using rr_pass_asleep[of "ready s" k s "[]" irq 0] by (simp add: rr_schedule_once_def)
qed

text \<open>The first awake task in queue order takes the turn; the tasks it overtook keep their order behind the rest.\<close>

lemma rr_turn:
  assumes ok: "sched_ok s k" and q: "ready s = xs @ p # ys" and t: "boxes k p = Some t" "awake (APIC_TICKS (pre k)) t"
    and asleep: "\<forall>b\<in>set xs. \<not> awake (APIC_TICKS (pre k)) (the (boxes k b))" and turn: "turn_ok irq k p t"
  shows "\<exists>s' k'. rr_schedule_once irq s k = Inr (True, s', k') \<and> sched_ok s' k' \<and> turn_taken irq p t s k s' k' \<and>
     ready s' = ys @ xs @ (if alive_after irq k p t then [p] else [])"
proof -
  have "\<forall>b\<in>set xs. \<exists>u. boxes k b = Some u \<and> \<not> awake (APIC_TICKS (pre k)) u"
    using asleep queue_task[OF sched_okD[OF ok]] q by force
  then have "rr_pass irq (length (ready s)) s k = rr_pass irq (Suc (length ys)) (s\<lparr>ready := (p # ys) @ xs\<rparr>) k"
    using rr_pass_asleep[of xs k s "p # ys" irq "Suc (length ys)"] q by simp
  moreover obtain k1 where k1: "dispatch irq p k = Inr k1" "after_turn irq p t k k1" "kernel_ok (ready s) k1"
    using dispatch_spec[OF sched_okD[OF ok] t(1) turn] by (elim exE conjE)
  ultimately have r: "rr_schedule_once irq s k = settle p (s\<lparr>ready := ys @ xs\<rparr>) k1"
    using q t by (simp add: rr_schedule_once_def deref_def)
  have "boxes k1 = (boxes k)(p \<mapsto> (ran_task irq k p t)\<lparr>vruntime := vruntime (ran_task irq k p t)\<rparr>)"
    using k1(2) by (simp add: after_turn_def)
  from settle_turn[OF ok t k1(3) this, of "s\<lparr>ready := ys @ xs\<rparr>"] k1(2) q r
  show ?thesis by (auto simp: after_turn_def)
qed

interpretation rr: scheduler "rr_spawn :: u64 \<Rightarrow> 'w Task \<Rightarrow> sched \<Rightarrow> 'w kernel \<Rightarrow> (sched \<times> 'w kernel) outcome" rr_schedule_once
proof unfold_locales
  fix t :: "'w Task" and p s k
  show "unat (slot t) < MAX_TASKS \<Longrightarrow> 0 < weight t \<Longrightarrow>
      rr_spawn p t s k = Inr (s\<lparr>ready := ready s @ [p]\<rparr>, registered p t k)"
    by (simp add: rr_spawn_def enqueue_eq)
next
  fix s and k :: "'w kernel" and irq
  assume "sched_ok s k" "\<forall>p\<in>set (ready s). \<not> awake (APIC_TICKS (pre k)) (the (boxes k p))"
  then show "rr_schedule_once irq s k = Inr (False, s, k)" by (rule rr_idle)
next
  fix s and k :: "'w kernel" and q irq
  assume ok: "sched_ok s k" and q: "q \<in> set (ready s)" "awake (APIC_TICKS (pre k)) (the (boxes k q))"
    and turn: "\<forall>p\<in>set (ready s). turn_ok irq k p (the (boxes k p))"
  obtain xs p ys where p: "ready s = xs @ p # ys" "awake (APIC_TICKS (pre k)) (the (boxes k p))"
      "\<forall>b\<in>set xs. \<not> awake (APIC_TICKS (pre k)) (the (boxes k b))"
    using split_list_first_prop[of "ready s" "\<lambda>p. awake (APIC_TICKS (pre k)) (the (boxes k p))"] q by blast
  obtain t where t: "boxes k p = Some t" using queue_task[OF sched_okD[OF ok], of p] p(1) by auto
  then have "awake (APIC_TICKS (pre k)) t" "turn_ok irq k p t" using p(1,2) turn by simp_all
  from rr_turn[OF ok p(1) t this(1) p(3) this(2)]
  show "\<exists>p t s' k'. rr_schedule_once irq s k = Inr (True, s', k') \<and> sched_ok s' k' \<and> turn_taken irq p t s k s' k'"
    by blast
qed

section \<open>Equal shares\<close>

lemma rr_shares:
  assumes "sched_ok s k" "ready s \<noteq> []" "\<forall>t\<in>ran (boxes k). tireless t \<and> unat (runs t) + length is < 2 ^ 64"
    "\<forall>irq\<in>set is. frames_fit irq k"
  shows "\<exists>s' k'. schedule_many rr_schedule_once is s k = Inr (s', k') \<and> ready s' = rotate (length is) (ready s) \<and> sched_ok s' k' \<and>
     (\<forall>j<length (ready s). unat (runs (the (boxes k' (ready s ! j)))) =
        unat (runs (the (boxes k (ready s ! j)))) + (length is + length (ready s) - 1 - j) div length (ready s))"
  using assms
proof (induction "is" arbitrary: s k)
  case (Cons irq "is")
  note ok = Cons.prems(1)
  obtain p ps where q: "ready s = p # ps" using Cons.prems(2) by (cases "ready s") auto
  obtain t where t: "boxes k p = Some t" using queue_task[OF sched_okD[OF ok], of p] q by auto
  have pt: "tireless t" "unat (runs t) + Suc (length is) < 2 ^ 64" using Cons.prems(3) ranI[of "boxes k", OF t] by auto
  have turn: "turn_ok irq k p t" "alive_after irq k p t"
    using tireless_turn[OF sched_okD[OF ok] t pt(1)] Cons.prems(4) pt(2) by auto
  have aw: "awake (APIC_TICKS (pre k)) t" using pt(1) by (simp add: tireless_def awake_def)
  obtain s1 k1 where r: "rr_schedule_once irq s k = Inr (True, s1, k1)" "sched_ok s1 k1" "turn_taken irq p t s k s1 k1"
      "ready s1 = ps @ [p]"
    using rr_turn[OF ok _ t aw _ turn(1), of "[]" ps] q turn(2) by auto
  have others: "boxes k1 b = boxes k b" if "b \<noteq> p" for b using r(3) that by (simp add: turn_taken_def)
  obtain v where bp: "boxes k1 p = Some ((ran_task irq k p t)\<lparr>vruntime := v\<rparr>)"
    using r(3) turn(2) by (auto simp: turn_taken_def)
  have runs: "unat (runs t + 1) = Suc (unat (runs t))" using pt(2) by (simp add: unat_word_ariths)
  have all: "\<forall>u\<in>ran (boxes k). tireless u \<and> unat (runs u) + Suc (length is) < 2 ^ 64" using Cons.prems(3) by simp
  note still = tireless_still[OF r(3) turn(2) all]
  have fit: "frames_fit i k1" if "i \<in> set is" for i
    using frames_fit_turn[OF r(3)] Cons.prems(4) that by simp
  obtain s' k' where ih: "schedule_many rr_schedule_once is s1 k1 = Inr (s', k')" "ready s' = rotate (length is) (ready s1)"
      "sched_ok s' k'"
      "\<forall>j<length (ready s1). unat (runs (the (boxes k' (ready s1 ! j)))) =
        unat (runs (the (boxes k1 (ready s1 ! j)))) + (length is + length (ready s1) - 1 - j) div length (ready s1)"
    using Cons.IH[OF r(2)] r(4) still fit by auto
  let ?n = "length (ready s)"
  have n: "length (ready s1) = ?n" "?n = Suc (length ps)" using r(4) q by simp_all
  have dist: "distinct (ready s)" by (rule kernel_ok_queue(1)[OF sched_okD[OF ok]])
  have "unat (runs (the (boxes k' (ready s ! j)))) = unat (runs (the (boxes k (ready s ! j)))) +
      (Suc (length is) + ?n - 1 - j) div ?n" if j: "j < ?n" for j
  proof (cases j)
    case 0
    have "ready s1 ! length ps = p" using r(4) by simp
    moreover have "(length is + ?n) div ?n = Suc (length is div ?n)" using div_add_self2[of ?n "length is"] n(2) by simp
    moreover have "runs (the (boxes k1 p)) = runs t + 1" using bp by (simp add: ran_task_def)
    ultimately show ?thesis using ih(4)[rule_format, of "length ps"] n q t 0 runs by simp
  next
    case (Suc i)
    then have i: "i < length ps" using j n by simp
    have "ready s1 ! i = ready s ! j" using Suc i r(4) q by (simp add: nth_append)
    moreover have "ready s ! j \<noteq> p" using dist q Suc i by auto
    ultimately show ?thesis using ih(4)[rule_format, of i] n i Suc others by simp
  qed
  then show ?case
    using r(1,4) ih(1-3) q by (simp add: rotate1_rotate_swap[symmetric]) (simp add: rotate1_rotate_swap)
qed simp

end
