(* ===== verification/Cfs.thy ===== *)
theory Cfs
  imports Scheduler
begin

text \<open>
  The fair policy (\<open>Cfs\<close> of \<open>task.rs\<close>): run the awake task with the smallest virtual runtime, then
  charge it a slice scaled by its weight. The policy keeps the contract of \<open>Scheduler\<close>.
\<close>

text \<open>The bookkeeping of \<open>Cfs\<close>, written once more in the source; it is that of the other policy.\<close>

definition cfs_new :: sched where
  "cfs_new = \<lparr>ready = [], finished_runs = [], next_number = 1\<rparr>"

definition cfs_next_id :: "sched \<Rightarrow> (u64 \<times> sched) outcome" where
  "cfs_next_id s = (let i = next_number s in obind (add_op (next_number s) 1) (\<lambda>n. Inr (i, s\<lparr>next_number := n\<rparr>)))"

definition cfs_alive :: "sched \<Rightarrow> nat" where
  "cfs_alive s = length (ready s)"

definition cfs_ledger :: "sched \<Rightarrow> 'w kernel \<Rightarrow> (u64 \<times> string \<times> u64) list outcome" where
  "cfs_ledger s k =
     obind (derefs (ready s) k) (\<lambda>ts.
       let out = map (\<lambda>t. (task_id t, task_name t, runs t)) ts; out = out @ finished_runs s in
       Inr (sort_key fst out))"

lemma cfs_bookkeeping: "cfs_new = sched_new" "cfs_next_id = next_id" "cfs_alive = alive" "cfs_ledger = ledger"
  by (simp_all add: fun_eq_iff cfs_new_def sched_new_def cfs_next_id_def next_id_def cfs_alive_def alive_def cfs_ledger_def ledger_def Let_def)

text \<open>The loop of \<open>pick_min\<close>: position and virtual runtime of the best task so far.\<close>

fun pick_min_from :: "nat \<Rightarrow> u64 \<Rightarrow> 'w Task list \<Rightarrow> (nat \<times> u64) option \<Rightarrow> (nat \<times> u64) option" where
  "pick_min_from i now [] best = best"
| "pick_min_from i now (t # ts) best =
     pick_min_from (Suc i) now ts
       (if \<not> awake now t then best
        else case best of
               None \<Rightarrow> Some (i, vruntime t)
             | Some (j, v) \<Rightarrow> if vruntime t < v then Some (i, vruntime t) else Some (j, v))"

definition pick_min :: "u64 \<Rightarrow> 'w Task list \<Rightarrow> nat option" where
  "pick_min now ts = map_option fst (pick_min_from 0 now ts None)"

fun min_vruntime :: "'w Task list \<Rightarrow> u64" where
  "min_vruntime [] = 0"
| "min_vruntime (t # ts) = fold min (map vruntime ts) (vruntime t)"

definition cfs_spawn :: "u64 \<Rightarrow> 'w Task \<Rightarrow> sched \<Rightarrow> 'w kernel \<Rightarrow> (sched \<times> 'w kernel) outcome" where
  "cfs_spawn p t s k =
     obind (assert_that (weight t > 0) ''cfs: refusing zero-weight task'') (\<lambda>_. enqueue p t s k)"

text \<open>A woken sleeper is lifted to the smallest virtual runtime of the others.\<close>

definition woken :: "'w Task list \<Rightarrow> 'w Task \<Rightarrow> 'w Task" where
  "woken others t =
     (case state t of
        Sleeping u \<Rightarrow>
          let floor = min_vruntime others in
          (if vruntime t < floor then t\<lparr>vruntime := floor\<rparr> else t)\<lparr>state := Ready\<rparr>
      | _ \<Rightarrow> t)"

definition charge :: "'w Task \<Rightarrow> 'w Task" where
  "charge t = t\<lparr>vruntime := saturating_add (vruntime t) (saturating_mul CFS_BASE_SLICE 1024 div ucast (max (weight t) 1))\<rparr>"

definition cfs_schedule_once :: "(u64 \<Rightarrow> irqs) \<Rightarrow> sched \<Rightarrow> 'w kernel \<Rightarrow> (bool \<times> sched \<times> 'w kernel) outcome" where
  "cfs_schedule_once irq s k =
     obind (derefs (ready s) k) (\<lambda>ts.
       case pick_min (APIC_TICKS (pre k)) ts of
         None \<Rightarrow> Inr (False, s, k)
       | Some idx \<Rightarrow>
           if length (ready s) \<le> idx then Inl (Failed ''cfs pick_min lied'')
           else
             let p = ready s ! idx;
                 s = s\<lparr>ready := take idx (ready s) @ drop (Suc idx) (ready s)\<rparr>;
                 t = woken (take idx ts @ drop (Suc idx) ts) (ts ! idx) in
             obind (dispatch irq p (k\<lparr>boxes := (boxes k)(p \<mapsto> t)\<rparr>)) (\<lambda>k.
             obind (deref p k) (\<lambda>t.
               settle p s (k\<lparr>boxes := (boxes k)(p \<mapsto> charge t)\<rparr>))))"

section \<open>Picking\<close>

lemma pick_min_from_None: "pick_min_from i now ts best = None \<longleftrightarrow> best = None \<and> (\<forall>t\<in>set ts. \<not> awake now t)"
  by (induction ts arbitrary: i best) (auto split: option.splits)

text \<open>The winner is the old best, or the first of the awake tasks that undercut it with the least virtual runtime.\<close>

definition wins :: "u64 \<Rightarrow> 'w Task list \<Rightarrow> nat \<Rightarrow> bool" where
  "wins now ts m \<longleftrightarrow> m < length ts \<and> awake now (ts ! m) \<and>
     (\<forall>l<length ts. awake now (ts ! l) \<longrightarrow> vruntime (ts ! m) \<le> vruntime (ts ! l)) \<and>
     (\<forall>l<m. awake now (ts ! l) \<longrightarrow> vruntime (ts ! m) < vruntime (ts ! l))"

lemma all_less_Suc: "(\<forall>l<Suc n. P l) \<longleftrightarrow> P 0 \<and> (\<forall>l<n. P (Suc l))"
  using less_Suc_eq_0_disj by auto

lemma wins_Suc:
  "wins now (t # ts) (Suc m) \<longleftrightarrow> wins now ts m \<and> (awake now t \<longrightarrow> vruntime (ts ! m) < vruntime t)"
  by (auto simp: wins_def all_less_Suc)

lemma wins_0:
  "wins now (t # ts) 0 \<longleftrightarrow> awake now t \<and> (\<forall>l<length ts. awake now (ts ! l) \<longrightarrow> vruntime t \<le> vruntime (ts ! l))"
  by (auto simp: wins_def all_less_Suc)

lemma pick_min_from_Some:
  "pick_min_from i now ts best = Some (j, v) \<Longrightarrow>
     best = Some (j, v) \<and> (\<forall>l<length ts. awake now (ts ! l) \<longrightarrow> v \<le> vruntime (ts ! l)) \<or>
     (\<exists>m. j = i + m \<and> wins now ts m \<and> v = vruntime (ts ! m) \<and> (\<forall>a w. best = Some (a, w) \<longrightarrow> v < w))"
proof (induction ts arbitrary: i best)
  case (Cons t ts)
  let ?b = "if \<not> awake now t then best else case best of None \<Rightarrow> Some (i, vruntime t)
      | Some (j, v) \<Rightarrow> if vruntime t < v then Some (i, vruntime t) else Some (j, v)"
  from Cons.IH[of "Suc i" ?b] Cons.prems
  consider (old) "?b = Some (j, v)" "\<forall>l<length ts. awake now (ts ! l) \<longrightarrow> v \<le> vruntime (ts ! l)"
    | (new) m where "j = Suc i + m" "wins now ts m" "v = vruntime (ts ! m)" "\<forall>a w. ?b = Some (a, w) \<longrightarrow> v < w"
    by auto
  then show ?case
  proof cases
    case old
    show ?thesis
    proof (cases "best = Some (j, v) \<and> (awake now t \<longrightarrow> v \<le> vruntime t)")
      case True
      then show ?thesis using old by (simp add: all_less_Suc)
    next
      case False
      then have "awake now t \<and> j = i \<and> v = vruntime t \<and> (\<forall>a w. best = Some (a, w) \<longrightarrow> v < w)"
        using old(1) by (auto split: if_splits option.splits)
      then show ?thesis using old(2) by (intro disjI2 exI[of _ 0]) (auto simp: wins_0)
    qed
  next
    case new
    have "awake now t \<longrightarrow> vruntime (ts ! m) < vruntime t" "\<forall>a w. best = Some (a, w) \<longrightarrow> v < w"
      using new(3,4) by (auto split: if_splits option.splits)
    then show ?thesis using new by (intro disjI2 exI[of _ "Suc m"]) (simp add: wins_Suc)
  qed
qed simp

text \<open>\<open>pick_min\<close> finds the first of the awake tasks with the smallest virtual runtime.\<close>

lemma pick_min_Some: "pick_min now ts = Some j \<Longrightarrow> wins now ts j"
  using pick_min_from_Some[of 0 now ts None] by (fastforce simp: pick_min_def)

lemma pick_min_None: "pick_min now ts = None \<longleftrightarrow> (\<forall>t\<in>set ts. \<not> awake now t)"
  by (simp add: pick_min_def pick_min_from_None)

section \<open>One call\<close>

lemma cfs_idle:
  assumes ok: "sched_ok s k" and idle: "\<forall>p\<in>set (ready s). \<not> awake (APIC_TICKS (pre k)) (the (boxes k p))"
  shows "cfs_schedule_once irq s k = Inr (False, s, k)"
proof -
  have "derefs (ready s) k = Inr (map (\<lambda>p. the (boxes k p)) (ready s))" using derefs_queue[OF sched_okD[OF ok]] by simp
  moreover have "pick_min (APIC_TICKS (pre k)) (map (\<lambda>p. the (boxes k p)) (ready s)) = None"
    using idle by (simp add: pick_min_None)
  ultimately show ?thesis by (simp add: cfs_schedule_once_def)
qed

definition sleeper :: "'w Task \<Rightarrow> bool" where
  "sleeper t \<longleftrightarrow> (\<exists>u. state t = Sleeping u)"

lemma woken_eq:
  "woken others t = t\<lparr>state := (if sleeper t then Ready else state t),
     vruntime := (if sleeper t then max (vruntime t) (min_vruntime others) else vruntime t)\<rparr>"
  by (cases "state t") (simp_all add: woken_def sleeper_def Let_def max_def)

text \<open>The winner takes the turn, and its virtual runtime is what it had, or woke up with, plus its slice.\<close>

definition turn_slice :: "'w Task \<Rightarrow> u64" where
  "turn_slice t = saturating_mul CFS_BASE_SLICE 1024 div ucast (max (weight t) 1)"

lemma cfs_turn:
  assumes ok: "sched_ok s k" and ts: "ts = map (\<lambda>p. the (boxes k p)) (ready s)" and j: "pick_min (APIC_TICKS (pre k)) ts = Some j"
    and turn: "turn_ok irq k (ready s ! j) (ts ! j)"
  shows "\<exists>s' k'. cfs_schedule_once irq s k = Inr (True, s', k') \<and> sched_ok s' k' \<and> turn_taken irq (ready s ! j) (ts ! j) s k s' k' \<and>
     ready s' = take j (ready s) @ drop (Suc j) (ready s) @ (if alive_after irq k (ready s ! j) (ts ! j) then [ready s ! j] else []) \<and>
     (alive_after irq k (ready s ! j) (ts ! j) \<longrightarrow>
        vruntime (the (boxes k' (ready s ! j))) =
          saturating_add (vruntime (woken (take j ts @ drop (Suc j) ts) (ts ! j))) (turn_slice (ts ! j)))"
proof -
  let ?p = "ready s ! j" and ?t = "ts ! j"
  note kok = sched_okD[OF ok]
  have w: "wins (APIC_TICKS (pre k)) ts j" using j by (rule pick_min_Some)
  then have len: "j < length (ready s)" using ts by (simp add: wins_def)
  then have t: "boxes k ?p = Some ?t" using queue_task[OF kok, of ?p] ts by auto
  define st v where "st = (if sleeper ?t then Ready else state ?t)"
    and "v = (if sleeper ?t then max (vruntime ?t) (min_vruntime (take j ts @ drop (Suc j) ts)) else vruntime ?t)"
  have woken: "woken (take j ts @ drop (Suc j) ts) ?t = ?t\<lparr>state := st, vruntime := v\<rparr>" (is "_ = ?t1")
    by (simp add: woken_eq st_def v_def)
  let ?k0 = "k\<lparr>boxes := (boxes k)(?p \<mapsto> ?t1)\<rparr>"
  have "kernel_ok (ready s) ?k0" using kok t by (rule kernel_ok_state)
  moreover have "turn_ok irq ?k0 ?p ?t1" using turn turn_state(1)[OF t] by simp
  ultimately obtain k1 where k1: "dispatch irq ?p ?k0 = Inr k1" "after_turn irq ?p ?t1 ?k0 k1" "kernel_ok (ready s) k1"
    using dispatch_spec[of "ready s" ?k0 ?p ?t1 irq] by auto
  have st1: "stepped irq ?k0 ?p ?t1 = stepped irq k ?p ?t" by (rule turn_state(2)[OF t])
  then have ran: "ran_task irq ?k0 ?p ?t1 = (ran_task irq k ?p ?t)\<lparr>vruntime := v\<rparr>" by (simp add: ran_task_def)
  define u where "u = saturating_add v (turn_slice ?t)"
  let ?r = "(ran_task irq k ?p ?t)\<lparr>vruntime := v\<rparr>"
  have charge: "charge ?r = (ran_task irq k ?p ?t)\<lparr>vruntime := u\<rparr>"
    by (simp add: charge_def u_def turn_slice_def ran_task_def)
  let ?k2 = "k1\<lparr>boxes := (boxes k1)(?p \<mapsto> charge ?r)\<rparr>"
  have b1: "boxes k1 ?p = Some ?r" using k1(2) ran by (simp add: after_turn_def)
  have "kernel_ok (ready s) (k1\<lparr>boxes := (boxes k1)(?p \<mapsto> ?r\<lparr>state := state ?r, vruntime := u\<rparr>)\<rparr>)"
    by (rule kernel_ok_state[OF k1(3) b1])
  then have ok2: "kernel_ok (ready s) ?k2" by (simp add: charge)
  let ?s = "s\<lparr>ready := take j (ready s) @ drop (Suc j) (ready s)\<rparr>"
  have "cfs_schedule_once irq s k = settle ?p ?s ?k2"
    using derefs_queue[OF kok, of "ready s"] j len k1(1) woken b1
    by (simp add: cfs_schedule_once_def ts[symmetric] deref_def Let_def)
  moreover have b2: "boxes ?k2 = (boxes k)(?p \<mapsto> (ran_task irq k ?p ?t)\<lparr>vruntime := u\<rparr>)"
    using k1(2) by (simp add: after_turn_def charge)
  moreover have "mset (ready s) = add_mset ?p (mset (take j (ready s) @ drop (Suc j) (ready s)))"
    using arg_cong[OF id_take_nth_drop[OF len], of mset] by simp
  moreover have "awake (APIC_TICKS (pre k)) ?t" using w by (simp add: wins_def)
  ultimately show ?thesis
    using settle_turn[OF ok t _ ok2 b2, of ?s] k1(2) st1 woken
    by (auto simp: after_turn_def u_def)
qed

interpretation cfs: scheduler "cfs_spawn :: u64 \<Rightarrow> 'w Task \<Rightarrow> sched \<Rightarrow> 'w kernel \<Rightarrow> (sched \<times> 'w kernel) outcome" cfs_schedule_once
proof unfold_locales
  fix t :: "'w Task" and p s k
  show "unat (slot t) < MAX_TASKS \<Longrightarrow> 0 < weight t \<Longrightarrow>
      cfs_spawn p t s k = Inr (s\<lparr>ready := ready s @ [p]\<rparr>, registered p t k)"
    by (simp add: cfs_spawn_def enqueue_eq)
next
  fix s and k :: "'w kernel" and irq
  assume "sched_ok s k" "\<forall>p\<in>set (ready s). \<not> awake (APIC_TICKS (pre k)) (the (boxes k p))"
  then show "cfs_schedule_once irq s k = Inr (False, s, k)" by (rule cfs_idle)
next
  fix s and k :: "'w kernel" and q irq
  assume ok: "sched_ok s k" and q: "q \<in> set (ready s)" "awake (APIC_TICKS (pre k)) (the (boxes k q))"
    and turn: "\<forall>p\<in>set (ready s). turn_ok irq k p (the (boxes k p))"
  define ts where "ts = map (\<lambda>p. the (boxes k p)) (ready s)"
  have "pick_min (APIC_TICKS (pre k)) ts \<noteq> None" using q by (auto simp: pick_min_None ts_def)
  then obtain j where j: "pick_min (APIC_TICKS (pre k)) ts = Some j" by auto
  then have "j < length (ready s)" using pick_min_Some[OF j] by (simp add: wins_def ts_def)
  then have "turn_ok irq k (ready s ! j) (ts ! j)" using turn by (simp add: ts_def)
  from cfs_turn[OF ok ts_def j this]
  show "\<exists>p t s' k'. cfs_schedule_once irq s k = Inr (True, s', k') \<and> sched_ok s' k' \<and> turn_taken irq p t s k s' k'"
    by blast
qed

section \<open>Virtual runtimes stay together\<close>

text \<open>No queued task is ahead of another by more than \<open>d\<close>.\<close>

definition spread_within :: "nat \<Rightarrow> sched \<Rightarrow> 'w kernel \<Rightarrow> bool" where
  "spread_within d s k \<longleftrightarrow>
     (\<forall>a\<in>set (ready s). \<forall>b\<in>set (ready s). unat (vruntime (the (boxes k a))) \<le> unat (vruntime (the (boxes k b))) + d)"

text \<open>Charging a task that was the least, by the slice that bounds the spread, keeps the bound.\<close>

lemma spread_charge:
  fixes k k1 :: "'w kernel"
  assumes spread: "spread_within d s k" and p: "p \<in> set (ready s)" "boxes k p = Some t"
    and least: "\<forall>b\<in>set (ready s). unat (vruntime t) \<le> unat (vruntime (the (boxes k b)))"
    and after: "set (ready s1) = set (ready s)" "\<forall>b. b \<noteq> p \<longrightarrow> boxes k1 b = boxes k b"
      "unat (vruntime (the (boxes k1 p))) = min (unat (vruntime t) + d) (2 ^ 64 - 1)"
  shows "spread_within d s1 k1"
  unfolding spread_within_def after(1)
proof (intro ballI)
  fix a b assume ab: "a \<in> set (ready s)" "b \<in> set (ready s)"
  have near: "unat (vruntime (the (boxes k a))) \<le> unat (vruntime t) + d"
    using spread[unfolded spread_within_def, rule_format, OF ab(1) p(1)] p(2) by simp
  have top: "unat (vruntime u) \<le> 2 ^ 64 - 1" for u :: "'w Task" using unat_u64_less[of "vruntime u"] by simp
  consider "a = p" "b = p" | "a = p" "b \<noteq> p" | "a \<noteq> p" "b = p" | "a \<noteq> p" "b \<noteq> p" by blast
  then show "unat (vruntime (the (boxes k1 a))) \<le> unat (vruntime (the (boxes k1 b))) + d"
  proof cases
    case 4
    then show ?thesis using spread ab after(2) by (simp add: spread_within_def)
  qed (use after(2,3) least ab(2) near top[of "the (boxes k a)"] in auto)
qed

lemma cfs_tireless_turn:
  assumes ok: "sched_ok s k" and ne: "ready s \<noteq> []" and fit: "frames_fit irq k"
    and all: "\<forall>t\<in>ran (boxes k). tireless t \<and> unat (runs t) + Suc n < 2 ^ 64"
  shows "\<exists>p t s1 k1. cfs_schedule_once irq s k = Inr (True, s1, k1) \<and> sched_ok s1 k1 \<and> turn_taken irq p t s k s1 k1 \<and> alive_after irq k p t \<and>
     vruntime (the (boxes k1 p)) = saturating_add (vruntime t) (turn_slice t) \<and>
     (\<forall>b\<in>set (ready s). unat (vruntime t) \<le> unat (vruntime (the (boxes k b))))"
proof -
  define ts where "ts = map (\<lambda>p. the (boxes k p)) (ready s)"
  have live: "the (boxes k p) \<in> ran (boxes k)" "boxes k p = Some (the (boxes k p))" if "p \<in> set (ready s)" for p
    using queue_task[OF sched_okD[OF ok] that] by (auto intro: ranI)
  have awake: "awake (APIC_TICKS (pre k)) u" if "u \<in> ran (boxes k)" for u using all that by (simp add: tireless_def awake_def)
  have "pick_min (APIC_TICKS (pre k)) ts \<noteq> None"
    using ne awake live by (cases "ready s") (auto simp: pick_min_None ts_def)
  then obtain j where j: "pick_min (APIC_TICKS (pre k)) ts = Some j" by auto
  define p t where "p = ready s ! j" and "t = ts ! j"
  have w: "wins (APIC_TICKS (pre k)) ts j" using j by (rule pick_min_Some)
  then have len: "j < length (ready s)" by (simp add: wins_def ts_def)
  have pt: "p \<in> set (ready s)" "boxes k p = Some t" "t \<in> ran (boxes k)"
    using len live[of p] by (simp_all add: p_def t_def ts_def)
  have tt: "tireless t" "unat (runs t) + Suc n < 2 ^ 64" using all pt(3) by auto
  have turn: "turn_ok irq k p t" "alive_after irq k p t"
    using tireless_turn[OF sched_okD[OF ok] pt(2) tt(1) fit] tt(2) by auto
  have "\<not> sleeper t" using tt(1) by (simp add: sleeper_def tireless_def)
  have tj: "turn_ok irq k (ready s ! j) (ts ! j)" using turn(1) by (simp add: p_def t_def)
  obtain s1 k1 where r: "cfs_schedule_once irq s k = Inr (True, s1, k1)" "sched_ok s1 k1" "turn_taken irq p t s k s1 k1"
      "vruntime (the (boxes k1 p)) = saturating_add (vruntime t) (turn_slice t)"
    using cfs_turn[OF ok ts_def j tj] turn(2) \<open>\<not> sleeper t\<close> by (auto simp: p_def[symmetric] t_def[symmetric] woken_eq)
  have "unat (vruntime t) \<le> unat (vruntime (the (boxes k b)))" if b: "b \<in> set (ready s)" for b
  proof -
    obtain i where i: "i < length (ready s)" "ready s ! i = b" using b by (auto simp: in_set_conv_nth)
    have "awake (APIC_TICKS (pre k)) (ts ! i)" using awake live(1)[OF b] i by (simp add: ts_def)
    then show ?thesis using w i by (auto simp: wins_def t_def ts_def word_le_nat_alt)
  qed
  then show ?thesis using r turn(2) by blast
qed

lemma cfs_spread:
  assumes "sched_ok s k" "\<forall>t\<in>ran (boxes k). tireless t \<and> unat (turn_slice t) = d \<and> unat (runs t) + length is < 2 ^ 64"
    "\<forall>irq\<in>set is. frames_fit irq k" "spread_within d s k"
  shows "\<exists>s' k'. schedule_many cfs_schedule_once is s k = Inr (s', k') \<and> spread_within d s' k' \<and> sched_ok s' k' \<and>
     mset (ready s') = mset (ready s)"
  using assms
proof (induction "is" arbitrary: s k)
  case (Cons irq "is")
  note ok = Cons.prems(1)
  have all: "tireless t \<and> unat (turn_slice t) = d \<and> unat (runs t) + Suc (length is) < 2 ^ 64" if "t \<in> ran (boxes k)" for t
    using Cons.prems(2) that by simp
  then have run: "\<forall>u\<in>ran (boxes k). tireless u \<and> unat (runs u) + Suc (length is) < 2 ^ 64" by blast
  show ?case
  proof (cases "ready s = []")
    case True
    then have "cfs_schedule_once irq s k = Inr (False, s, k)" using cfs_idle[OF ok] by simp
    moreover have "\<forall>t\<in>ran (boxes k). tireless t \<and> unat (turn_slice t) = d \<and> unat (runs t) + length is < 2 ^ 64"
      using all by fastforce
    ultimately show ?thesis using Cons.IH[OF ok] Cons.prems(3,4) by simp
  next
    case False
    obtain p t s1 k1 where r: "cfs_schedule_once irq s k = Inr (True, s1, k1)" "sched_ok s1 k1" "turn_taken irq p t s k s1 k1" "alive_after irq k p t"
        "vruntime (the (boxes k1 p)) = saturating_add (vruntime t) (turn_slice t)" "\<forall>b\<in>set (ready s). unat (vruntime t) \<le> unat (vruntime (the (boxes k b)))"
      using cfs_tireless_turn[OF ok False _ run, of irq] Cons.prems(3) by auto
    have pt: "p \<in> set (ready s)" "boxes k p = Some t" "t \<in> ran (boxes k)" using r(3) by (auto simp: turn_taken_def intro: ranI)
    have m: "mset (ready s1) = mset (ready s)" and others: "\<forall>b. b \<noteq> p \<longrightarrow> boxes k1 b = boxes k b"
      using r(3,4) by (simp_all add: turn_taken_def)
    have still: "tireless u \<and> unat (turn_slice u) = d \<and> unat (runs u) + length is < 2 ^ 64" if u: "u \<in> ran (boxes k1)" for u
      using tireless_still[OF r(3,4) run u] all by (auto simp: turn_slice_def)
    have "unat (vruntime (the (boxes k1 p))) = min (unat (vruntime t) + d) (2 ^ 64 - 1)"
      using r(5) all[OF pt(3)] by (simp add: unat_saturating_add)
    then have "spread_within d s1 k1" by (rule spread_charge[OF Cons.prems(4) pt(1,2) r(6) mset_eq_setD[OF m] others])
    moreover have "\<forall>i\<in>set is. frames_fit i k1" using frames_fit_turn[OF r(3)] Cons.prems(3) by simp
    ultimately show ?thesis using Cons.IH[OF r(2)] still r(1) m by simp
  qed
qed auto

end
