(* ===== verification/Demo.thy ===== *)
theory Demo
  imports Round_Robin Cfs
begin

text \<open>
  The phase 3 demo of \<open>main.rs\<close>: three workers of five steps each and a napper, spawned through the trait
  and driven until the queue is empty. The whole demo is one definition over an arbitrary
  policy; that it ends with a fair ledger is proved once from the contract and holds for both policies.
\<close>

section \<open>The closures\<close>

text \<open>
  The world of the demo is what the closures capture: the counter of each worker and the flag of
  the napper. A worker's first step spins until a timer interrupt has moved \<open>APIC_TICKS\<close>, so it does
  not return without one.
\<close>

record demo_world =
  counter :: "u64 \<Rightarrow> u64"
  woke :: bool

definition demo_step :: "u64 \<Rightarrow> demo_world step" where
  "demo_step i ticks w M =
     (case checked_add (counter w i) 1 of
        None \<Rightarrow> None
      | Some n \<Rightarrow>
          if n = 1 \<and> ticks = 0 then None
          else Some (n < SCHED_FAIR_RUNS, w\<lparr>counter := (counter w)(i := n)\<rparr>, M))"

definition napper_step :: "demo_world step" where
  "napper_step ticks w M = Some (False, if \<not> woke w then w\<lparr>woke := True\<rparr> else w, M)"

section \<open>Spawning and driving\<close>

text \<open>A place is where the heap puts a task: the block of its stack and the address of its box.\<close>

type_synonym place = "site \<times> u64"
type_synonym 'w spawner = "u64 \<Rightarrow> 'w Task \<Rightarrow> sched \<Rightarrow> 'w kernel \<Rightarrow> (sched \<times> 'w kernel) outcome"
type_synonym 'w picker = "(u64 \<Rightarrow> irqs) \<Rightarrow> sched \<Rightarrow> 'w kernel \<Rightarrow> (bool \<times> sched \<times> 'w kernel) outcome"

definition spawn_worker ::
  "demo_world spawner \<Rightarrow> bool \<Rightarrow> place \<Rightarrow> string \<Rightarrow> sched \<Rightarrow> demo_world kernel \<Rightarrow> (sched \<times> demo_world kernel) outcome" where
  "spawn_worker spawn sched_cfs pl name s k =
     obind (next_id s) (\<lambda>(i, s).
     obind (Task_new (fst pl) i name (demo_step i) k) (\<lambda>(t, k).
     obind (if sched_cfs \<and> name = ''gamma'' then with_weight 2048 t else Inr t) (\<lambda>t.
       spawn (snd pl) t s k)))"

definition spawn_napper ::
  "demo_world spawner \<Rightarrow> place \<Rightarrow> sched \<Rightarrow> demo_world kernel \<Rightarrow> (sched \<times> demo_world kernel) outcome" where
  "spawn_napper spawn pl s k =
     obind (next_id s) (\<lambda>(i, s).
     obind (add_op (APIC_TICKS (pre k)) 20) (\<lambda>wake_at.
     obind (Task_sleeping (fst pl) i ''napper'' wake_at napper_step k) (\<lambda>(t, k).
       spawn (snd pl) t s k)))"

text \<open>
  Spawning and the driver loop, then the verdict. The timer goes on meanwhile: \<open>idle i\<close> are the interrupts that arrive before spawn
  \<open>i\<close>, and \<open>idle 4\<close> those before the driver reads its first marks.
\<close>

abbreviation paused :: "FullFrame list \<Rightarrow> 'w kernel \<Rightarrow> 'w kernel" where
  "paused fs k \<equiv> k\<lparr>pre := ticks_hit fs (pre k)\<rparr>"

definition demo_drive ::
  "demo_world spawner \<Rightarrow> demo_world picker \<Rightarrow> bool \<Rightarrow> (nat \<Rightarrow> place) \<Rightarrow> (nat \<Rightarrow> FullFrame list) \<Rightarrow> event list \<Rightarrow> demo_world kernel
    \<Rightarrow> demo_world driven outcome" where
  "demo_drive spawn schedule_once sched_cfs places idle es k =
     obind (spawn_worker spawn sched_cfs (places 0) ''alpha'' sched_new (paused (idle 0) k)) (\<lambda>(s, k).
     obind (spawn_worker spawn sched_cfs (places 1) ''beta'' s (paused (idle 1) k)) (\<lambda>(s, k).
     obind (spawn_worker spawn sched_cfs (places 2) ''gamma'' s (paused (idle 2) k)) (\<lambda>(s, k).
     obind (spawn_napper spawn (places 3) s (paused (idle 3) k)) (\<lambda>(s, k).
       let k = paused (idle 4) k in
       drive_loop schedule_once es (drive_start k) s k))))"

definition demo ::
  "demo_world spawner \<Rightarrow> demo_world picker \<Rightarrow> bool \<Rightarrow> (nat \<Rightarrow> place) \<Rightarrow> (nat \<Rightarrow> FullFrame list) \<Rightarrow> event list \<Rightarrow> demo_world kernel
    \<Rightarrow> string outcome" where
  "demo spawn schedule_once sched_cfs places idle es k = obind (demo_drive spawn schedule_once sched_cfs places idle es k) demo_verdict"

section \<open>The plan of the demo\<close>

definition demo_left :: "demo_world \<Rightarrow> u64 \<Rightarrow> nat" where
  "demo_left w i = (if i = 4 then (if woke w then 0 else 1) else 5 - unat (counter w i))"

definition demo_want :: "u64 \<Rightarrow> nat" where
  "demo_want i = (if i = 4 then 1 else 5)"

lemma worker_keeps_to: "step t = demo_step i \<Longrightarrow> task_id t = i \<Longrightarrow> i \<noteq> 4 \<Longrightarrow> keeps_to demo_left t"
  by (auto simp: keeps_to_def demo_step_def demo_left_def checked_add_eq_Some SCHED_FAIR_RUNS_def word_less_nat_alt
      split: option.splits if_splits)

lemma napper_keeps_to: "step t = napper_step \<Longrightarrow> task_id t = 4 \<Longrightarrow> keeps_to demo_left t"
  by (auto simp: keeps_to_def napper_step_def demo_left_def)

section \<open>Where the heap puts the tasks, and what the interrupts do\<close>

definition places_ok :: "(nat \<Rightarrow> place) \<Rightarrow> bool" where
  "places_ok places \<longleftrightarrow>
     (\<forall>i<4. block_ok (heap_addr (fst (places i)))) \<and>
     (\<forall>i<4. \<forall>j<i. snd (places i) \<noteq> snd (places j) \<and>
        (unat (heap_addr (fst (places i))) + unat STACK_ALLOC_BYTES \<le> unat (heap_addr (fst (places j))) \<or>
         unat (heap_addr (fst (places j))) + unat STACK_ALLOC_BYTES \<le> unat (heap_addr (fst (places i)))))"

text \<open>
  Each event brings at least one tick for the driver, at most \<open>c\<close> ticks in all, and at least one tick for the
  running step, with the interrupted stack pointer inside the stack block.
\<close>

definition demo_event :: "nat \<Rightarrow> (nat \<Rightarrow> place) \<Rightarrow> event \<Rightarrow> bool" where
  "demo_event c places e \<longleftrightarrow> wait_ticks e \<noteq> [] \<and>
     (\<forall>p. length (wait_ticks e) + length (before_fence (turns e p)) + length (in_step (turns e p)) +
        length (after_fence (turns e p)) \<le> c) \<and>
     (\<forall>i<4. in_step (turns e (snd (places i))) \<noteq> [] \<and>
        (\<forall>f\<in>set (in_step (turns e (snd (places i)))).
           unat (heap_addr (fst (places i))) + 16 \<le> unat (f_rsp f) \<and>
           unat (f_rsp f) \<le> unat (heap_addr (fst (places i))) + 131072))"

definition demo_names :: "string list" where
  "demo_names = [''alpha'', ''beta'', ''gamma'', ''napper'']"

text \<open>The task at place \<open>i\<close>, with the stack in its block; \<open>tick\<close> is the tick at which the napper was told to sleep.\<close>

definition demo_task :: "u64 \<Rightarrow> place \<Rightarrow> nat \<Rightarrow> demo_world Task \<Rightarrow> bool" where
  "demo_task tick pl i t \<longleftrightarrow> task_id t = of_nat (Suc i) \<and>
     (if i < 3 then state t = Ready \<and> step t = demo_step (of_nat (Suc i)) else state t = Sleeping (tick + 20) \<and> step t = napper_step) \<and>
     unat (heap_addr (fst pl)) \<le> unat (bottom (stack t)) \<and> unat (bottom (stack t)) \<le> unat (heap_addr (fst pl)) + 16 \<and>
     unat (top_addr (stack t)) = unat (bottom (stack t)) + 131072"

text \<open>The scheduler after the first \<open>n\<close> of the four spawns.\<close>

definition spawned :: "(nat \<Rightarrow> place) \<Rightarrow> u64 \<Rightarrow> nat \<Rightarrow> sched \<Rightarrow> demo_world kernel \<Rightarrow> bool" where
  "spawned places tick n s k \<longleftrightarrow>
     ready s = map (\<lambda>i. snd (places i)) [0..<n] \<and> next_number s = of_nat (Suc n) \<and> finished_runs s = [] \<and>
     sched_ok s k \<and> on_plan demo_left demo_want s k \<and> counter (world k) = (\<lambda>_. 0) \<and> \<not> woke (world k) \<and>
     (\<forall>i<n. \<exists>t. boxes k (snd (places i)) = Some t \<and> demo_task tick (places i) i t) \<and>
     roster s k = mset (map (\<lambda>i. (of_nat (Suc i), demo_names ! i)) [0..<n]) \<and>
     work_left demo_left s k = (\<Sum>i<n. demo_want (of_nat (Suc i)))"

lemma spawned_0:
  assumes "kernel_ok [] k" "counter (world k) = (\<lambda>_. 0)" "\<not> woke (world k)"
  shows "spawned places tick 0 sched_new k"
proof -
  have "boxes k = Map.empty" using kernel_ok_queue(2)[OF assms(1)] by simp
  then show ?thesis using assms
    by (simp add: spawned_def sched_new_def sched_ok_def on_plan_def roster_def work_left_def ran_def)
qed

lemma spawned_paused: "spawned places tick n s k \<Longrightarrow> spawned places tick n s (paused fs k)"
proof -
  have "on_plan left want s (paused fs k) = on_plan left want s k" "roster s (paused fs k) = roster s k" "work_left left s (paused fs k) = work_left left s k"
    for left :: "demo_world \<Rightarrow> u64 \<Rightarrow> nat" and want by (simp_all add: on_plan_def roster_def work_left_def)
  then show "spawned places tick n s k \<Longrightarrow> spawned places tick n s (paused fs k)" using wait_sched_ok[of s k fs] by (simp add: spawned_def)
qed

lemma number_eq: "i < 4 \<Longrightarrow> j < 4 \<Longrightarrow> (of_nat (Suc i) :: u64) = of_nat (Suc j) \<longleftrightarrow> i = j"
  by (simp add: word_unat_eq_iff unat_of_nat del: of_nat_Suc)

lemma spawned_site:
  assumes sp: "spawned places tick n s k" and pl: "places_ok places" and n: "n < 4"
  shows "site_ok (fst (places n)) k" "snd (places n) \<notin> set (ready s)" "length (ready s) < MAX_TASKS"
    "\<forall>b\<in>set (ready s). task_id (the (boxes k b)) \<noteq> of_nat (Suc n)"
proof -
  have q: "ready s = map (\<lambda>i. snd (places i)) [0..<n]" "sched_ok s k" using sp by (simp_all add: spawned_def)
  have t: "\<exists>t. boxes k (snd (places i)) = Some t \<and> demo_task tick (places i) i t" if "i < n" for i
    using sp that by (simp add: spawned_def)
  show "length (ready s) < MAX_TASKS" using q n by (simp add: MAX_TASKS_def)
  show "snd (places n) \<notin> set (ready s)" using q pl n by (fastforce simp: places_ok_def)
  show "\<forall>b\<in>set (ready s). task_id (the (boxes k b)) \<noteq> of_nat (Suc n)"
  proof
    fix b assume "b \<in> set (ready s)"
    then obtain i where i: "i < n" "b = snd (places i)" using q by auto
    obtain u where u: "boxes k b = Some u" "demo_task tick (places i) i u" using t[OF i(1)] i(2) by auto
    then show "task_id (the (boxes k b)) \<noteq> of_nat (Suc n)"
      using i n number_eq[of i n] by (simp add: demo_task_def del: of_nat_Suc)
  qed
  have "unat (bottom (stack u)) < unat (heap_addr (fst (places n))) \<or>
        unat (heap_addr (fst (places n))) + unat STACK_ALLOC_BYTES \<le> unat (bottom (stack u))" if u: "u \<in> ran (boxes k)" for u
  proof -
    obtain b where b: "boxes k b = Some u" using u by (auto simp: ran_def)
    then have "b \<in> set (ready s)" using kernel_okD(6)[OF sched_okD[OF q(2)]] by simp
    then obtain i where i: "i < n" "b = snd (places i)" using q by auto
    then have "demo_task tick (places i) i u" using t[OF i(1)] b by simp
    moreover have "unat (heap_addr (fst (places n))) + unat STACK_ALLOC_BYTES \<le> unat (heap_addr (fst (places i))) \<or>
         unat (heap_addr (fst (places i))) + unat STACK_ALLOC_BYTES \<le> unat (heap_addr (fst (places n)))"
      using pl n i by (simp add: places_ok_def)
    ultimately show ?thesis by (auto simp: demo_task_def stack_sizes)
  qed
  then show "site_ok (fst (places n)) k" using pl n by (simp add: site_ok_def places_ok_def)
qed

context scheduler
begin

lemma spawn_step:
  assumes ok: "sched_ok s k" and plan: "on_plan left want s k" and room: "length (ready s) < MAX_TASKS"
    and site: "site_ok e k" and new: "p \<notin> set (ready s)" and num: "next_number s = i" "unat i + 1 < 2 ^ 64"
    and ids: "\<forall>b\<in>set (ready s). task_id (the (boxes k b)) \<noteq> i"
    and work: "\<forall>t :: 'w Task. step t = f \<and> task_id t = i \<longrightarrow> keeps_to left t"
    and left: "left (world k) i = want i" "0 < want i" "want i < 2 ^ 64" and w: "0 < w"
    and st: "st = Ready \<or> (\<exists>u. st = Sleeping u)"
  shows "\<exists>t k1 k2. next_id s = Inr (i, s\<lparr>next_number := i + 1\<rparr>) \<and> Task_build e i nm st f k = Inr (t, k1) \<and>
     weight t = CFS_DEFAULT_WEIGHT \<and>
     spawn p (t\<lparr>weight := w\<rparr>) (s\<lparr>next_number := i + 1\<rparr>) k1 = Inr (s\<lparr>ready := ready s @ [p], next_number := i + 1\<rparr>, k2) \<and>
     sched_ok (s\<lparr>ready := ready s @ [p], next_number := i + 1\<rparr>) k2 \<and>
     on_plan left want (s\<lparr>ready := ready s @ [p], next_number := i + 1\<rparr>) k2 \<and>
     work_left left (s\<lparr>ready := ready s @ [p], next_number := i + 1\<rparr>) k2 = work_left left s k + want i \<and>
     roster (s\<lparr>ready := ready s @ [p], next_number := i + 1\<rparr>) k2 = add_mset (i, nm) (roster s k) \<and>
     boxes k2 = (boxes k)(p \<mapsto> t\<lparr>weight := w\<rparr>) \<and> vruntime t = 0 \<and> task_id t = i \<and> state t = st \<and> step t = f \<and>
     unat (heap_addr e) \<le> unat (bottom (stack t)) \<and> unat (bottom (stack t)) \<le> unat (heap_addr e) + 16 \<and>
     unat (top_addr (stack t)) = unat (bottom (stack t)) + 131072 \<and>
     world k2 = world k \<and> APIC_TICKS (pre k2) = APIC_TICKS (pre k) \<and> PREEMPT_SWITCHES (pre k2) = PREEMPT_SWITCHES (pre k)"
proof -
  note kok = sched_okD[OF ok]
  let ?s = "s\<lparr>ready := ready s @ [p], next_number := i + 1\<rparr>"
  have nid: "next_id s = Inr (i, s\<lparr>next_number := i + 1\<rparr>)"
    using num add_op_no_overflow[of i 1] by (simp add: next_id_def)
  obtain t a M where b: "Task_build e i nm st f k = Inr (t, k\<lparr>pre := a, kmem := M\<rparr>)" "task_id t = i" "task_name t = nm" "state t = st"
     "runs t = 0" "weight t = CFS_DEFAULT_WEIGHT" "step t = f" "alloc_slot (pre k) = Inr (slot t)" "APIC_TICKS a = APIC_TICKS (pre k)"
     "PREEMPT_SWITCHES a = PREEMPT_SWITCHES (pre k)" "unat (heap_addr e) \<le> unat (bottom (stack t))"
     "unat (bottom (stack t)) \<le> unat (heap_addr e) + 16" "unat (top_addr (stack t)) = unat (bottom (stack t)) + 131072" "vruntime t = 0"
    using Task_build_spec[OF kok room site, of i nm st f] by (elim exE conjE)
  let ?t = "t\<lparr>weight := w\<rparr>" and ?k1 = "k\<lparr>pre := a, kmem := M\<rparr>"
  let ?k2 = "registered p ?t ?k1"
  have k2: "boxes ?k2 = (boxes k)(p \<mapsto> ?t)" "world ?k2 = world k" "APIC_TICKS (pre ?k2) = APIC_TICKS (pre k)"
      "PREEMPT_SWITCHES (pre ?k2) = PREEMPT_SWITCHES (pre k)"
    using b(9,10) by (simp_all add: registered_def)
  have sp: "spawn p ?t (s\<lparr>next_number := i + 1\<rparr>) ?k1 = Inr (?s, ?k2)"
    using spawn[of ?t p "s\<lparr>next_number := i + 1\<rparr>" ?k1] b(8) w by (simp add: alloc_slot_first)
  have ok': "sched_ok ?s ?k2" using spawned_ok[OF ok room site new st b(1), of w] by (simp add: sched_ok_def)
  have same: "boxes ?k2 b = boxes k b" if "b \<in> set (ready s)" for b using that new k2(1) by auto
  have "inj_on (\<lambda>b. task_id (the (boxes ?k2 b))) (set (ready s)) = inj_on (\<lambda>b. task_id (the (boxes k b))) (set (ready s))"
    by (rule inj_on_cong) (simp add: same)
  moreover have "task_id ?t \<notin> (\<lambda>b. task_id (the (boxes ?k2 b))) ` set (ready s)" using ids same b(2) by auto
  ultimately have inj: "inj_on (\<lambda>b. task_id (the (boxes ?k2 b))) (set (ready ?s))"
    using plan new k2(1) by (auto simp: on_plan_def)
  have "keeps_to left ?t" using work b(2,7) by simp
  moreover have fin: "\<forall>(i, name, n)\<in>set (finished_runs ?s). unat n = want i" using plan by (simp add: on_plan_def)
  moreover have "let u = the (boxes ?k2 b) in keeps_to left u \<and> 0 < left (world ?k2) (task_id u) \<and> want (task_id u) < 2 ^ 64 \<and>
      unat (runs u) + left (world ?k2) (task_id u) = want (task_id u)" if "b \<in> set (ready s)" for b
    using plan that same[OF that] k2(2) by (simp add: on_plan_def)
  ultimately have plan': "on_plan left want ?s ?k2"
    using inj b(2,5) left k2(1,2) by (simp add: on_plan_def Let_def)
  have bp: "the (boxes ?k2 p) = ?t" using k2(1) by simp
  have ms: "map (\<lambda>b. left (world k) (task_id (the (boxes ?k2 b)))) (ready s) = map (\<lambda>b. left (world k) (task_id (the (boxes k b)))) (ready s)"
    by (rule map_cong) (simp_all add: same)
  have wl: "work_left left ?s ?k2 = work_left left s k + want i"
    unfolding work_left_def by (simp add: ms bp k2(2) b(2) left)
  have ms': "map (\<lambda>b. (task_id (the (boxes ?k2 b)), task_name (the (boxes ?k2 b)))) (ready s) =
      map (\<lambda>b. (task_id (the (boxes k b)), task_name (the (boxes k b)))) (ready s)"
    by (rule map_cong) (simp_all add: same)
  have ro: "roster ?s ?k2 = add_mset (i, nm) (roster s k)"
    unfolding roster_def by (simp add: bp b(2,3) mset_map[symmetric] ms' del: mset_map)
  show ?thesis
    using nid b(1,2,4,6,7,11-14) sp ok' plan' wl ro k2 by (intro exI[of _ t] exI[of _ ?k1] exI[of _ ?k2] conjI)
qed

end

lemma places_apart: "places_ok places \<Longrightarrow> n < 4 \<Longrightarrow> i < n \<Longrightarrow> snd (places n) \<noteq> snd (places i)"
  unfolding places_ok_def by simp

lemma spawned_task: "spawned places tick n s k \<Longrightarrow> i < n \<Longrightarrow> \<exists>t. boxes k (snd (places i)) = Some t \<and> demo_task tick (places i) i t"
  by (simp add: spawned_def)

lemma spawned_Suc:
  fixes spawn :: "demo_world spawner" and once :: "demo_world picker"
  assumes S: "scheduler spawn once" and sp: "spawned places tick n s k" and pl: "places_ok places" and n: "n < 4" and w: "0 < w"
    and f: "if n < 3 then st = Ready \<and> f = demo_step (of_nat (Suc n)) else st = Sleeping (tick + 20) \<and> f = napper_step"
  shows "\<exists>t k1 s2 k2. next_id s = Inr (of_nat (Suc n), s\<lparr>next_number := of_nat (Suc n) + 1\<rparr>) \<and>
     Task_build (fst (places n)) (of_nat (Suc n)) (demo_names ! n) st f k = Inr (t, k1) \<and> weight t = CFS_DEFAULT_WEIGHT \<and>
     spawn (snd (places n)) (t\<lparr>weight := w\<rparr>) (s\<lparr>next_number := of_nat (Suc n) + 1\<rparr>) k1 = Inr (s2, k2) \<and>
     spawned places tick (Suc n) s2 k2 \<and> APIC_TICKS (pre k2) = APIC_TICKS (pre k) \<and>
     boxes k2 = (boxes k)(snd (places n) \<mapsto> t\<lparr>weight := w\<rparr>) \<and> vruntime t = 0"
proof -
  note site = spawned_site[OF sp pl n]
  let ?i = "of_nat (Suc n) :: u64"
  have un: "unat ?i = Suc n" using n by (simp add: unat_of_nat del: of_nat_Suc)
  have sp': "sched_ok s k" "on_plan demo_left demo_want s k" "next_number s = ?i" "counter (world k) = (\<lambda>_. 0)" "\<not> woke (world k)"
    using sp by (simp_all add: spawned_def)
  have four: "?i = 4 \<longleftrightarrow> n = 3" using un n by (auto simp: word_unat_eq_iff simp del: of_nat_Suc)
  have "keeps_to demo_left t" if "step t = f" "task_id t = ?i" for t :: "demo_world Task"
    using that f four n worker_keeps_to[of t ?i] napper_keeps_to[of t] by (cases "n < 3") auto
  then have keep: "\<forall>t. step t = f \<and> task_id t = ?i \<longrightarrow> keeps_to demo_left t" by blast
  have small: "unat ?i + 1 < 2 ^ 64" using un n by simp
  have left: "demo_left (world k) ?i = demo_want ?i" "0 < demo_want ?i" "demo_want ?i < 2 ^ 64"
    using sp'(4,5) by (simp_all add: demo_left_def demo_want_def del: of_nat_Suc)
  have st: "st = Ready \<or> (\<exists>u. st = Sleeping u)" using f by (auto split: if_splits)
  let ?s2 = "s\<lparr>ready := ready s @ [snd (places n)], next_number := ?i + 1\<rparr>"
  obtain t k1 k2 where r: "next_id s = Inr (?i, s\<lparr>next_number := ?i + 1\<rparr>)" "Task_build (fst (places n)) ?i (demo_names ! n) st f k = Inr (t, k1)"
     "weight t = CFS_DEFAULT_WEIGHT" "spawn (snd (places n)) (t\<lparr>weight := w\<rparr>) (s\<lparr>next_number := ?i + 1\<rparr>) k1 = Inr (?s2, k2)"
     "sched_ok ?s2 k2" "on_plan demo_left demo_want ?s2 k2" "work_left demo_left ?s2 k2 = work_left demo_left s k + demo_want ?i"
     "roster ?s2 k2 = add_mset (?i, demo_names ! n) (roster s k)" "boxes k2 = (boxes k)(snd (places n) \<mapsto> t\<lparr>weight := w\<rparr>)"
     "task_id t = ?i" "state t = st" "step t = f"
     "unat (heap_addr (fst (places n))) \<le> unat (bottom (stack t))" "unat (bottom (stack t)) \<le> unat (heap_addr (fst (places n))) + 16"
     "unat (top_addr (stack t)) = unat (bottom (stack t)) + 131072" "world k2 = world k" "APIC_TICKS (pre k2) = APIC_TICKS (pre k)" "vruntime t = 0"
    using scheduler.spawn_step[OF S sp'(1,2) site(3,1,2) sp'(3) small site(4) keep left w st, where nm = "demo_names ! n"]
    by (elim exE conjE)
  have "demo_task tick (places n) n (t\<lparr>weight := w\<rparr>)" using r(10-15) f by (simp add: demo_task_def del: of_nat_Suc)
  then have tasks: "\<exists>u. boxes k2 (snd (places i)) = Some u \<and> demo_task tick (places i) i u" if "i < Suc n" for i
  proof (cases "i = n")
    case True
    then show ?thesis using r(9) \<open>demo_task tick (places n) n (t\<lparr>weight := w\<rparr>)\<close> by simp
  next
    case False
    then have i: "i < n" using that by simp
    then show ?thesis using spawned_task[OF sp i] places_apart[OF pl n i] r(9) by simp
  qed
  have "spawned places tick (Suc n) ?s2 k2"
    unfolding spawned_def
  proof (intro conjI)
    show "\<forall>i<Suc n. \<exists>t. boxes k2 (snd (places i)) = Some t \<and> demo_task tick (places i) i t" using tasks by blast
  qed (use sp r(5-8,16) in \<open>simp_all add: spawned_def add.commute\<close>)
  then show ?thesis using r(1-4,9,17,18) by (intro exI[of _ t] exI[of _ k1] exI[of _ ?s2] exI[of _ k2] conjI)
qed

text \<open>The virtual runtimes and weights the tasks start with.\<close>

definition demo_weight :: "bool \<Rightarrow> nat \<Rightarrow> u32" where
  "demo_weight cfs i = (if cfs \<and> i = 2 then 2048 else CFS_DEFAULT_WEIGHT)"

definition fresh_rows :: "bool \<Rightarrow> (nat \<Rightarrow> place) \<Rightarrow> nat \<Rightarrow> demo_world kernel \<Rightarrow> bool" where
  "fresh_rows cfs places n k \<longleftrightarrow>
     (\<forall>i<n. vruntime (the (boxes k (snd (places i)))) = 0 \<and> weight (the (boxes k (snd (places i)))) = demo_weight cfs i)"

lemma fresh_rows_Suc:
  assumes "fresh_rows cfs places n k" "places_ok places" "n < 4" "boxes k2 = (boxes k)(snd (places n) \<mapsto> t\<lparr>weight := demo_weight cfs n\<rparr>)" "vruntime t = 0"
  shows "fresh_rows cfs places (Suc n) k2"
  using assms(1,4,5) not_sym[OF places_apart[OF assms(2,3)]] by (auto simp: fresh_rows_def less_Suc_eq)

lemma spawn_worker_Suc:
  fixes spawn :: "demo_world spawner" and once :: "demo_world picker"
  assumes S: "scheduler spawn once" and sp: "spawned places tick n s k" "fresh_rows cfs places n k" and pl: "places_ok places" and n: "n < 3"
  shows "\<exists>s2 k2. spawn_worker spawn cfs (places n) (demo_names ! n) s k = Inr (s2, k2) \<and> spawned places tick (Suc n) s2 k2 \<and>
     APIC_TICKS (pre k2) = APIC_TICKS (pre k) \<and> fresh_rows cfs places (Suc n) k2"
proof -
  have w: "0 < demo_weight cfs n" by (simp add: demo_weight_def CFS_DEFAULT_WEIGHT_def)
  obtain t k1 s2 k2 where r: "next_id s = Inr (of_nat (Suc n), s\<lparr>next_number := of_nat (Suc n) + 1\<rparr>)"
     "Task_build (fst (places n)) (of_nat (Suc n)) (demo_names ! n) Ready (demo_step (of_nat (Suc n))) k = Inr (t, k1)"
     "weight t = CFS_DEFAULT_WEIGHT"
     "spawn (snd (places n)) (t\<lparr>weight := demo_weight cfs n\<rparr>) (s\<lparr>next_number := of_nat (Suc n) + 1\<rparr>) k1 = Inr (s2, k2)"
     "spawned places tick (Suc n) s2 k2" "APIC_TICKS (pre k2) = APIC_TICKS (pre k)"
     "boxes k2 = (boxes k)(snd (places n) \<mapsto> t\<lparr>weight := demo_weight cfs n\<rparr>)" "vruntime t = 0"
    using spawned_Suc[OF S sp(1) pl _ w, of Ready "demo_step (of_nat (Suc n))"] n by (elim meta_impE exE conjE) simp_all
  have name: "demo_names ! n = ''gamma'' \<longleftrightarrow> n = 2" using n by (auto simp: demo_names_def less_Suc_eq numeral_3_eq_3 numeral_2_eq_2)
  have "t\<lparr>weight := CFS_DEFAULT_WEIGHT\<rparr> = t" using r(3) by simp
  then have "(if cfs \<and> demo_names ! n = ''gamma'' then with_weight 2048 t else Inr t) = Inr (t\<lparr>weight := demo_weight cfs n\<rparr>)"
    by (simp add: with_weight_def demo_weight_def name)
  then show ?thesis using r(1,2,4-6) fresh_rows_Suc[OF sp(2) pl _ r(7,8)] n by (simp add: spawn_worker_def Task_new_def del: of_nat_Suc)
qed

lemma spawn_napper_Suc:
  fixes spawn :: "demo_world spawner" and once :: "demo_world picker"
  assumes S: "scheduler spawn once" and sp: "spawned places tick 3 s k" "fresh_rows cfs places 3 k" and pl: "places_ok places"
    and tick: "APIC_TICKS (pre k) = tick" "unat tick + 20 < 2 ^ 64"
  shows "\<exists>s2 k2. spawn_napper spawn (places 3) s k = Inr (s2, k2) \<and> spawned places tick 4 s2 k2 \<and> APIC_TICKS (pre k2) = tick \<and> fresh_rows cfs places 4 k2"
proof -
  obtain t k1 s2 k2 where r: "next_id s = Inr (of_nat (Suc 3), s\<lparr>next_number := of_nat (Suc 3) + 1\<rparr>)"
     "Task_build (fst (places 3)) (of_nat (Suc 3)) (demo_names ! 3) (Sleeping (tick + 20)) napper_step k = Inr (t, k1)"
     "weight t = CFS_DEFAULT_WEIGHT"
     "spawn (snd (places 3)) (t\<lparr>weight := CFS_DEFAULT_WEIGHT\<rparr>) (s\<lparr>next_number := of_nat (Suc 3) + 1\<rparr>) k1 = Inr (s2, k2)"
     "spawned places tick (Suc 3) s2 k2" "APIC_TICKS (pre k2) = APIC_TICKS (pre k)"
     "boxes k2 = (boxes k)(snd (places 3) \<mapsto> t\<lparr>weight := CFS_DEFAULT_WEIGHT\<rparr>)" "vruntime t = 0"
    using spawned_Suc[OF S sp(1) pl, of CFS_DEFAULT_WEIGHT "Sleeping (tick + 20)" napper_step]
    by (elim meta_impE exE conjE) (simp_all add: CFS_DEFAULT_WEIGHT_def)
  have "fresh_rows cfs places (Suc 3) k2" using fresh_rows_Suc[OF sp(2) pl _ _ r(8)] r(7) by (simp add: demo_weight_def)
  moreover have "t\<lparr>weight := CFS_DEFAULT_WEIGHT\<rparr> = t" using r(3) by simp
  note r4 = r(4)[unfolded this]
  moreover have "add_op tick 20 = Inr (tick + 20)" using tick(2) by (intro add_op_no_overflow) simp
  ultimately show ?thesis using r(1,2,5,6) r4 tick(1) by (simp add: spawn_napper_def Task_sleeping_def demo_names_def)
qed

text \<open>All four tasks are queued and the driver can start.\<close>

lemma spawned_ran:
  assumes sp: "spawned places tick n s k" and t: "t \<in> ran (boxes k)"
  shows "\<exists>i<n. boxes k (snd (places i)) = Some t \<and> demo_task tick (places i) i t"
proof -
  obtain b where b: "boxes k b = Some t" using t by (auto simp: ran_def)
  have q: "sched_ok s k" "ready s = map (\<lambda>i. snd (places i)) [0..<n]" using sp by (simp_all add: spawned_def)
  obtain i where i: "i < n" "b = snd (places i)" using kernel_okD(6)[OF sched_okD[OF q(1)] b] q(2) by auto
  then show ?thesis using spawned_task[OF sp i(1)] b by auto
qed

lemma demo_under_way:
  assumes sp: "spawned places tick 4 s k" and fits: "unat (APIC_TICKS (pre k)) + 20 + c * n < 2 ^ 64" "unat tick \<le> unat (APIC_TICKS (pre k))" and n: "36 \<le> n"
  shows "under_way c demo_left demo_want (unat tick + 20) 1 n (drive_start k) s k"
proof -
  have k: "sched_ok s k" "on_plan demo_left demo_want s k" "counter (world k) = (\<lambda>_. 0)"
      "ready s = map (\<lambda>i. snd (places i)) [0..<4]"
    using sp by (simp_all add: spawned_def)
  have "(\<Sum>i<4. demo_want (of_nat (Suc i))) = 16" by (simp add: demo_want_def lessThan_nat_numeral lessThan_Suc)
  then have wl: "work_left demo_left s k = 16" using sp by (simp add: spawned_def)
  have "unat u \<le> unat tick + 20" if "t \<in> ran (boxes k)" "state t = Sleeping u" for t u
    using spawned_ran[OF sp that(1)] that(2) fits unat_add_no_overflow[of tick 20]
    by (auto simp: demo_task_def split: if_splits)
  moreover have "step t 0 w M = None" if t: "t \<in> ran (boxes k)" "task_id t = 1" "demo_left w 1 = demo_want 1" for t w M
  proof -
    obtain i where i: "i < 4" "demo_task tick (places i) i t" using spawned_ran[OF sp t(1)] by auto
    then have "i = 0" using t(2) number_eq[of i 0] by (simp add: demo_task_def)
    then have "step t = demo_step 1" using i(2) by (simp add: demo_task_def)
    moreover have "unat (counter w 1) = 0" using t(3) by (auto simp: demo_left_def demo_want_def split: if_splits)
    then have "counter w 1 = 0" by (simp add: unat_eq_zero)
    ultimately show ?thesis by (simp add: demo_step_def checked_add_def)
  qed
  moreover have "\<exists>p\<in>set (ready s). task_id (the (boxes k p)) = 1 \<and> demo_left (world k) 1 = demo_want 1"
    using spawned_task[OF sp, of 0] k(3,4) by (auto simp: demo_task_def demo_left_def demo_want_def intro!: bexI[of _ 0])
  moreover define nap where "nap = unat tick + 20 - unat (APIC_TICKS (pre k))"
  then have "nap \<le> 20" using fits(2) by simp
  ultimately show ?thesis
    using k wl fits(1) n by (simp add: under_way_def drive_start_def SCHED_RUNAWAY_GUARD_def nap_def[symmetric])
qed

lemma demo_event_ok:
  assumes sp: "spawned places tick 4 s k" and e: "demo_event c places e"
  shows "event_ok c demo_left k e"
proof -
  have "(\<forall>f\<in>set (in_step (turns e p)). bottom (stack t) \<le> f_rsp f \<and> f_rsp f \<le> top_addr (stack t)) \<and>
      (\<forall>w M. 0 < demo_left w (task_id t) \<longrightarrow> step t (length (in_step (turns e p))) w M \<noteq> None)" if p: "boxes k p = Some t" for p t
  proof -
    have q: "sched_ok s k" "ready s = map (\<lambda>i. snd (places i)) [0..<4]" using sp by (simp_all add: spawned_def)
    obtain i where i: "i < 4" "p = snd (places i)" using kernel_okD(6)[OF sched_okD[OF q(1)] p] q(2) by auto
    have t: "demo_task tick (places i) i t" using spawned_task[OF sp i(1)] p i(2) by auto
    have ev: "in_step (turns e p) \<noteq> []" "\<forall>f\<in>set (in_step (turns e p)). unat (heap_addr (fst (places i))) + 16 \<le> unat (f_rsp f) \<and>
           unat (f_rsp f) \<le> unat (heap_addr (fst (places i))) + 131072"
      using e i by (auto simp: demo_event_def)
    have "\<forall>f\<in>set (in_step (turns e p)). bottom (stack t) \<le> f_rsp f \<and> f_rsp f \<le> top_addr (stack t)"
      using ev(2) t by (fastforce simp: demo_task_def word_le_nat_alt)
    moreover have "step t (length (in_step (turns e p))) w M \<noteq> None" if l: "0 < demo_left w (task_id t)" for w M
    proof (cases "i < 3")
      case True
      then have id: "task_id t = of_nat (Suc i)" "step t = demo_step (of_nat (Suc i))" "(of_nat (Suc i) :: u64) \<noteq> 4"
        using t number_eq[of i 3] by (auto simp: demo_task_def simp del: of_nat_Suc)
      then have "unat (counter w (of_nat (Suc i))) < 5" using l by (simp add: demo_left_def del: of_nat_Suc)
      then show ?thesis using id(2) ev(1) by (simp add: demo_step_def checked_add_def del: of_nat_Suc)
    next
      case False
      then show ?thesis using t by (simp add: demo_task_def napper_step_def)
    qed
    ultimately show ?thesis by blast
  qed
  then show ?thesis using e by (simp add: event_ok_def demo_event_def)
qed

text \<open>The interrupts of the first \<open>n\<close> pauses.\<close>

definition idle_ticks :: "(nat \<Rightarrow> FullFrame list) \<Rightarrow> nat \<Rightarrow> nat" where
  "idle_ticks idle n = (\<Sum>i<n. length (idle i))"

lemma demo_spawns:
  fixes spawn :: "demo_world spawner" and once :: "demo_world picker"
  assumes S: "scheduler spawn once" and k: "kernel_ok [] k" "counter (world k) = (\<lambda>_. 0)" "\<not> woke (world k)"
    and pl: "places_ok places" and fits: "unat (APIC_TICKS (pre k)) + idle_ticks idle 5 + 20 < 2 ^ 64"
  shows "\<exists>s k'. demo_drive spawn once cfs places idle es k = drive_loop once es (drive_start k') s k' \<and>
     spawned places (APIC_TICKS (pre k) + of_nat (idle_ticks idle 4)) 4 s k' \<and> fresh_rows cfs places 4 k' \<and>
     APIC_TICKS (pre k') = APIC_TICKS (pre k) + of_nat (idle_ticks idle 5)"
proof -
  let ?a = "APIC_TICKS (pre k)" and ?tick = "APIC_TICKS (pre k) + of_nat (idle_ticks idle 4)"
  have sum: "idle_ticks idle 4 = length (idle 0) + length (idle 1) + length (idle 2) + length (idle 3)" "idle_ticks idle 5 = idle_ticks idle 4 + length (idle 4)"
    by (simp_all add: idle_ticks_def lessThan_nat_numeral lessThan_Suc)
  have tick: "unat ?tick + 20 < 2 ^ 64" using fits sum(2) unat_add_nat[of ?a "idle_ticks idle 4"] by simp
  have "spawned places ?tick 0 sched_new k" using k by (rule spawned_0)
  then have 0: "spawned places ?tick 0 sched_new (paused (idle 0) k)" "fresh_rows cfs places 0 (paused (idle 0) k)"
    by (simp_all add: spawned_paused fresh_rows_def)
  obtain s1 k1 where 1: "spawn_worker spawn cfs (places 0) ''alpha'' sched_new (paused (idle 0) k) = Inr (s1, k1)" "spawned places ?tick 1 s1 k1"
      "APIC_TICKS (pre k1) = ?a + of_nat (length (idle 0))" "fresh_rows cfs places 1 k1"
    using spawn_worker_Suc[OF S 0 pl] by (auto simp: demo_names_def)
  obtain s2 k2 where 2: "spawn_worker spawn cfs (places 1) ''beta'' s1 (paused (idle 1) k1) = Inr (s2, k2)" "spawned places ?tick 2 s2 k2"
      "APIC_TICKS (pre k2) = APIC_TICKS (pre k1) + of_nat (length (idle 1))" "fresh_rows cfs places 2 k2"
    using spawn_worker_Suc[OF S spawned_paused[OF 1(2), of "idle 1"] _ pl, of cfs] 1(4) by (auto simp: demo_names_def numeral_2_eq_2 fresh_rows_def)
  obtain s3 k3 where 3: "spawn_worker spawn cfs (places 2) ''gamma'' s2 (paused (idle 2) k2) = Inr (s3, k3)" "spawned places ?tick 3 s3 k3"
      "APIC_TICKS (pre k3) = APIC_TICKS (pre k2) + of_nat (length (idle 2))" "fresh_rows cfs places 3 k3"
    using spawn_worker_Suc[OF S spawned_paused[OF 2(2), of "idle 2"] _ pl, of cfs] 2(4)
    by (auto simp: demo_names_def numeral_3_eq_3 numeral_2_eq_2 fresh_rows_def)
  have t3: "APIC_TICKS (pre (paused (idle 3) k3)) = ?tick" using 1(3) 2(3) 3(3) sum(1) by simp
  have f3: "fresh_rows cfs places 3 (paused (idle 3) k3)" using 3(4) by (simp add: fresh_rows_def)
  obtain s4 k4 where 4: "spawn_napper spawn (places 3) s3 (paused (idle 3) k3) = Inr (s4, k4)" "spawned places ?tick 4 s4 k4"
      "APIC_TICKS (pre k4) = ?tick" "fresh_rows cfs places 4 k4"
    using spawn_napper_Suc[OF S spawned_paused[OF 3(2), of "idle 3"] f3 pl t3 tick] by (elim exE conjE)
  have "demo_drive spawn once cfs places idle es k = drive_loop once es (drive_start (paused (idle 4) k4)) s4 (paused (idle 4) k4)"
    using 1(1) 2(1) 3(1) 4(1) by (simp add: demo_drive_def Let_def)
  moreover have "fresh_rows cfs places 4 (paused (idle 4) k4)" using 4(4) by (simp add: fresh_rows_def)
  ultimately show ?thesis using spawned_paused[OF 4(2), of "idle 4"] 4(3) sum(2) by (intro exI[of _ s4] exI[of _ "paused (idle 4) k4"]) simp
qed

lemma demo_starts:
  fixes spawn :: "demo_world spawner" and once :: "demo_world picker"
  assumes S: "scheduler spawn once" and k: "kernel_ok [] k" "counter (world k) = (\<lambda>_. 0)" "\<not> woke (world k)"
    and pl: "places_ok places" and es: "\<forall>e\<in>set es. demo_event c places e" "36 \<le> length es"
    and fits: "unat (APIC_TICKS (pre k)) + idle_ticks idle 5 + 20 + c * length es < 2 ^ 64"
  shows "\<exists>tick s k'. demo_drive spawn once cfs places idle es k = drive_loop once es (drive_start k') s k' \<and> spawned places tick 4 s k' \<and>
     fresh_rows cfs places 4 k' \<and> under_way c demo_left demo_want (unat tick + 20) 1 (length es) (drive_start k') s k' \<and>
     (\<forall>e\<in>set es. event_ok c demo_left k' e)"
proof -
  let ?tick = "APIC_TICKS (pre k) + of_nat (idle_ticks idle 4)"
  obtain s k' where r: "demo_drive spawn once cfs places idle es k = drive_loop once es (drive_start k') s k'"
      "spawned places ?tick 4 s k'" "fresh_rows cfs places 4 k'" "APIC_TICKS (pre k') = APIC_TICKS (pre k) + of_nat (idle_ticks idle 5)"
    using demo_spawns[OF S k pl, of idle cfs es] fits by auto
  have sum: "idle_ticks idle 4 \<le> idle_ticks idle 5" by (simp add: idle_ticks_def lessThan_nat_numeral)
  have "unat ?tick = unat (APIC_TICKS (pre k)) + idle_ticks idle 4" "unat (APIC_TICKS (pre k')) = unat (APIC_TICKS (pre k)) + idle_ticks idle 5"
    unfolding r(4) using fits sum by (simp_all add: unat_add_nat)
  then have "under_way c demo_left demo_want (unat ?tick + 20) 1 (length es) (drive_start k') s k'"
    using fits sum by (intro demo_under_way[OF r(2) _ _ es(2)]) simp_all
  moreover have "\<forall>e\<in>set es. event_ok c demo_left k' e" using es(1) demo_event_ok[OF r(2)] by blast
  ultimately show ?thesis using r(1-3) by blast
qed

text \<open>The rows of the four tasks.\<close>

lemma demo_rows:
  assumes sp: "spawned places tick 4 s0 k0" and r: "ready s = []" "roster s k = roster s0 k0" and row: "(i, name, n) \<in> set (finished_runs s)"
  shows "(i, name) \<in> {(1, ''alpha''), (2, ''beta''), (3, ''gamma''), (4, ''napper'')}"
proof -
  have "(i, name) \<in># roster s k" using row r(1) by (force simp: roster_def)
  then show ?thesis using sp r(2) by (simp add: spawned_def demo_names_def upt_rec)
qed

lemma demo_online:
  fixes spawn :: "demo_world spawner" and once :: "demo_world picker"
  assumes S: "scheduler spawn once" and k: "kernel_ok [] k" "counter (world k) = (\<lambda>_. 0)" "\<not> woke (world k)"
    and pl: "places_ok places" and es: "\<forall>e\<in>set es. demo_event c places e" "36 \<le> length es"
    and fits: "unat (APIC_TICKS (pre k)) + idle_ticks idle 5 + 20 + c * length es < 2 ^ 64"
  shows "demo spawn once cfs places idle es k = Inr ''sched: fair. Phase 3 online''"
proof -
  obtain tick s4 k4 where 4: "demo_drive spawn once cfs places idle es k = drive_loop once es (drive_start k4) s4 k4" "spawned places tick 4 s4 k4"
      "under_way c demo_left demo_want (unat tick + 20) 1 (length es) (drive_start k4) s4 k4" "\<forall>e\<in>set es. event_ok c demo_left k4 e"
    using demo_starts[OF S k pl es fits, of cfs] by (elim exE conjE)
  obtain d s k' where r: "drive_loop once es (drive_start k4) s4 k4 = Inr (Drained d s k')" "ready s = []" "0 < preempts d"
      "on_plan demo_left demo_want s k'" "roster s k' = roster s4 k4"
    using scheduler.drive_drains[OF S 4(3,4)] by blast
  have "n = expected_runs name" if row: "(i, name, n) \<in> set (finished_runs s)" for i name n
  proof -
    have "unat n = demo_want i" using r(4) row by (auto simp: on_plan_def)
    then show ?thesis using demo_rows[OF 4(2) r(2,5) row] by (auto simp: expected_runs_def demo_want_def SCHED_FAIR_RUNS_def word_unat_eq_iff)
  qed
  then have "demo_verdict (Drained d s k') = Inr ''sched: fair. Phase 3 online''"
    using r(2,3) by (auto simp: demo_verdict_def ledger_def)
  then show ?thesis using 4(1) r(1) by (simp add: demo_def)
qed

end
