(* ===== verification/Cfs_Order.thy ===== *)
theory Cfs_Order
  imports Demo
begin

text \<open>
  The order in which the workers of the demo finish under \<open>Cfs\<close>. What the policy does to them is written as a function on rows (number,
  virtual runtime, steps left, slice); the policy refines it whatever the interrupts and the napper do, so that the order can be computed.
\<close>

section \<open>The plan\<close>

type_synonym row = "u64 \<times> nat \<times> nat \<times> nat"

abbreviation row_runtime :: "row \<Rightarrow> nat" where
  "row_runtime r \<equiv> fst (snd r)"

text \<open>The first row with the least virtual runtime, between the rows before and after it.\<close>

fun split_min :: "row list \<Rightarrow> row list \<times> row \<times> row list" where
  "split_min [] = ([], (0, 0, 0, 0), [])"
| "split_min (r # rs) =
     (if rs = [] then ([], r, [])
      else case split_min rs of (xs, m, ys) \<Rightarrow> if row_runtime r \<le> row_runtime m then ([], r, rs) else (r # xs, m, ys))"

definition plan_turn :: "row list \<Rightarrow> u64 list \<times> row list" where
  "plan_turn rs =
     (case split_min rs of (xs, (i, v, l, d), ys) \<Rightarrow>
        if 1 < l then ([], xs @ ys @ [(i, v + d, l - 1, d)]) else ([i], xs @ ys))"

fun finish_order :: "nat \<Rightarrow> row list \<Rightarrow> u64 list" where
  "finish_order 0 rs = []"
| "finish_order (Suc n) rs = (if rs = [] then [] else case plan_turn rs of (f, rs') \<Rightarrow> f @ finish_order n rs')"

definition steps_left :: "row list \<Rightarrow> nat" where
  "steps_left rs = sum_list (map (\<lambda>(i, v, l, d). l) rs)"

lemma split_min_in: "rs \<noteq> [] \<Longrightarrow> split_min rs = (xs, m, ys) \<Longrightarrow> m \<in> set rs"
  by (induction rs arbitrary: xs ys) (auto split: if_splits prod.splits)

lemma split_min_eq:
  assumes "\<forall>x\<in>set xs. row_runtime r < row_runtime x" "\<forall>y\<in>set ys. row_runtime r \<le> row_runtime y"
  shows "split_min (xs @ r # ys) = (xs, r, ys)"
  using assms
proof (induction xs)
  case Nil
  then show ?case by (cases "split_min ys") (auto dest: split_min_in)
qed simp

lemma finish_order_numeral:
  "finish_order (numeral n) rs = (if rs = [] then [] else case plan_turn rs of (f, rs') \<Rightarrow> f @ finish_order (pred_numeral n) rs')"
  by (simp add: numeral_eq_Suc)

lemma demo_order: "finish_order 15 [(1, 0, 5, 100), (2, 0, 5, 100), (3, 0, 5, 50)] = [3, 1, 2]"
  by (simp add: finish_order_numeral plan_turn_def)

section \<open>The policy follows the plan\<close>

definition row_of :: "demo_world kernel \<Rightarrow> u64 \<Rightarrow> row" where
  "row_of k p = (id_at k p, unat (vruntime (the (boxes k p))), demo_left (world k) (id_at k p), unat (turn_slice (the (boxes k p))))"

definition rows :: "demo_world kernel \<Rightarrow> u64 list \<Rightarrow> row list" where
  "rows k ps = map (row_of k) (filter (\<lambda>p. id_at k p \<noteq> 4) ps)"

definition worker_ends :: "sched \<Rightarrow> u64 list" where
  "worker_ends s = filter (\<lambda>i. i \<noteq> 4) (map fst (finished_runs s))"

text \<open>The workers are never asleep, and their virtual runtimes never get near the end of the range.\<close>

definition worker_ok :: "demo_world kernel \<Rightarrow> u64 \<Rightarrow> bool" where
  "worker_ok k p \<longleftrightarrow> id_at k p \<noteq> 4 \<longrightarrow>
     state (the (boxes k p)) = Ready \<and> unat (turn_slice (the (boxes k p))) \<le> 100 \<and>
     unat (vruntime (the (boxes k p))) + 100 * demo_left (world k) (id_at k p) \<le> 1000"

definition on_course :: "u64 list \<Rightarrow> sched \<Rightarrow> demo_world kernel \<Rightarrow> bool" where
  "on_course order s k \<longleftrightarrow>
     worker_ends s @ finish_order (steps_left (rows k (ready s))) (rows k (ready s)) = order \<and> (\<forall>p\<in>set (ready s). worker_ok k p)"

lemma rows_simps [simp]:
  "rows k [] = []" "rows k (p # ps) = (if id_at k p = 4 then rows k ps else row_of k p # rows k ps)" "rows k (ps @ qs) = rows k ps @ rows k qs"
  by (simp_all add: rows_def)

lemma steps_left_simps [simp]: "steps_left [] = 0" "steps_left ((i, v, l, d) # rs) = l + steps_left rs" "steps_left (rs @ rs') = steps_left rs + steps_left rs'"
  by (simp_all add: steps_left_def)

lemma rows_cong:
  assumes "\<forall>b\<in>set ps. boxes k' b = boxes k b \<and> demo_left (world k') (id_at k b) = demo_left (world k) (id_at k b)"
  shows "rows k' ps = rows k ps" "\<forall>b\<in>set ps. worker_ok k' b = worker_ok k b"
  using assms by (induction ps) (auto simp: row_of_def worker_ok_def)

text \<open>One turn, with the queue split at the task that takes it.\<close>

lemma on_course_turn:
  assumes course: "on_course order s k" and q: "ready s = xs @ p # ys" and t: "boxes k p = Some t"
    and counts: "alive_after irq k p t \<longleftrightarrow> 1 < demo_left (world k) (task_id t)" "demo_left (world k') (task_id t) = demo_left (world k) (task_id t) - 1"
      "0 < demo_left (world k) (task_id t)"
    and others: "\<forall>b\<in>set (xs @ ys). boxes k' b = boxes k b \<and> demo_left (world k') (id_at k b) = demo_left (world k) (id_at k b)"
    and least: "task_id t \<noteq> 4 \<Longrightarrow> \<forall>x\<in>set (rows k xs). unat (vruntime t) < row_runtime x" "task_id t \<noteq> 4 \<Longrightarrow> \<forall>y\<in>set (rows k ys). unat (vruntime t) \<le> row_runtime y"
    and after: "ready s' = xs @ ys @ (if alive_after irq k p t then [p] else [])"
      "map fst (finished_runs s') = map fst (finished_runs s) @ (if alive_after irq k p t then [] else [task_id t])"
      "alive_after irq k p t \<Longrightarrow> \<exists>v. boxes k' p = Some ((ran_task irq k p t)\<lparr>vruntime := v\<rparr>) \<and> (state t = Ready \<longrightarrow> v = saturating_add (vruntime t) (turn_slice t))"
  shows "on_course order s' k'"
proof -
  let ?l = "demo_left (world k) (task_id t)" and ?a = "alive_after irq k p t"
  have c: "worker_ends s @ finish_order (steps_left (rows k (ready s))) (rows k (ready s)) = order" "worker_ok k p" "\<forall>b\<in>set (xs @ ys). worker_ok k b"
    using course q by (simp_all add: on_course_def)
  note same = rows_cong[OF others]
  have idp: "id_at k p = task_id t" using t by simp
  have ends: "worker_ends s' = worker_ends s @ (if ?a \<or> task_id t = 4 then [] else [task_id t])" using after(2) by (simp add: worker_ends_def)
  have ok: "\<forall>b\<in>set (xs @ ys). worker_ok k' b" using c(3) same(2) by blast
  have rest: "rows k' xs = rows k xs" "rows k' ys = rows k ys" using rows_cong[of xs k' k] rows_cong[of ys k' k] others by simp_all
  show ?thesis
  proof (cases "task_id t = 4")
    case True
    then have "?l \<le> 1" by (simp add: demo_left_def)
    then have "\<not> ?a" using counts(1) by simp
    then show ?thesis using c(1) after(1) ends ok rest True idp q by (simp add: on_course_def)
  next
    case False
    have w: "state t = Ready" "unat (turn_slice t) \<le> 100" "unat (vruntime t) + 100 * ?l \<le> 1000" using c(2) False t by (simp_all add: worker_ok_def)
    have row: "row_of k p = (task_id t, unat (vruntime t), ?l, unat (turn_slice t))" using t by (simp add: row_of_def)
    have "split_min (rows k (ready s)) = (rows k xs, row_of k p, rows k ys)"
      unfolding q using False idp least row by (simp add: split_min_eq)
    then have turn: "plan_turn (rows k (ready s)) = (if 1 < ?l then ([], rows k xs @ rows k ys @ [(task_id t, unat (vruntime t) + unat (turn_slice t), ?l - 1, unat (turn_slice t))])
        else ([task_id t], rows k xs @ rows k ys))" by (simp add: plan_turn_def row)
    have ne: "rows k (ready s) \<noteq> []" using q False idp by simp
    have steps: "steps_left (rows k (ready s)) = Suc (steps_left (rows k xs) + steps_left (rows k ys) + (?l - 1))"
      using q False idp row counts(3) by simp
    show ?thesis
    proof (cases ?a)
      case True
      obtain v where v: "boxes k' p = Some ((ran_task irq k p t)\<lparr>vruntime := v\<rparr>)" "v = saturating_add (vruntime t) (turn_slice t)" using after(3)[OF True] w(1) by blast
      have "unat v = unat (vruntime t) + unat (turn_slice t)" using v(2) w(2,3) by (simp add: unat_saturating_add)
      then have new: "row_of k' p = (task_id t, unat (vruntime t) + unat (turn_slice t), ?l - 1, unat (turn_slice t))" "id_at k' p = task_id t"
        using v(1) counts(2) by (simp_all add: row_of_def ran_task_def turn_slice_def)
      have "?l = Suc (?l - 1)" using counts(3) by simp
      then have "worker_ok k' p"
        using v(1) new w(2,3) counts(2) True False by (simp add: worker_ok_def row_of_def ran_task_def turn_slice_def)
      then show ?thesis
        using c(1) turn ne steps after(1) ends ok rest new True False counts(1) by (simp add: on_course_def add.assoc)
    next
      case dead: False
      then have "?l = 1" using counts(1,3) by simp
      then show ?thesis using c(1) turn ne steps after(1) ends ok rest dead False by (simp add: on_course_def)
    qed
  qed
qed

text \<open>The policy gives the turn to the first worker with the least virtual runtime, unless the napper takes it.\<close>

lemma wins_least:
  assumes w: "wins now (map (\<lambda>p. the (boxes k p)) (xs @ p # ys)) (length xs)" and ok: "\<forall>b\<in>set (xs @ p # ys). worker_ok k b"
  shows "\<forall>x\<in>set (rows k xs). unat (vruntime (the (boxes k p))) < row_runtime x" "\<forall>y\<in>set (rows k ys). unat (vruntime (the (boxes k p))) \<le> row_runtime y"
proof -
  have awake: "awake now (the (boxes k b))" if "b \<in> set (xs @ p # ys)" "id_at k b \<noteq> 4" for b
    using ok that by (auto simp: worker_ok_def awake_def)
  have w1: "vruntime (the (boxes k p)) < vruntime (the (boxes k (xs ! l)))" if "l < length xs" "id_at k (xs ! l) \<noteq> 4" for l
    using w that awake[of "xs ! l"] by (auto simp: wins_def nth_append)
  have w2: "vruntime (the (boxes k p)) \<le> vruntime (the (boxes k (ys ! l)))" if "l < length ys" "id_at k (ys ! l) \<noteq> 4" for l
    using w that awake[of "ys ! l"] unfolding wins_def
    by (elim conjE allE[of _ "length xs + Suc l"]) (simp add: nth_append)
  show "\<forall>x\<in>set (rows k xs). unat (vruntime (the (boxes k p))) < row_runtime x" "\<forall>y\<in>set (rows k ys). unat (vruntime (the (boxes k p))) \<le> row_runtime y"
    using w1 w2 by (auto simp: rows_def row_of_def in_set_conv_nth word_less_nat_alt word_le_nat_alt)
qed

lemma cfs_on_course:
  assumes course: "on_course order s k" and ok: "sched_ok s k" and plan: "on_plan demo_left demo_want s k"
    and once: "cfs_schedule_once irq s k = Inr (True, s', k')" and all: "\<forall>p\<in>set (ready s). turn_ok irq k p (the (boxes k p))"
  shows "on_course order s' k'"
proof -
  define ts where "ts = map (\<lambda>p. the (boxes k p)) (ready s)"
  have "pick_min (APIC_TICKS (pre k)) ts \<noteq> None"
    using cfs_idle[OF ok, of irq] once by (auto simp: pick_min_None ts_def)
  then obtain j where j: "pick_min (APIC_TICKS (pre k)) ts = Some j" by auto
  have w: "wins (APIC_TICKS (pre k)) ts j" using j by (rule pick_min_Some)
  then have len: "j < length (ready s)" by (simp add: wins_def ts_def)
  define xs p ys t where "xs = take j (ready s)" and "p = ready s ! j" and "ys = drop (Suc j) (ready s)" and "t = the (boxes k p)"
  have q: "ready s = xs @ p # ys" "length xs = j" using id_take_nth_drop[OF len] len by (simp_all add: xs_def p_def ys_def)
  have pt: "ready s ! j = p" "ts ! j = t" using len by (simp_all add: p_def t_def ts_def)
  have turn_ok: "turn_ok irq k p t" using all q(1) by (simp add: t_def)
  obtain s1 k1 where r: "cfs_schedule_once irq s k = Inr (True, s1, k1)" "turn_taken irq p t s k s1 k1"
      "ready s1 = xs @ ys @ (if alive_after irq k p t then [p] else [])"
      "alive_after irq k p t \<Longrightarrow> vruntime (the (boxes k1 p)) = saturating_add (vruntime (woken (take j ts @ drop (Suc j) ts) t)) (turn_slice t)"
    using cfs_turn[OF ok ts_def j] turn_ok unfolding pt xs_def ys_def by blast
  have eq: "s1 = s'" "k1 = k'" using r(1) once by simp_all
  note turn = r(2)[unfolded eq]
  note counts = turn_counts[OF plan turn turn_ok]
  have "distinct (ready s)" using kernel_ok_queue(1)[OF sched_okD[OF ok]] .
  then have apart: "b \<in> set (ready s)" "b \<noteq> p" if "b \<in> set (xs @ ys)" for b using that q(1) by auto
  have others: "\<forall>b\<in>set (xs @ ys). boxes k' b = boxes k b \<and> demo_left (world k') (id_at k b) = demo_left (world k) (id_at k b)"
    using counts(7)[OF apart] by blast
  have good: "\<forall>b\<in>set (xs @ p # ys). worker_ok k b" using course q(1) by (simp add: on_course_def)
  have least: "\<forall>x\<in>set (rows k xs). unat (vruntime t) < row_runtime x" "\<forall>y\<in>set (rows k ys). unat (vruntime t) \<le> row_runtime y"
    using wins_least[OF w[unfolded ts_def q(1) q(2)[symmetric]] good] by (simp_all add: t_def)
  have "map fst (finished_runs s') = map fst (finished_runs s) @ (if alive_after irq k p t then [] else [task_id t])"
    using turn by (simp add: turn_taken_def)
  moreover have "\<exists>v. boxes k' p = Some ((ran_task irq k p t)\<lparr>vruntime := v\<rparr>) \<and> (state t = Ready \<longrightarrow> v = saturating_add (vruntime t) (turn_slice t))"
    if a: "alive_after irq k p t"
    using turn a r(4)[OF a] eq by (auto simp: turn_taken_def woken_eq sleeper_def)
  moreover have "boxes k p = Some t" using turn by (simp add: turn_taken_def)
  ultimately show ?thesis
    using on_course_turn[OF course q(1) _ counts(1,2,4) others least] r(3) eq by blast
qed

section \<open>The demo\<close>

lemma demo_on_course:
  assumes sp: "spawned places tick 4 s k" and fresh: "fresh_rows True places 4 k"
  shows "on_course [3, 1, 2] s k"
proof -
  have q: "ready s = [snd (places 0), snd (places 1), snd (places 2), snd (places 3)]" "finished_runs s = []" "counter (world k) = (\<lambda>_. 0)"
    using sp by (simp_all add: spawned_def upt_rec numeral_2_eq_2 numeral_3_eq_3)
  have id: "id_at k (snd (places i)) = of_nat (Suc i)" "i < 3 \<Longrightarrow> state (the (boxes k (snd (places i)))) = Ready" if "i < 4" for i
    using spawned_task[OF sp that] by (auto simp: demo_task_def simp del: of_nat_Suc)
  have row: "vruntime (the (boxes k (snd (places i)))) = 0" "weight (the (boxes k (snd (places i)))) = (if i = 2 then 2048 else 1024)" if "i < 4" for i
    using fresh that by (auto simp: fresh_rows_def demo_weight_def CFS_DEFAULT_WEIGHT_def)
  have slice: "unat (turn_slice (the (boxes k (snd (places i))))) = (if i = 2 then 50 else 100)" if "i < 4" for i
    using row(2)[OF that] by (simp add: turn_slice_def saturating_mul_def checked_mul_def CFS_BASE_SLICE_def max_def word_le_nat_alt)
  have "rows k (ready s) = [(1, 0, 5, 100), (2, 0, 5, 100), (3, 0, 5, 50)]"
    using id(1)[of 0] id(1)[of 1] id(1)[of 2] id(1)[of 3] row(1)[of 0] row(1)[of 1] row(1)[of 2] slice[of 0] slice[of 1] slice[of 2] q(1,3)
    by (simp add: row_of_def demo_left_def)
  moreover have "\<forall>p\<in>set (ready s). worker_ok k p"
    using id[of 0] id[of 1] id[of 2] id(1)[of 3] row(1)[of 0] row(1)[of 1] row(1)[of 2] slice[of 0] slice[of 1] slice[of 2] q(1,3)
    by (simp add: worker_ok_def demo_left_def)
  ultimately show ?thesis using q(2) by (simp add: on_course_def worker_ends_def demo_order)
qed

lemma gamma_leads:
  assumes k: "kernel_ok [] k" "counter (world k) = (\<lambda>_. 0)" "\<not> woke (world k)" and pl: "places_ok places"
    and es: "\<forall>e\<in>set es. demo_event c places e" "36 \<le> length es"
    and fits: "unat (APIC_TICKS (pre k)) + idle_ticks idle 5 + 20 + c * length es < 2 ^ 64"
  shows "\<exists>d s k'. demo_drive cfs_spawn cfs_schedule_once True places idle es k = Inr (Drained d s k') \<and>
     filter (\<lambda>name. name \<noteq> ''napper'') (map (fst \<circ> snd) (finished_runs s)) = [''gamma'', ''alpha'', ''beta'']"
proof -
  obtain tick s4 k4 where 4: "demo_drive cfs_spawn cfs_schedule_once True places idle es k = drive_loop cfs_schedule_once es (drive_start k4) s4 k4"
      "spawned places tick 4 s4 k4" "fresh_rows True places 4 k4" "under_way c demo_left demo_want (unat tick + 20) 1 (length es) (drive_start k4) s4 k4"
      "\<forall>e\<in>set es. event_ok c demo_left k4 e"
    using demo_starts[OF cfs.scheduler_axioms k pl es fits, of True] by (elim exE conjE)
  have wait: "on_course [3, 1, 2] s (k\<lparr>pre := ticks_hit fs (pre k)\<rparr>)" if "on_course [3, 1, 2] s k" for s k fs
    using that by (simp add: on_course_def rows_def row_of_def worker_ok_def cong: map_cong)
  have "\<exists>d s k'. drive_loop cfs_schedule_once es (drive_start k4) s4 k4 = Inr (Drained d s k') \<and> ready s = [] \<and> 0 < preempts d \<and>
      on_plan demo_left demo_want s k' \<and> roster s k' = roster s4 k4 \<and> sched_ok s k' \<and> on_course [3, 1, 2] s k'"
    by (rule cfs.drive_drains_keeping[where J = "on_course [3, 1, 2]", OF 4(4,5) demo_on_course[OF 4(2,3)]]) (fact wait, rule cfs_on_course)
  then obtain d s k' where r: "drive_loop cfs_schedule_once es (drive_start k4) s4 k4 = Inr (Drained d s k')" "ready s = []"
      "roster s k' = roster s4 k4" "on_course [3, 1, 2] s k'"
    by (elim exE conjE)
  have names: "filter (\<lambda>name. name \<noteq> ''napper'') (map (fst \<circ> snd) rs) = map (\<lambda>i. [''alpha'', ''beta'', ''gamma''] ! (unat i - 1)) (filter (\<lambda>i. i \<noteq> 4) (map fst rs))"
    if "\<forall>x\<in>set rs. (fst x, fst (snd x)) \<in> {(1, ''alpha''), (2, ''beta''), (3, ''gamma''), (4, ''napper'')}" for rs :: "(u64 \<times> string \<times> u64) list"
    using that by (induction rs) auto
  have "\<forall>x\<in>set (finished_runs s). (fst x, fst (snd x)) \<in> {(1, ''alpha''), (2, ''beta''), (3, ''gamma''), (4, ''napper'')}"
    using demo_rows[OF 4(2) r(2,3)] by (metis prod.collapse)
  note names[OF this]
  moreover have "worker_ends s = [3, 1, 2]" using r(2,4) by (simp add: on_course_def)
  ultimately show ?thesis using 4(1) r(1) by (simp add: worker_ends_def)
qed

end
