(* ===== verification/Task_Properties.thy ===== *)
theory Task_Properties
  imports Cfs_Order
begin

text \<open>
  The properties of tasks, of the two policies and of the demo, with a concrete demo as the instance
  their witnesses use: four stacks in the kernel heap, and a timer that ticks once per wait and once per step.
\<close>

section \<open>Every reachable state\<close>

text \<open>
  What can happen to the task subsystem between two steps of the driver's own code: a tick hits
  the driver, a task is built and spawned in an unused heap block, or the driver asks for a turn.
\<close>

inductive reachable :: "'w spawner \<Rightarrow> 'w picker \<Rightarrow> 'w kernel \<Rightarrow> sched \<Rightarrow> 'w kernel \<Rightarrow> bool"
  for spawn :: "'w spawner" and once :: "'w picker" and k0 :: "'w kernel" where
  boot: "reachable spawn once k0 sched_new k0"
| tick: "reachable spawn once k0 s k \<Longrightarrow> reachable spawn once k0 s (k\<lparr>pre := ticks_hit fs (pre k)\<rparr>)"
| built: "reachable spawn once k0 s k \<Longrightarrow> site_ok e k \<Longrightarrow> p \<notin> set (ready s) \<Longrightarrow> 0 < w \<Longrightarrow>
    st = Ready \<or> (\<exists>u. st = Sleeping u) \<Longrightarrow> Task_build e i nm st f k = Inr (t, k1) \<Longrightarrow>
    spawn p (t\<lparr>weight := w\<rparr>) s k1 = Inr (s', k') \<Longrightarrow> reachable spawn once k0 s' k'"
| turn: "reachable spawn once k0 s k \<Longrightarrow> \<forall>p\<in>set (ready s). turn_ok irq k p (the (boxes k p)) \<Longrightarrow>
    once irq s k = Inr (did, s', k') \<Longrightarrow> reachable spawn once k0 s' k'"

lemma build_room:
  assumes ok: "kernel_ok q k" and b: "Task_build e i nm st f k = Inr (t, k1)"
  shows "length q < MAX_TASKS"
proof -
  obtain sl where "alloc_slot (pre k) = Inr sl"
    using b by (auto simp: Task_build_def obind_eq_Inr split: prod.splits)
  then show ?thesis by (rule queue_room[OF ok])
qed

context scheduler
begin

lemma once_cases:
  assumes ok: "sched_ok s k" and turn: "\<forall>p\<in>set (ready s). turn_ok irq k p (the (boxes k p))"
  shows "\<exists>did s' k'. schedule_once irq s k = Inr (did, s', k') \<and> sched_ok s' k'"
proof (cases "\<exists>q\<in>set (ready s). awake (APIC_TICKS (pre k)) (the (boxes k q))")
  case True
  then obtain q where "q \<in> set (ready s)" "awake (APIC_TICKS (pre k)) (the (boxes k q))" by (elim bexE)
  from busy[OF ok this turn] show ?thesis by (elim exE conjE) (intro exI conjI)
next
  case False
  then show ?thesis using idle[OF ok] ok by auto
qed

lemma reachable_ok:
  assumes "reachable spawn schedule_once k0 s k" "kernel_ok [] k0"
  shows "sched_ok s k"
  using assms(1)
proof (induction rule: reachable.induct)
  case boot
  have "boxes k0 = Map.empty" using kernel_ok_queue(2)[OF assms(2)] by simp
  then show ?case using assms(2) by (simp add: sched_ok_def sched_new_def)
next
  case (tick s k fs)
  show ?case by (rule wait_sched_ok[OF tick.IH])
next
  case (built s k e p w st i nm f t k1 s' k')
  have room: "length (ready s) < MAX_TASKS" by (rule build_room[OF sched_okD[OF built.IH] built.hyps(6)])
  have "alloc_slot (pre k) = Inr (slot t)"
    using Task_build_spec[OF sched_okD[OF built.IH] room built.hyps(2), of i nm st f] built.hyps(6) by auto
  then have "s' = s\<lparr>ready := ready s @ [p]\<rparr>" "k' = registered p (t\<lparr>weight := w\<rparr>) k1"
    using spawn[of "t\<lparr>weight := w\<rparr>" p s k1] built.hyps(4,7) by (simp_all add: alloc_slot_first)
  then show ?case using spawned_ok[OF built.IH room built.hyps(2,3,5,6)] by simp
next
  case (turn s k irq did s' k')
  then show ?case using once_cases[OF turn.IH turn.hyps(2)] by auto
qed

end

section \<open>The concrete demo\<close>

definition demo_places :: "nat \<Rightarrow> place" where
  "demo_places i =
     (\<lparr>heap_addr = 0xFFFF900000000008 + of_nat i * 0x21000, trampoline = 0x8000, code_selector = 8\<rparr>,
      0xFFFF900000000008 + of_nat i * 0x21000 + 0x20800)"

definition demo_irqs :: "u64 \<Rightarrow> irqs" where
  "demo_irqs p = \<lparr>before_fence = [], in_step = [FullFrame_ZERO\<lparr>f_rsp := p - 0x1000\<rparr>], after_fence = [], yield_rsp = p - 0x1000\<rparr>"

definition demo_ev :: event where
  "demo_ev = \<lparr>wait_ticks = [FullFrame_ZERO], turns = demo_irqs\<rparr>"

definition demo_kernel :: "demo_world kernel" where
  "demo_kernel = kernel_boot \<lparr>counter = (\<lambda>_. 0), woke = False\<rparr>"

lemma kernel_boot_ok: "kernel_ok [] (kernel_boot w)"
  by (simp add: kernel_ok_def tables_ok_def driving_def kernel_boot_def statics_boot_def table_ok_def)

lemma demo_kernel_facts [simp]:
  "kernel_ok [] demo_kernel" "counter (world demo_kernel) = (\<lambda>_. 0)" "\<not> woke (world demo_kernel)"
  "APIC_TICKS (pre demo_kernel) = 0"
  unfolding demo_kernel_def by (rule kernel_boot_ok) (simp_all add: kernel_boot_def statics_boot_def)

lemma demo_heap: "i < 4 \<Longrightarrow> unat (heap_addr (fst (demo_places i))) = 0xFFFF900000000008 + i * 0x21000"
  by (simp add: demo_places_def unat_word_ariths unat_of_nat)

lemma demo_box: "i < 4 \<Longrightarrow> unat (snd (demo_places i)) = 0xFFFF900000020808 + i * 0x21000"
  by (simp add: demo_places_def unat_word_ariths unat_of_nat)

lemma demo_places_ok: "places_ok demo_places"
proof -
  have "snd (demo_places i) \<noteq> snd (demo_places j)" if "i < 4" "j < i" for i j
    using demo_box[of i] demo_box[of j] that by auto
  then show ?thesis by (auto simp: places_ok_def block_ok_def demo_heap stack_sizes word_less_nat_alt)
qed

lemma demo_ev_ok: "demo_event 2 demo_places demo_ev"
proof -
  have "unat (snd (demo_places i) - 0x1000) = 0xFFFF90000001F808 + i * 0x21000" if "i < 4" for i
    using demo_box[OF that] by (simp add: unat_sub_if')
  then show ?thesis by (auto simp: demo_event_def demo_ev_def demo_irqs_def demo_heap)
qed

lemma demo_spawned: "\<exists>s k. spawned demo_places 0 4 s k"
  using demo_spawns[OF rr.scheduler_axioms demo_kernel_facts(1-3) demo_places_ok, of "\<lambda>_. []" False "[]"] by (auto simp: idle_ticks_def)

lemma demo_turns:
  assumes sp: "spawned demo_places 0 4 s k" and p: "p \<in> set (ready s)"
  shows "turn_ok demo_irqs k p (the (boxes k p))"
proof -
  have "sched_ok s k" "on_plan demo_left demo_want s k" using sp by (simp_all add: spawned_def)
  from event_turn_ok[OF this demo_event_ok[OF sp demo_ev_ok] p] show ?thesis by (simp add: demo_ev_def)
qed

lemma demo_first:
  assumes sp: "spawned demo_places 0 4 s k"
  shows "\<exists>t. boxes k (snd (demo_places 0)) = Some t \<and> turn_ok demo_irqs k (snd (demo_places 0)) t \<and>
     ready s = snd (demo_places 0) # map (\<lambda>i. snd (demo_places i)) [1..<4] \<and> state t = Ready \<and> step t = demo_step 1 \<and>
     task_id t = 1 \<and> kernel_ok (ready s) k \<and> sched_ok s k"
proof -
  have q: "ready s = map (\<lambda>i. snd (demo_places i)) [0..<4]" "sched_ok s k" using sp by (simp_all add: spawned_def)
  obtain t where t: "boxes k (snd (demo_places 0)) = Some t" "demo_task 0 (demo_places 0) 0 t"
    using spawned_task[OF sp, of 0] by auto
  have "turn_ok demo_irqs k (snd (demo_places 0)) t" using demo_turns[OF sp, of "snd (demo_places 0)"] q t by simp
  then show ?thesis using t q sched_okD[OF q(2)] by (auto simp: demo_task_def upt_rec)
qed

section \<open>Properties of a turn\<close>

text \<open>
  C9. Giving a task its turn never panics and runs exactly one step: when the tables are sound and
  every timer interrupt of the turn finds the stack pointer inside the task's stack, \<open>dispatch\<close> comes back with the
  tables sound, the fence down, no current slot and interrupts on; the step ran once with the interrupts
  that hit it; only the task itself changed, its run count by one; every interrupt inside
  the step was a yank and was stored in the task's own slot and no other.
\<close>

theorem dispatch_one_step:
  assumes "kernel_ok q k" "boxes k p = Some t" "turn_ok irq k p t"
  shows "\<exists>k'. dispatch irq p k = Inr k' \<and> kernel_ok q k' \<and> boxes k' = (boxes k)(p \<mapsto> ran_task irq k p t) \<and>
     step t (length (in_step (irq p))) (world k) (kmem k) = Some (alive_after irq k p t, world k', kmem k') \<and>
     RSP0 k' = top_addr (stack t) \<and>
     PREEMPT_SWITCHES (pre k') = PREEMPT_SWITCHES (pre k) + of_nat (length (in_step (irq p))) \<and>
     APIC_TICKS (pre k') = APIC_TICKS (pre k) +
       of_nat (length (before_fence (irq p)) + length (in_step (irq p)) + length (after_fence (irq p))) \<and>
     (\<forall>i. i \<noteq> unat (slot t) \<longrightarrow> TASK_FRAMES (pre k') ! i = TASK_FRAMES (pre k) ! i)"
proof -
  obtain k' where k': "dispatch irq p k = Inr k'" "after_turn irq p t k k'" "kernel_ok q k'"
    using dispatch_spec[OF assms] by (elim exE conjE)
  moreover have "step t (length (in_step (irq p))) (world k) (kmem k) = Some (alive_after irq k p t, world k', kmem k')"
    using stepped_facts[OF assms(3)] k'(2) by (simp add: after_turn_def)
  ultimately show ?thesis unfolding after_turn_def by blast
qed

theorem dispatch_one_step_witness:
  "\<exists>(k :: demo_world kernel) t k'. boxes k (snd (demo_places 0)) = Some t \<and> dispatch demo_irqs (snd (demo_places 0)) k = Inr k' \<and>
     counter (world k) 1 = 0 \<and> counter (world k') 1 = 1 \<and> PREEMPT_SWITCHES (pre k') = PREEMPT_SWITCHES (pre k) + 1"
proof -
  obtain s k where sp: "spawned demo_places 0 4 s k" using demo_spawned by (elim exE)
  obtain t where t: "boxes k (snd (demo_places 0)) = Some t" "turn_ok demo_irqs k (snd (demo_places 0)) t" "step t = demo_step 1"
      "kernel_ok (ready s) k"
    using demo_first[OF sp] by (elim exE conjE)
  have c: "counter (world k) 1 = 0" using sp by (simp add: spawned_def)
  obtain k' where k': "dispatch demo_irqs (snd (demo_places 0)) k = Inr k'"
      "step t 1 (world k) (kmem k) = Some (alive_after demo_irqs k (snd (demo_places 0)) t, world k', kmem k')"
      "PREEMPT_SWITCHES (pre k') = PREEMPT_SWITCHES (pre k) + 1"
    using dispatch_one_step[OF t(4,1,2)] by (auto simp: demo_irqs_def)
  have "world k' = world k\<lparr>counter := (counter (world k))(1 := 1)\<rparr>"
    using k'(2) t(3) c by (simp add: demo_step_def checked_add_def)
  then have "counter (world k') 1 = 1" by simp
  then show ?thesis using t(1) k'(1,3) c by blast
qed

text \<open>
  C22. A stack that grew into its own bottom is caught before the task runs again: with the canary gone the turn stops
  with the overflow message, whatever the step would do.
\<close>

theorem overflow_caught:
  assumes "boxes k p = Some t" "unat (slot t) < MAX_TASKS" "TASK_PTRS k ! unat (slot t) = Some p" "canonical (top_addr (stack t))"
    and "entered t \<or> (ctx t + 56) mod 16 = 8" "kmem k (bottom (stack t)) \<noteq> STACK_CANARY"
  shows "dispatch irq p k = Inl (Failed ''sched FAILED: stack overflow (canary trashed)'')"
proof -
  have idx: "current_idx (set_current (unat (slot t)) s) = unat (slot t)" for s using assms(2) by simp
  show ?thesis
    using assms idx
    by (auto simp: dispatch_def switch_to_task_def set_rsp0_def trampoline_entry_def trampoline_loop_def current_task_def
        task_at_def deref_def canary_ok_def Let_def)
qed

theorem overflow_caught_witness:
  "\<exists>k :: demo_world kernel. (\<exists>t. boxes k (snd (demo_places 0)) = Some t \<and> kmem k (bottom (stack t)) \<noteq> STACK_CANARY) \<and>
     dispatch demo_irqs (snd (demo_places 0)) k = Inl (Failed ''sched FAILED: stack overflow (canary trashed)'')"
proof -
  obtain s k where sp: "spawned demo_places 0 4 s k" using demo_spawned by (elim exE)
  obtain t where t: "boxes k (snd (demo_places 0)) = Some t" "kernel_ok (ready s) k" using demo_first[OF sp] by (elim exE conjE)
  let ?k = "k\<lparr>kmem := (kmem k)(bottom (stack t) := 0)\<rparr>"
  note ok = kernel_okD(1,3,7)[OF t(2,1)]
  have trashed: "kmem ?k (bottom (stack t)) \<noteq> STACK_CANARY" by (simp add: STACK_CANARY_def)
  have "dispatch demo_irqs (snd (demo_places 0)) ?k = Inl (Failed ''sched FAILED: stack overflow (canary trashed)'')"
    using ok t(1) trashed by (intro overflow_caught[where t = t]) (auto simp: task_ok_def window_ok_def)
  moreover have "boxes ?k (snd (demo_places 0)) = Some t" using t(1) by simp
  ultimately show ?thesis using trashed by blast
qed

section \<open>Properties of the table\<close>



text \<open>
  C3. The invariant of the task subsystem holds in every reachable state, under either policy: whatever sequence of
  ticks, spawns and turns led there, the queue and the tables agree, at most seven tasks are alive, the fence is down
  while the driver runs, and the next call of \<open>schedule_once\<close> does not panic.
\<close>

theorem reachable_invariant:
  assumes "reachable rr_spawn rr_schedule_once k0 s k \<or> reachable cfs_spawn cfs_schedule_once k0 s k" "kernel_ok [] k0"
  shows "sched_ok s k \<and> length (ready s) \<le> MAX_TASKS \<and> PREEMPTIBLE (pre k) = 0 \<and>
     (\<forall>irq. (\<forall>p\<in>set (ready s). turn_ok irq k p (the (boxes k p))) \<longrightarrow>
        (\<exists>r. rr_schedule_once irq s k = Inr r) \<and> (\<exists>r. cfs_schedule_once irq s k = Inr r))"
proof -
  have ok: "sched_ok s k" using assms(1) rr.reachable_ok[OF _ assms(2)] cfs.reachable_ok[OF _ assms(2)] by blast
  moreover have "PREEMPTIBLE (pre k) = 0" using kernel_ok_queue(5)[OF sched_okD[OF ok]] by (simp add: driving_def)
  ultimately show ?thesis
    using queue_length[OF sched_okD[OF ok]] rr.once_cases[OF ok] cfs.once_cases[OF ok] by blast
qed

theorem reachable_invariant_witness:
  "\<exists>s k. reachable rr_spawn rr_schedule_once demo_kernel s k \<and> ready s = [0xFFFF900000020808] \<and> sched_ok s k"
proof -
  have site: "site_ok (fst (demo_places 0)) demo_kernel"
    using demo_places_ok by (simp add: site_ok_def places_ok_def demo_kernel_def kernel_boot_def)
  obtain t k1 where b: "Task_build (fst (demo_places 0)) 1 ''alpha'' Ready (demo_step 1) demo_kernel = Inr (t, k1)"
      "alloc_slot (pre demo_kernel) = Inr (slot t)"
    using Task_build_spec[OF demo_kernel_facts(1) _ site, of 1 "''alpha''" Ready "demo_step 1"] by (auto simp: MAX_TASKS_def)
  let ?p = "0xFFFF900000020808 :: u64"
  have "rr_spawn ?p (t\<lparr>weight := 1024\<rparr>) sched_new k1 =
      Inr (sched_new\<lparr>ready := ready sched_new @ [?p]\<rparr>, registered ?p (t\<lparr>weight := 1024\<rparr>) k1)"
    using b(2) by (intro rr.spawn) (simp_all add: alloc_slot_first)
  then have r: "reachable rr_spawn rr_schedule_once demo_kernel (sched_new\<lparr>ready := [?p]\<rparr>) (registered ?p (t\<lparr>weight := 1024\<rparr>) k1)"
    using reachable.built[OF reachable.boot site _ _ _ b(1), of ?p 1024] by (simp add: sched_new_def)
  show ?thesis using reachable_invariant[OF disjI1[OF r] demo_kernel_facts(1)] r by (intro exI conjI) auto
qed

section \<open>Properties of the policies\<close>

text \<open>
  C18. Round robin runs the task that has waited longest among those awake: it skips the sleeping tasks at the head of
  the queue, gives the first awake one its turn, and leaves the queue rotated past it, with the task itself
  last if it goes on and gone if it finished. With everybody asleep it answers false and changes nothing.
\<close>

theorem rr_first_awake:
  assumes "sched_ok s k" "\<forall>p\<in>set (ready s). turn_ok irq k p (the (boxes k p))"
  shows "if \<forall>p\<in>set (ready s). \<not> awake (APIC_TICKS (pre k)) (the (boxes k p))
     then rr_schedule_once irq s k = Inr (False, s, k)
     else \<exists>xs p ys s' k'. ready s = xs @ p # ys \<and> (\<forall>b\<in>set xs. \<not> awake (APIC_TICKS (pre k)) (the (boxes k b))) \<and>
       rr_schedule_once irq s k = Inr (True, s', k') \<and> turn_taken irq p (the (boxes k p)) s k s' k' \<and>
       ready s' = ys @ xs @ (if alive_after irq k p (the (boxes k p)) then [p] else [])"
proof (cases "\<forall>p\<in>set (ready s). \<not> awake (APIC_TICKS (pre k)) (the (boxes k p))")
  case True
  then show ?thesis using rr_idle[OF assms(1)] by simp
next
  case False
  then obtain xs p ys where p: "ready s = xs @ p # ys" "awake (APIC_TICKS (pre k)) (the (boxes k p))"
      "\<forall>b\<in>set xs. \<not> awake (APIC_TICKS (pre k)) (the (boxes k b))"
    using split_list_first_prop[of "ready s" "\<lambda>p. awake (APIC_TICKS (pre k)) (the (boxes k p))"] by blast
  obtain t where t: "boxes k p = Some t" using queue_task[OF sched_okD[OF assms(1)], of p] p(1) by auto
  have "turn_ok irq k p t" "awake (APIC_TICKS (pre k)) t" using assms(2) p(1,2) t by auto
  then obtain s' k' where r: "rr_schedule_once irq s k = Inr (True, s', k')" "turn_taken irq p t s k s' k'"
      "ready s' = ys @ xs @ (if alive_after irq k p t then [p] else [])"
    using rr_turn[OF assms(1) p(1) t _ p(3)] by blast
  have "the (boxes k p) = t" using t by simp
  note r' = r[folded this]
  show ?thesis unfolding if_not_P[OF False] using p(1,3) r'
    by (intro exI[of _ xs] exI[of _ p] exI[of _ ys] exI[of _ s'] exI[of _ k'] conjI)
qed

theorem rr_first_awake_witness:
  "\<exists>s (k :: demo_world kernel) s' k'. length (ready s) = 4 \<and> rr_schedule_once demo_irqs s k = Inr (True, s', k') \<and>
     ready s' = tl (ready s) @ [hd (ready s)]"
proof -
  obtain s k where sp: "spawned demo_places 0 4 s k" using demo_spawned by (elim exE)
  obtain t where t: "boxes k (snd (demo_places 0)) = Some t" "ready s = snd (demo_places 0) # map (\<lambda>i. snd (demo_places i)) [1..<4]"
      "state t = Ready" "step t = demo_step 1" "sched_ok s k"
    using demo_first[OF sp] by (elim exE conjE)
  have aw: "awake (APIC_TICKS (pre k)) t" using t(3) by (simp add: awake_def)
  have c: "counter (world k) 1 = 0" using sp by (simp add: spawned_def)
  have "alive_after demo_irqs k (snd (demo_places 0)) t"
    using t(4) c by (simp add: stepped_def demo_irqs_def demo_step_def checked_add_def SCHED_FAIR_RUNS_def)
  moreover obtain xs p ys s' k' where r: "ready s = xs @ p # ys" "\<forall>b\<in>set xs. \<not> awake (APIC_TICKS (pre k)) (the (boxes k b))"
      "rr_schedule_once demo_irqs s k = Inr (True, s', k')"
      "ready s' = ys @ xs @ (if alive_after demo_irqs k p (the (boxes k p)) then [p] else [])"
    using rr_first_awake[OF t(5), of demo_irqs] demo_turns[OF sp] t(1,2) aw by (auto split: if_splits)
  moreover have "xs = []" using r(1,2) t(1,2) aw by (cases xs) auto
  ultimately have "ready s' = tl (ready s) @ [hd (ready s)]" "length (ready s) = 4" using t(1,2) by auto
  then show ?thesis using r(3) by blast
qed

text \<open>
  C20. Round robin gives equal shares: with \<open>n\<close> tasks that stay ready, after any number \<open>c\<close> of calls the task that stood at
  position \<open>j\<close> of the queue has run exactly \<open>(c + n - 1 - j) div n\<close> times, so any two tasks differ by at most one run, and
  after a multiple of \<open>n\<close> calls not at all; the queue is the original one rotated by \<open>c\<close>.
\<close>

theorem rr_equal_shares:
  assumes "sched_ok s k" "ready s \<noteq> []" "\<forall>t\<in>ran (boxes k). tireless t \<and> unat (runs t) + length is < 2 ^ 64"
    "\<forall>irq\<in>set is. frames_fit irq k"
  shows "\<exists>s' k'. schedule_many rr_schedule_once is s k = Inr (s', k') \<and> ready s' = rotate (length is) (ready s) \<and>
     (\<forall>j<length (ready s). unat (runs (the (boxes k' (ready s ! j)))) =
        unat (runs (the (boxes k (ready s ! j)))) + (length is + length (ready s) - 1 - j) div length (ready s))"
  using rr_shares[OF assms] by blast

text \<open>Two tasks that never finish, for the instances of the fairness properties.\<close>

definition busy_step :: "unit step" where
  "busy_step n w M = Some (True, w, M)"

lemma tireless_pair:
  "\<exists>s (k :: unit kernel). sched_ok s k \<and> ready s = [snd (demo_places 0), snd (demo_places 1)] \<and> frames_fit demo_irqs k \<and>
     (\<forall>t\<in>ran (boxes k). tireless t \<and> runs t = 0 \<and> vruntime t = 0 \<and> weight t = 1024)"
proof -
  let ?k0 = "kernel_boot () :: unit kernel" and ?p = "\<lambda>i. snd (demo_places i)" and ?e = "\<lambda>i. fst (demo_places i)"
  have ok0: "sched_ok sched_new ?k0" using kernel_boot_ok[of "()"] by (simp add: sched_ok_def sched_new_def) (simp add: kernel_boot_def)
  have site0: "site_ok (?e 0) ?k0" using demo_places_ok by (simp add: site_ok_def places_ok_def kernel_boot_def)
  obtain t0 a0 M0 where b0: "Task_build (?e 0) 1 ''a'' Ready busy_step ?k0 = Inr (t0, ?k0\<lparr>pre := a0, kmem := M0\<rparr>)" "state t0 = Ready" "runs t0 = 0"
      "vruntime t0 = 0" "step t0 = busy_step" "unat (heap_addr (?e 0)) \<le> unat (bottom (stack t0))"
      "unat (bottom (stack t0)) \<le> unat (heap_addr (?e 0)) + 16" "unat (top_addr (stack t0)) = unat (bottom (stack t0)) + 131072"
    using Task_build_spec[OF kernel_boot_ok _ site0, of 1 "''a''" Ready busy_step] by (auto simp: MAX_TASKS_def)
  let ?s1 = "sched_new\<lparr>ready := [?p 0]\<rparr>" and ?k1 = "registered (?p 0) (t0\<lparr>weight := 1024\<rparr>) (?k0\<lparr>pre := a0, kmem := M0\<rparr>)"
  have ok1: "sched_ok ?s1 ?k1"
    using spawned_ok[OF ok0 _ site0 _ _ b0(1), of "?p 0" 1024] by (simp add: sched_new_def MAX_TASKS_def)
  have boxes1: "boxes ?k1 = [?p 0 \<mapsto> t0\<lparr>weight := 1024\<rparr>]" by (simp add: registered_def kernel_boot_def)
  have site1: "site_ok (?e 1) ?k1"
    using b0(6,7) by (simp add: site_ok_def block_ok_def boxes1 demo_heap stack_sizes word_less_nat_alt)
  have p01: "?p 1 \<noteq> ?p 0" using places_apart[OF demo_places_ok, of 1 0] by simp
  obtain t1 a1 M1 where b1: "Task_build (?e 1) 2 ''b'' Ready busy_step ?k1 = Inr (t1, ?k1\<lparr>pre := a1, kmem := M1\<rparr>)" "state t1 = Ready" "runs t1 = 0"
      "vruntime t1 = 0" "step t1 = busy_step" "unat (heap_addr (?e 1)) \<le> unat (bottom (stack t1))"
      "unat (bottom (stack t1)) \<le> unat (heap_addr (?e 1)) + 16" "unat (top_addr (stack t1)) = unat (bottom (stack t1)) + 131072"
    using Task_build_spec[OF sched_okD[OF ok1] _ site1, of 2 "''b''" Ready busy_step] by (auto simp: MAX_TASKS_def)
  let ?s2 = "sched_new\<lparr>ready := [?p 0, ?p 1]\<rparr>" and ?k2 = "registered (?p 1) (t1\<lparr>weight := 1024\<rparr>) (?k1\<lparr>pre := a1, kmem := M1\<rparr>)"
  have ok2: "sched_ok ?s2 ?k2"
    using spawned_ok[OF ok1 _ site1 _ _ b1(1), of "?p 1" 1024] p01 by (simp add: sched_new_def MAX_TASKS_def)
  have boxes2: "boxes ?k2 = [?p 0 \<mapsto> t0\<lparr>weight := 1024\<rparr>, ?p 1 \<mapsto> t1\<lparr>weight := 1024\<rparr>]" using boxes1 by (simp add: registered_def)
  have spot: "unat (?p i - 0x1000) = 0xFFFF90000001F808 + i * 0x21000" if "i < 4" for i
    using demo_box[OF that] by (simp add: unat_sub_if')
  have "frames_fit demo_irqs ?k2"
    unfolding frames_fit_def boxes2
    using b0(6-8) b1(6-8) spot[of 0] spot[of 1] demo_heap[of 0] demo_heap[of 1]
    by (auto simp: demo_irqs_def word_le_nat_alt split: if_splits)
  moreover have "\<forall>t\<in>ran (boxes ?k2). tireless t \<and> runs t = 0 \<and> vruntime t = 0 \<and> weight t = 1024"
    unfolding boxes2 using b0(2-5) b1(2-5) by (auto simp: ran_def tireless_def busy_step_def)
  ultimately show ?thesis using ok2 by (intro exI[of _ ?s2] exI[of _ ?k2]) simp
qed

theorem rr_equal_shares_witness:
  "\<exists>s (k :: unit kernel) s' k'. schedule_many rr_schedule_once [demo_irqs, demo_irqs, demo_irqs] s k = Inr (s', k') \<and>
     length (ready s) = 2 \<and> runs (the (boxes k' (ready s ! 0))) = 2 \<and> runs (the (boxes k' (ready s ! 1))) = 1"
proof -
  obtain s and k :: "unit kernel" where p: "sched_ok s k" "ready s = [snd (demo_places 0), snd (demo_places 1)]" "frames_fit demo_irqs k"
     "\<forall>t\<in>ran (boxes k). tireless t \<and> runs t = 0 \<and> vruntime t = 0 \<and> weight t = 1024"
    using tireless_pair by (elim exE conjE)
  have z: "runs (the (boxes k (ready s ! i))) = 0" if "i < 2" for i
  proof -
    have "ready s ! i \<in> set (ready s)" using p(2) that by (intro nth_mem) simp
    from queue_task[OF sched_okD[OF p(1)] this] obtain t where t: "boxes k (ready s ! i) = Some t" by (elim exE)
    then show ?thesis using p(4) ranI[of "boxes k", OF t] by simp
  qed
  let ?is = "[demo_irqs, demo_irqs, demo_irqs]"
  have hyps: "ready s \<noteq> []" "\<forall>t\<in>ran (boxes k). tireless t \<and> unat (runs t) + length ?is < 2 ^ 64" "\<forall>irq\<in>set ?is. frames_fit irq k"
    using p(2-4) by simp_all
  obtain s' k' where r: "schedule_many rr_schedule_once ?is s k = Inr (s', k')"
     "\<forall>j<length (ready s). unat (runs (the (boxes k' (ready s ! j)))) =
        unat (runs (the (boxes k (ready s ! j)))) + (length ?is + length (ready s) - 1 - j) div length (ready s)"
    using rr_equal_shares[OF p(1) hyps] by (elim exE conjE)
  have len: "length (ready s) = 2" using p(2) by simp
  have "unat (runs (the (boxes k' (ready s ! 0)))) = 2" using r(2)[rule_format, of 0] z[of 0] len by simp
  moreover have "unat (runs (the (boxes k' (ready s ! 1)))) = 1" using r(2)[rule_format, of 1] z[of 1] len by simp
  ultimately have "runs (the (boxes k' (ready s ! 0))) = 2" "runs (the (boxes k' (ready s ! 1))) = 1"
    by (simp_all add: word_unat_eq_iff)
  then show ?thesis using r(1) len by (intro exI conjI)
qed

text \<open>
  C19. CFS runs the awake task with the least virtual runtime, the first such one in queue order, and charges it: a task that went on has the
  virtual runtime it had (or, woken from sleep, at least the least of the others) plus one slice scaled by its
  weight. With everybody asleep it answers false and changes nothing.
\<close>

theorem cfs_least_vruntime:
  fixes s k irq
  defines "ts \<equiv> map (\<lambda>p. the (boxes k p)) (ready s)" and "now \<equiv> APIC_TICKS (pre k)"
  assumes "sched_ok s k" "\<forall>p\<in>set (ready s). turn_ok irq k p (the (boxes k p))"
  shows "if \<forall>t\<in>set ts. \<not> awake now t
     then cfs_schedule_once irq s k = Inr (False, s, k)
     else \<exists>j s' k'. wins now ts j \<and> cfs_schedule_once irq s k = Inr (True, s', k') \<and>
       turn_taken irq (ready s ! j) (ts ! j) s k s' k' \<and>
       (alive_after irq k (ready s ! j) (ts ! j) \<longrightarrow>
          vruntime (the (boxes k' (ready s ! j))) =
            saturating_add (if sleeper (ts ! j) then max (vruntime (ts ! j)) (min_vruntime (take j ts @ drop (Suc j) ts))
                            else vruntime (ts ! j)) (turn_slice (ts ! j)))"
proof (cases "\<forall>t\<in>set ts. \<not> awake now t")
  case True
  then show ?thesis using cfs_idle[OF assms(3)] by (simp add: ts_def now_def)
next
  case False
  then obtain j where j: "pick_min now ts = Some j" by (cases "pick_min now ts") (auto simp: pick_min_None)
  have w: "wins now ts j" by (rule pick_min_Some[OF j])
  then have "turn_ok irq k (ready s ! j) (ts ! j)" using assms(4) by (simp add: wins_def ts_def)
  from cfs_turn[OF assms(3) ts_def[THEN meta_eq_to_obj_eq] j[unfolded now_def] this]
  obtain s' k' where r: "cfs_schedule_once irq s k = Inr (True, s', k')" "turn_taken irq (ready s ! j) (ts ! j) s k s' k'"
     "alive_after irq k (ready s ! j) (ts ! j) \<longrightarrow>
        vruntime (the (boxes k' (ready s ! j))) = saturating_add (vruntime (woken (take j ts @ drop (Suc j) ts) (ts ! j))) (turn_slice (ts ! j))"
    by (elim exE conjE)
  have "vruntime (woken (take j ts @ drop (Suc j) ts) (ts ! j)) =
      (if sleeper (ts ! j) then max (vruntime (ts ! j)) (min_vruntime (take j ts @ drop (Suc j) ts)) else vruntime (ts ! j))"
    by (simp add: woken_eq)
  note r' = r(3)[unfolded this]
  show ?thesis unfolding if_not_P[OF False] using w r(1,2) r'
    by (intro exI[of _ j] exI[of _ s'] exI[of _ k'] conjI)
qed

theorem cfs_least_vruntime_witness:
  "\<exists>s (k :: demo_world kernel) j s' k'. length (ready s) = 4 \<and> wins (APIC_TICKS (pre k)) (map (\<lambda>p. the (boxes k p)) (ready s)) j \<and>
     cfs_schedule_once demo_irqs s k = Inr (True, s', k')"
proof -
  obtain s k where sp: "spawned demo_places 0 4 s k" using demo_spawned by (elim exE)
  obtain t where t: "boxes k (snd (demo_places 0)) = Some t" "ready s = snd (demo_places 0) # map (\<lambda>i. snd (demo_places i)) [1..<4]"
      "state t = Ready" "sched_ok s k"
    using demo_first[OF sp] by (elim exE conjE)
  have awk: "\<not> (\<forall>t\<in>set (map (\<lambda>p. the (boxes k p)) (ready s)). \<not> awake (APIC_TICKS (pre k)) t)"
    using t(1-3) by (auto simp: awake_def)
  have ok: "\<forall>p\<in>set (ready s). turn_ok demo_irqs k p (the (boxes k p))" using demo_turns[OF sp] by blast
  have len: "length (ready s) = 4" using t(2) by simp
  from cfs_least_vruntime[OF t(4) ok, unfolded if_not_P[OF awk]]
  obtain j s' k' where "wins (APIC_TICKS (pre k)) (map (\<lambda>p. the (boxes k p)) (ready s)) j"
      "cfs_schedule_once demo_irqs s k = Inr (True, s', k')"
    by (elim exE conjE)
  with len show ?thesis by (intro exI conjI)
qed



section \<open>The demo ends well\<close>

text \<open>The interrupts of the pauses before the spawns and before the driver starts, in the concrete demo: two each.\<close>

abbreviation demo_idle :: "nat \<Rightarrow> FullFrame list" where
  "demo_idle \<equiv> (\<lambda>_. [FullFrame_ZERO, FullFrame_ZERO])"

lemma demo_idle_ticks: "idle_ticks demo_idle 5 = 10"
  by (simp add: idle_ticks_def)





end
