(* ===== verification/Boot.thy ===== *)
theory Boot
  imports Apic Gdt Task_Properties
begin

text \<open>
  \<open>kernel_main\<close> of \<open>kernel/src/main.rs\<close> as a composition of the components: hardware and memory come up, the two
  clocks are soaked side by side, the local APIC is promoted and watched, and the scheduler demo runs. The crates the kernel calls and the hardware it
  finds are the records \<open>crates\<close> and \<open>hardware\<close>; the interrupts that arrive during a busy loop are sequences
  of moments, and those between two statements single moments. The allocator and the policy that are compiled in are arguments. Where the kernel halts with a message, the message is the result. The interrupt table is a constant
  of \<open>Interrupts\<close>, so \<open>idt::init\<close> has no step of its own.
\<close>

section \<open>The soak\<close>

definition SOAK_SPIN_GUARD :: nat where
  "SOAK_SPIN_GUARD = 100000000"

datatype soak_end = Dual_life | No_apic_irqs | Degraded | Stalled

text \<open>The progress line: both marks move when either clock is twenty ticks past its mark.\<close>

definition soak_progress :: "u64 \<Rightarrow> u64 \<Rightarrow> u64 \<Rightarrow> u64 \<Rightarrow> (u64 \<times> u64) outcome" where
  "soak_progress pic apic_ticks last_pic last_apic =
     obind (add_op last_pic 20) (\<lambda>pic_mark.
     obind (if pic_mark \<le> pic then Inr True
            else obind (add_op last_apic 20) (\<lambda>apic_mark. Inr (apic_mark \<le> apic_ticks))) (\<lambda>moved.
       Inr (if moved then (pic, apic_ticks) else (last_pic, last_apic))))"

text \<open>The loop, \<open>spins\<close> iterations in; interrupts may arrive before each of the two loads.\<close>

function soak_loop ::
  "'p pic_api \<Rightarrow> (nat \<Rightarrow> moment) \<Rightarrow> nat \<Rightarrow> u64 \<Rightarrow> u64 \<Rightarrow> 'p devices \<Rightarrow> (soak_end \<times> 'p devices) outcome" where
  "soak_loop api env spins last_pic last_apic d =
     obind (elapse api (env (2 * spins)) d) (\<lambda>d.
       let pic = TIMER_TICKS d in
       obind (elapse api (env (2 * spins + 1)) d) (\<lambda>d.
         let apic_ticks = APIC_TICKS (preempts_of d) in
         obind (soak_progress pic apic_ticks last_pic last_apic) (\<lambda>(last_pic, last_apic).
           if SOAK_TICKS_EACH \<le> pic \<and> SOAK_TICKS_EACH \<le> apic_ticks then Inr (Dual_life, d)
           else if SOAK_TICKS_EACH \<le> pic \<and> apic_ticks = 0 then Inr (No_apic_irqs, d)
           else if SOAK_TICKS_EACH * 2 \<le> pic \<and> apic_ticks < SOAK_TICKS_EACH then Inr (Degraded, d)
           else if SOAK_SPIN_GUARD < spins + 1 then Inr (Stalled, d)
           else soak_loop api env (spins + 1) last_pic last_apic d)))"
  by pat_completeness auto
termination
  by (relation "measure (\<lambda>(api, env, spins, last_pic, last_apic, d). SOAK_SPIN_GUARD - spins)") auto

declare soak_loop.simps [simp del]

section \<open>The watch after the promotion\<close>

text \<open>
  The result tells whether the local APIC was proven; if it stalled, the PIT is master again. In both cases the loop is left
  by a \<open>break\<close>.
\<close>

function watch_loop ::
  "'p pic_api \<Rightarrow> (nat \<Rightarrow> moment) \<Rightarrow> (nat \<Rightarrow> nat) \<Rightarrow> nat \<Rightarrow> u64 \<Rightarrow> u64 \<Rightarrow> 'p devices \<Rightarrow> (bool \<times> 'p devices) outcome" where
  "watch_loop api env arrive spins last_apic base d =
     obind (elapse api (env spins) d) (\<lambda>d.
       let apic_ticks = APIC_TICKS (preempts_of d) in
       obind (add_op last_apic 20) (\<lambda>mark.
       obind (if mark \<le> apic_ticks then obind (sub_op apic_ticks base) (\<lambda>_. Inr apic_ticks) else Inr last_apic) (\<lambda>last_apic.
       obind (sub_op apic_ticks base) (\<lambda>gain.
         if SOAK_TICKS_EACH \<le> gain then Inr (True, d)
         else if SOAK_SPIN_GUARD < spins + 1 then obind (rollback_to_pit api arrive d) (\<lambda>d. Inr (False, d))
         else watch_loop api env arrive (spins + 1) last_apic base d))))"
  by pat_completeness auto
termination
  by (relation "measure (\<lambda>(api, env, arrive, spins, last_apic, base, d). SOAK_SPIN_GUARD - spins)") auto

declare watch_loop.simps [simp del]

definition watch :: "'p pic_api \<Rightarrow> (nat \<Rightarrow> moment) \<Rightarrow> (nat \<Rightarrow> nat) \<Rightarrow> 'p devices \<Rightarrow> (bool \<times> 'p devices) outcome" where
  "watch api env arrive d = (let base = APIC_TICKS (preempts_of d) in watch_loop api env arrive 0 base base d)"

section \<open>The parts of the machine\<close>

record ('m, 'a, 'p, 'g) crates =
  c_paging :: "('m, 'a) paging_api"
  c_pic :: "'p pic_api"
  c_gdt :: "'g gdt_api"

record ('m, 'p) hardware =
  hw_pics :: 'p
  hw_df_stack :: u64
  hw_tss :: u64
  hw_stub :: u64
  hw_cpuid_edx :: u32
  hw_rdmsr :: "u32 \<Rightarrow> u64"
  hw_rsdp :: "u64 option"
  hw_phys_offset :: "u64 option"
  hw_regions :: "memory_region list"
  hw_cr3 :: u64
  hw_tables :: "u64 \<Rightarrow> u64 \<Rightarrow> 'm"
  hw_lapic :: mmio_reader
  hw_frame :: FullFrame
  hw_boot :: "nat \<Rightarrow> moment"
  hw_windows :: "nat \<Rightarrow> window"
  hw_soak :: "nat \<Rightarrow> moment"
  hw_gate :: moment
  hw_promote :: "nat \<Rightarrow> nat"
  hw_watch :: "nat \<Rightarrow> moment"
  hw_rollback :: "nat \<Rightarrow> nat"
  hw_settle :: moment
  hw_spawns :: "nat \<Rightarrow> FullFrame list"

text \<open>\<open>Result::expect\<close>.\<close>

definition expect :: "string \<Rightarrow> (string + 'a) \<Rightarrow> 'a outcome" where
  "expect msg r = (case r of Inl _ \<Rightarrow> Inl (Failed msg) | Inr x \<Rightarrow> Inr x)"

section \<open>Booting\<close>

text \<open>The address at which the bootloader is asked to map all physical memory.\<close>

definition BOOTLOADER_CONFIG :: "u64 option" where
  "BOOTLOADER_CONFIG = Some PHYS_MEM_OFFSET"

text \<open>
  From the first instruction to the periodic timer of the local APIC. Once interrupts are on, some may arrive between two
  statements: these are the moments \<open>hw_boot\<close>.
\<close>

definition bring_up :: "'a FrameAlloc \<Rightarrow> ('m, 'a, 'p, 'g) crates \<Rightarrow> ('m, 'p) hardware \<Rightarrow> u64 \<Rightarrow> bool \<Rightarrow> 'p devices outcome" where
  "bring_up fa c hw heap_size self_test_on =
     (let d = (devices_boot (hw_pics hw))\<lparr>if_flag := False\<rparr>;
          d = d\<lparr>port_writes := serial_init (port_writes d)\<rparr> in
      obind (gdt_init (c_gdt c) (hw_df_stack hw) (hw_tss hw) TSS) (\<lambda>_.
      obind (interrupts_init (c_pic c) d) (\<lambda>d.
        let apic = probe (hw_cpuid_edx hw) (hw_rdmsr hw) (hw_rsdp hw) in
        obind (assert_that (present apic) ''no local APIC (CPUID bit 9 clear)'') (\<lambda>_.
        obind (memory_init fa (c_paging c) (hw_tables hw) (hw_cr3 hw) heap_size self_test_on (hw_phys_offset hw) (hw_regions hw)) (\<lambda>(m, s, bytes, n).
        obind (apic_init (c_paging c) (hw_lapic hw) m s apic d) (\<lambda>(r, m, s, d).
        obind (expect ''apic init failed'' r) (\<lambda>_.
        obind (timer_init (c_pic c) d) (\<lambda>d.
          let d = d\<lparr>if_flag := True\<rparr> in
          obind (elapse (c_pic c) (hw_boot hw 0) d) (\<lambda>d.
          obind (calibrate (c_pic c) (hw_windows hw) d) (\<lambda>(r, d).
          obind (expect ''apic calibrate failed'' r) (\<lambda>_.
          obind (elapse (c_pic c) (hw_boot hw 1) d) (\<lambda>d.
          obind (take_interrupt (c_pic c) (hw_frame hw) 3 d) (\<lambda>d.
          obind (elapse (c_pic c) (hw_boot hw 2) d) (\<lambda>d.
          obind (syscall_self_test (c_pic c) (hw_frame hw) d) (\<lambda>d.
          obind (elapse (c_pic c) (hw_boot hw 3) d) (\<lambda>d.
          obind (start_periodic d) (\<lambda>(r, d).
          obind (expect ''apic start_periodic failed'' r) (\<lambda>_. Inr d))))))))))))))))))"

text \<open>The soak, the gate behind it and the promotion; a message means that the kernel halts there for good.\<close>

definition clock_handover :: "'p pic_api \<Rightarrow> ('m, 'p) hardware \<Rightarrow> 'p devices \<Rightarrow> (string option \<times> 'p devices) outcome" where
  "clock_handover api hw d =
     obind (soak_loop api (hw_soak hw) 0 0 0 d) (\<lambda>(how, d).
       if how = Stalled then Inr (Some ''self-test FAILED: clocks stalled'', d)
       else
         obind (elapse api (hw_gate hw) d) (\<lambda>d.
           if TIMER_TICKS d < SOAK_TICKS_EACH \<or> APIC_TICKS (preempts_of d) < SOAK_TICKS_EACH
           then Inr (Some ''apic-timer: promotion SKIPPED'', d)
           else
             obind (promote api (hw_promote hw) d) (\<lambda>(r, d).
             obind (expect ''apic promote failed'' r) (\<lambda>_. Inr (None, d)))))"

text \<open>The assertions before the demo.\<close>

definition proof_block :: "u64 \<Rightarrow> 'p devices \<Rightarrow> unit outcome" where
  "proof_block stub d =
     obind (assert_that (PREEMPTIBLE (preempts_of d) = 0) ''preempt fence UP on boot stack'') (\<lambda>_.
     obind (assert_that (EOI_BASE (preempts_of d) \<noteq> 0) ''preempt EOI base unpublished'') (\<lambda>_.
       assert_that (stub \<noteq> 0) ''preempt stub address is null''))"

text \<open>The state the tasks start from: empty tables, and the statics of the booted kernel.\<close>

definition task_kernel :: "'p devices \<Rightarrow> demo_world kernel" where
  "task_kernel d = (kernel_boot \<lparr>counter = (\<lambda>_. 0), woke = False\<rparr>)\<lparr>pre := preempts_of d, irq_enabled := if_flag d\<rparr>"

definition after_promotion ::
  "demo_world spawner \<Rightarrow> demo_world picker \<Rightarrow> bool \<Rightarrow> (nat \<Rightarrow> place) \<Rightarrow> event list \<Rightarrow>
   'p pic_api \<Rightarrow> ('m, 'p) hardware \<Rightarrow> 'p devices \<Rightarrow> string outcome" where
  "after_promotion spawn schedule_once sched_cfs places es api hw d =
     obind (watch api (hw_watch hw) (hw_rollback hw) d) (\<lambda>(proven, d).
     obind (elapse api (hw_settle hw) d) (\<lambda>d.
     obind (proof_block (hw_stub hw) d) (\<lambda>_.
       demo spawn schedule_once sched_cfs places (hw_spawns hw) es (task_kernel d))))"

definition kernel_main ::
  "'a FrameAlloc \<Rightarrow> demo_world spawner \<Rightarrow> demo_world picker \<Rightarrow> bool \<Rightarrow> (nat \<Rightarrow> place) \<Rightarrow> event list \<Rightarrow>
   ('m, 'a, 'p, 'g) crates \<Rightarrow> ('m, 'p) hardware \<Rightarrow> u64 \<Rightarrow> bool \<Rightarrow> string outcome" where
  "kernel_main fa spawn schedule_once sched_cfs places es c hw heap_size self_test_on =
     obind (bring_up fa c hw heap_size self_test_on) (\<lambda>d.
     obind (clock_handover (c_pic c) hw d) (\<lambda>(halted, d).
       case halted of
         Some msg \<Rightarrow> Inr msg
       | None \<Rightarrow> after_promotion spawn schedule_once sched_cfs places es (c_pic c) hw d))"

text \<open>The panic handler: fence down, interrupts off, then \<open>hlt\<close> for good.\<close>

definition panic_handler :: "'p devices \<Rightarrow> 'p devices" where
  "panic_handler d = (let d = d\<lparr>preempts_of := set_preemptible False (preempts_of d)\<rparr> in d\<lparr>if_flag := False\<rparr>)"

section \<open>Idle time\<close>

lemma stubs_idle: "PREEMPTIBLE p = 0 \<Longrightarrow> fold stub_effect fs p = p\<lparr>APIC_TICKS := APIC_TICKS p + of_nat (length fs)\<rparr>"
proof (induction fs arbitrary: p)
  case (Cons f fs)
  have "stub_effect f p = p\<lparr>APIC_TICKS := APIC_TICKS p + 1\<rparr>"
    using Cons.prems by (simp add: stub_effect_def yankable_def Let_def)
  then show ?case using Cons.IH[of "p\<lparr>APIC_TICKS := APIC_TICKS p + 1\<rparr>"] Cons.prems by (simp add: algebra_simps)
qed simp

text \<open>\<open>lapic_count\<close>: the timer interrupts of the local APIC in the moments from \<open>i\<close> to \<open>n\<close>.\<close>

definition lapic_count :: "(nat \<Rightarrow> moment) \<Rightarrow> nat \<Rightarrow> nat \<Rightarrow> nat" where
  "lapic_count env i n = (\<Sum>j\<in>{i..n}. length (lapic_frames (env j)))"

abbreviation apic_plus :: "'p devices \<Rightarrow> nat \<Rightarrow> statics" where
  "apic_plus d n \<equiv> (preempts_of d)\<lparr>APIC_TICKS := APIC_TICKS (preempts_of d) + of_nat n\<rparr>"

definition waiting :: "'p pic_api \<Rightarrow> 'p devices \<Rightarrow> bool" where
  "waiting api d \<longleftrightarrow> pic_laws api \<and> \<not> PICS_taken d \<and> if_flag d \<and> PREEMPTIBLE (preempts_of d) = 0"

lemma elapse_waiting:
  assumes "waiting api d"
  shows "\<exists>d'. elapse api mo d = Inr d' \<and> ticked api d d' \<and> waiting api d' \<and> preempts_of d' = apic_plus d (length (lapic_frames mo)) \<and>
     TIMER_TICKS d' = TIMER_TICKS d + tick_count api d (pit_ticks mo)"
proof -
  have w: "pic_laws api" "\<not> PICS_taken d" "if_flag d" "PREEMPTIBLE (preempts_of d) = 0" using assms by (simp_all add: waiting_def)
  obtain d' where d': "elapse api mo d = Inr d'" "ticked api d d'" "TIMER_TICKS d' = TIMER_TICKS d + tick_count api d (pit_ticks mo)"
     "preempts_of d' = (if if_flag d then fold stub_effect (lapic_frames mo) (preempts_of d) else preempts_of d)"
    using elapse_spec[OF w(1,2), of mo] by (elim exE conjE)
  have "preempts_of d' = apic_plus d (length (lapic_frames mo))" using d'(4) w(3) stubs_idle[OF w(4)] by simp
  then show ?thesis using d'(1-3) w by (intro exI[of _ d']) (simp add: waiting_def ticked_def)
qed

lemma lapic_count_step: "i \<le> n \<Longrightarrow> lapic_count env i n = length (lapic_frames (env i)) + lapic_count env (Suc i) n"
  unfolding lapic_count_def by (simp add: sum.atLeast_Suc_atMost)

lemma lapic_count_single [simp]: "lapic_count env i i = length (lapic_frames (env i))"
  by (simp add: lapic_count_def)

lemma unat_plus: "unat (a :: u64) + n < 2 ^ 64 \<Longrightarrow> unat (a + of_nat n) = unat a + n"
  by (simp add: unat_word_ariths unat_of_nat)

section \<open>A healthy soak\<close>

text \<open>The loop goes on at counts \<open>p\<close> and \<open>a\<close> of the PIT and the local APIC.\<close>

definition undecided :: "nat \<Rightarrow> nat \<Rightarrow> bool" where
  "undecided p a \<longleftrightarrow> \<not> (100 \<le> p \<and> 100 \<le> a) \<and> \<not> (100 \<le> p \<and> a = 0) \<and> \<not> (200 \<le> p \<and> a < 100)"

lemma soak_progress_ok:
  assumes "unat last_pic \<le> unat pic" "unat last_apic \<le> unat apic" "unat pic + 20 < 2 ^ 64" "unat apic + 20 < 2 ^ 64"
  shows "\<exists>lp la. soak_progress pic apic last_pic last_apic = Inr (lp, la) \<and> unat lp \<le> unat pic \<and> unat la \<le> unat apic"
proof -
  have "add_op last_pic 20 = Inr (last_pic + 20)" "add_op last_apic 20 = Inr (last_apic + 20)"
    using assms by (simp_all add: add_op_no_overflow)
  then show ?thesis using assms by (simp add: soak_progress_def)
qed

lemma soak_iteration:
  fixes api :: "'p pic_api" and d env
  defines "P \<equiv> \<lambda>i. unat (TIMER_TICKS d) + pit_ticks (env (2 * i))"
    and "T \<equiv> \<lambda>i. pit_ticks (env (2 * i)) + pit_ticks (env (2 * i + 1))"
    and "A \<equiv> \<lambda>i. length (lapic_frames (env (2 * i))) + length (lapic_frames (env (2 * i + 1)))"
  assumes w: "waiting api d" "irq0_open api d"
    and marks: "unat last_pic \<le> unat (TIMER_TICKS d)" "unat last_apic \<le> unat (APIC_TICKS (preempts_of d))"
    and bounds: "unat (TIMER_TICKS d) + T spins + 20 < 2 ^ 64" "unat (APIC_TICKS (preempts_of d)) + A spins + 20 < 2 ^ 64"
  shows "\<exists>d' lp la. ticked api d d' \<and> waiting api d' \<and> irq0_open api d' \<and> preempts_of d' = apic_plus d (A spins) \<and>
     unat (TIMER_TICKS d') = unat (TIMER_TICKS d) + T spins \<and>
     unat (APIC_TICKS (preempts_of d')) = unat (APIC_TICKS (preempts_of d)) + A spins \<and>
     unat lp \<le> unat (TIMER_TICKS d') \<and> unat la \<le> unat (APIC_TICKS (preempts_of d')) \<and>
     soak_loop api env spins last_pic last_apic d =
       (let p = P spins; a = unat (APIC_TICKS (preempts_of d)) + A spins in
        if 100 \<le> p \<and> 100 \<le> a then Inr (Dual_life, d') else if 100 \<le> p \<and> a = 0 then Inr (No_apic_irqs, d')
        else if 200 \<le> p \<and> a < 100 then Inr (Degraded, d') else if SOAK_SPIN_GUARD < spins + 1 then Inr (Stalled, d')
        else soak_loop api env (spins + 1) lp la d')"
proof -
  obtain d1 where d1: "elapse api (env (2 * spins)) d = Inr d1" "ticked api d d1" "waiting api d1"
     "preempts_of d1 = apic_plus d (length (lapic_frames (env (2 * spins))))" "TIMER_TICKS d1 = TIMER_TICKS d + of_nat (pit_ticks (env (2 * spins)))"
    using elapse_waiting[OF w(1), of "env (2 * spins)"] w(2) by auto
  have o1: "irq0_open api d1" using ticked_open[OF d1(2)] w(2) by simp
  obtain d2 where d2: "elapse api (env (2 * spins + 1)) d1 = Inr d2" "ticked api d1 d2" "waiting api d2"
     "preempts_of d2 = apic_plus d1 (length (lapic_frames (env (2 * spins + 1))))"
     "TIMER_TICKS d2 = TIMER_TICKS d1 + of_nat (pit_ticks (env (2 * spins + 1)))"
    using elapse_waiting[OF d1(3), of "env (2 * spins + 1)"] o1 by auto
  have pre: "preempts_of d2 = apic_plus d (A spins)" using d1(4) d2(4) by (simp add: A_def algebra_simps)
  have pic: "unat (TIMER_TICKS d1) = P spins" unfolding d1(5) P_def using bounds(1) by (intro unat_plus) (simp add: T_def)
  have tim: "unat (TIMER_TICKS d2) = unat (TIMER_TICKS d) + T spins"
    unfolding d2(5) using bounds(1) pic by (subst unat_plus) (simp_all add: T_def P_def)
  have apc: "unat (APIC_TICKS (preempts_of d2)) = unat (APIC_TICKS (preempts_of d)) + A spins"
    unfolding pre using bounds(2) by (simp add: unat_plus)
  obtain lp la where pr: "soak_progress (TIMER_TICKS d1) (APIC_TICKS (preempts_of d2)) last_pic last_apic = Inr (lp, la)"
     "unat lp \<le> unat (TIMER_TICKS d1)" "unat la \<le> unat (APIC_TICKS (preempts_of d2))"
    using soak_progress_ok[of last_pic "TIMER_TICKS d1" last_apic "APIC_TICKS (preempts_of d2)"] marks bounds pic apc
    by (auto simp: P_def T_def)
  have marks2: "unat lp \<le> unat (TIMER_TICKS d2)" using pr(2) pic tim by (simp add: P_def T_def)
  have loop: "soak_loop api env spins last_pic last_apic d =
       (let p = P spins; a = unat (APIC_TICKS (preempts_of d)) + A spins in
        if 100 \<le> p \<and> 100 \<le> a then Inr (Dual_life, d2) else if 100 \<le> p \<and> a = 0 then Inr (No_apic_irqs, d2)
        else if 200 \<le> p \<and> a < 100 then Inr (Degraded, d2) else if SOAK_SPIN_GUARD < spins + 1 then Inr (Stalled, d2)
        else soak_loop api env (spins + 1) lp la d2)"
    using d1(1) d2(1) pr(1)
    by (simp add: soak_loop.simps[of api env spins last_pic last_apic d] SOAK_TICKS_EACH_def word_le_nat_alt word_less_nat_alt
        pic apc unat_eq_0[symmetric] Let_def del: unat_eq_0)
  show ?thesis
    using ticked_trans[OF d1(2) d2(2)] d2(3) ticked_open[OF d2(2)] o1 pre tim apc marks2 pr(3) loop
    by (intro exI[of _ d2] exI[of _ lp] exI[of _ la]) simp
qed

lemma arrived_two: "Suc i \<le> n \<Longrightarrow> arrived env i n = pit_ticks (env i) + pit_ticks (env (Suc i)) + arrived env (Suc (Suc i)) n"
  by (simp add: arrived_step)

lemma lapic_count_two: "Suc i \<le> n \<Longrightarrow>
    lapic_count env i n = length (lapic_frames (env i)) + length (lapic_frames (env (Suc i))) + lapic_count env (Suc (Suc i)) n"
  by (simp add: lapic_count_step)

lemma soak_dual:
  assumes "waiting api d" "irq0_open api d" "spins \<le> n" "n \<le> SOAK_SPIN_GUARD"
    and "unat last_pic \<le> unat (TIMER_TICKS d)" "unat last_apic \<le> unat (APIC_TICKS (preempts_of d))"
    and "unat (TIMER_TICKS d) + arrived env (2 * spins) (2 * n + 1) + 20 < 2 ^ 64"
      "unat (APIC_TICKS (preempts_of d)) + lapic_count env (2 * spins) (2 * n + 1) + 20 < 2 ^ 64"
    and "\<And>m. spins \<le> m \<Longrightarrow> m < n \<Longrightarrow> undecided (unat (TIMER_TICKS d) + arrived env (2 * spins) (2 * m))
      (unat (APIC_TICKS (preempts_of d)) + lapic_count env (2 * spins) (2 * m + 1))"
    and "100 \<le> unat (TIMER_TICKS d) + arrived env (2 * spins) (2 * n)"
      "100 \<le> unat (APIC_TICKS (preempts_of d)) + lapic_count env (2 * spins) (2 * n + 1)"
  shows "\<exists>d'. soak_loop api env spins last_pic last_apic d = Inr (Dual_life, d') \<and> ticked api d d' \<and> waiting api d' \<and>
     preempts_of d' = apic_plus d (lapic_count env (2 * spins) (2 * n + 1)) \<and>
     unat (TIMER_TICKS d') = unat (TIMER_TICKS d) + arrived env (2 * spins) (2 * n + 1)"
  using assms
proof (induction "n - spins" arbitrary: spins d last_pic last_apic)
  case (0 spins d last_pic last_apic)
  then have sp: "spins = n" by simp
  have T: "arrived env (2 * n) (2 * n + 1) = pit_ticks (env (2 * n)) + pit_ticks (env (2 * n + 1))"
      "lapic_count env (2 * n) (2 * n + 1) = length (lapic_frames (env (2 * n))) + length (lapic_frames (env (2 * n + 1)))"
    by (simp_all add: arrived_step lapic_count_step)
  obtain d' where d': "ticked api d d'" "waiting api d'" "preempts_of d' = apic_plus d (lapic_count env (2 * n) (2 * n + 1))"
     "unat (TIMER_TICKS d') = unat (TIMER_TICKS d) + arrived env (2 * n) (2 * n + 1)"
     "soak_loop api env n last_pic last_apic d = Inr (Dual_life, d')"
    using soak_iteration[OF "0.prems"(1,2,5,6), of env n] "0.prems"(7,8,10,11) T unfolding sp by (auto simp: Let_def)
  then show ?case unfolding sp by blast
next
  case (Suc k spins d last_pic last_apic)
  then have sp: "k = n - Suc spins" "spins < n" by simp_all
  have T: "arrived env (2 * spins) (2 * m + j) = pit_ticks (env (2 * spins)) + pit_ticks (env (2 * spins + 1)) + arrived env (2 * Suc spins) (2 * m + j)"
      "lapic_count env (2 * spins) (2 * m + j) = length (lapic_frames (env (2 * spins))) + length (lapic_frames (env (2 * spins + 1))) +
         lapic_count env (2 * Suc spins) (2 * m + j)" if "spins < m" for m j
    using that by (simp_all add: arrived_two lapic_count_two)
  note T0 = T(1)[where j = 0, unfolded add_0_right]
  obtain d' lp la where d': "ticked api d d'" "waiting api d'" "irq0_open api d'"
     "preempts_of d' = apic_plus d (length (lapic_frames (env (2 * spins))) + length (lapic_frames (env (2 * spins + 1))))"
     "unat (TIMER_TICKS d') = unat (TIMER_TICKS d) + (pit_ticks (env (2 * spins)) + pit_ticks (env (2 * spins + 1)))"
     "unat (APIC_TICKS (preempts_of d')) = unat (APIC_TICKS (preempts_of d)) +
        (length (lapic_frames (env (2 * spins))) + length (lapic_frames (env (2 * spins + 1))))"
     "unat lp \<le> unat (TIMER_TICKS d')" "unat la \<le> unat (APIC_TICKS (preempts_of d'))"
     "soak_loop api env spins last_pic last_apic d = soak_loop api env (Suc spins) lp la d'"
  proof -
    have "undecided (unat (TIMER_TICKS d) + pit_ticks (env (2 * spins)))
        (unat (APIC_TICKS (preempts_of d)) + (length (lapic_frames (env (2 * spins))) + length (lapic_frames (env (2 * spins + 1)))))"
      using Suc.prems(9)[of spins] sp(2) by (simp add: lapic_count_step)
    moreover have "\<not> SOAK_SPIN_GUARD < spins + 1" using sp(2) Suc.prems(4) by simp
    ultimately show thesis
      using soak_iteration[OF Suc.prems(1,2,5,6), of env spins] Suc.prems(7,8) T[OF sp(2), of 1] that
      by (auto simp: Let_def undecided_def)
  qed
  have "\<exists>e. soak_loop api env (Suc spins) lp la d' = Inr (Dual_life, e) \<and> ticked api d' e \<and> waiting api e \<and>
     preempts_of e = apic_plus d' (lapic_count env (2 * Suc spins) (2 * n + 1)) \<and>
     unat (TIMER_TICKS e) = unat (TIMER_TICKS d') + arrived env (2 * Suc spins) (2 * n + 1)"
  proof (rule Suc.hyps(1)[OF sp(1) d'(2,3) _ Suc.prems(4) d'(7,8)])
    show "undecided (unat (TIMER_TICKS d') + arrived env (2 * Suc spins) (2 * m))
        (unat (APIC_TICKS (preempts_of d')) + lapic_count env (2 * Suc spins) (2 * m + 1))" if "Suc spins \<le> m" "m < n" for m
      using Suc.prems(9)[of m] that T0[of m] T(2)[of m 1] unfolding d'(5,6) by (simp add: add.assoc)
  qed (use sp(2) Suc.prems(7,8,10,11) T0[OF sp(2)] T[OF sp(2), of 1] in \<open>simp_all only: d'(5,6) add.assoc Suc_leI\<close>)
  then obtain e where e: "soak_loop api env (Suc spins) lp la d' = Inr (Dual_life, e)" "ticked api d' e" "waiting api e"
     "preempts_of e = apic_plus d' (lapic_count env (2 * Suc spins) (2 * n + 1))"
     "unat (TIMER_TICKS e) = unat (TIMER_TICKS d') + arrived env (2 * Suc spins) (2 * n + 1)"
    by (elim exE conjE)
  show ?case
    using ticked_trans[OF d'(1) e(2)] e(1,3-5) d'(4,5,9) T[OF sp(2), of 1]
    by (intro exI[of _ e]) (simp add: algebra_simps)
qed

section \<open>The watch\<close>

lemma watch_iteration:
  fixes api :: "'p pic_api" and d env
  defines "A \<equiv> \<lambda>i. unat (APIC_TICKS (preempts_of d)) + length (lapic_frames (env i))"
  assumes w: "waiting api d" and base: "unat base \<le> unat (APIC_TICKS (preempts_of d))"
    and mark: "unat last_apic \<le> unat (APIC_TICKS (preempts_of d))" and bound: "A spins + 20 < 2 ^ 64"
  shows "\<exists>d' la. ticked api d d' \<and> waiting api d' \<and> preempts_of d' = apic_plus d (length (lapic_frames (env spins))) \<and>
     unat (APIC_TICKS (preempts_of d')) = A spins \<and> unat la \<le> A spins \<and>
     watch_loop api env arrive spins last_apic base d =
       (if 100 \<le> A spins - unat base then Inr (True, d')
        else if SOAK_SPIN_GUARD < spins + 1 then obind (rollback_to_pit api arrive d') (\<lambda>d. Inr (False, d))
        else watch_loop api env arrive (spins + 1) la base d')"
proof -
  obtain d' where d': "elapse api (env spins) d = Inr d'" "ticked api d d'" "waiting api d'"
     "preempts_of d' = apic_plus d (length (lapic_frames (env spins)))"
    using elapse_waiting[OF w, of "env spins"] by (elim exE conjE)
  let ?a = "APIC_TICKS (preempts_of d')"
  have a: "unat ?a = A spins" unfolding d'(4) using bound by (simp add: A_def unat_plus)
  have le: "unat base \<le> unat ?a" using base a by (simp add: A_def)
  then have sub: "sub_op ?a base = Inr (?a - base)" "unat (?a - base) = A spins - unat base"
    using a by (simp_all add: sub_op_def word_less_nat_alt unat_sub word_le_nat_alt)
  have add: "add_op last_apic 20 = Inr (last_apic + 20)" using mark bound by (intro add_op_no_overflow) (simp add: A_def)
  define la where "la = (if last_apic + 20 \<le> ?a then ?a else last_apic)"
  have "unat la \<le> A spins" using mark a by (simp add: la_def A_def)
  moreover have "watch_loop api env arrive spins last_apic base d =
       (if 100 \<le> A spins - unat base then Inr (True, d')
        else if SOAK_SPIN_GUARD < spins + 1 then obind (rollback_to_pit api arrive d') (\<lambda>d. Inr (False, d))
        else watch_loop api env arrive (spins + 1) la base d')"
    using d'(1) sub add
    by (simp add: watch_loop.simps[of api env arrive spins last_apic base d] SOAK_TICKS_EACH_def word_le_nat_alt la_def Let_def)
  ultimately show ?thesis using d'(2-4) a by (intro exI[of _ d'] exI[of _ la]) simp
qed

lemma watch_proves:
  assumes "waiting api d" "unat base \<le> unat (APIC_TICKS (preempts_of d))" "unat last_apic \<le> unat (APIC_TICKS (preempts_of d))"
    and "spins \<le> n" "n \<le> SOAK_SPIN_GUARD" "unat (APIC_TICKS (preempts_of d)) + lapic_count env spins n + 20 < 2 ^ 64"
    and "100 \<le> unat (APIC_TICKS (preempts_of d)) + lapic_count env spins n - unat base"
  shows "\<exists>d' m. watch_loop api env arrive spins last_apic base d = Inr (True, d') \<and> ticked api d d' \<and> m \<le> lapic_count env spins n \<and>
     preempts_of d' = apic_plus d m"
  using assms
proof (induction "n - spins" arbitrary: spins d last_apic)
  case (0 spins d last_apic)
  then have sp: "spins = n" by simp
  obtain d' where "ticked api d d'" "preempts_of d' = apic_plus d (length (lapic_frames (env n)))"
     "watch_loop api env arrive n last_apic base d = Inr (True, d')"
    using watch_iteration[OF "0.prems"(1-3), of env n arrive] "0.prems"(6,7) unfolding sp by auto
  then show ?case unfolding sp by (intro exI[of _ d'] exI[of _ "length (lapic_frames (env n))"]) simp
next
  case (Suc k spins d last_apic)
  then have sp: "k = n - Suc spins" "spins < n" by simp_all
  note c = lapic_count_step[of spins n env, OF less_imp_le[OF sp(2)]]
  let ?l = "length (lapic_frames (env spins))"
  obtain d' la where d': "ticked api d d'" "waiting api d'" "preempts_of d' = apic_plus d ?l"
     "unat (APIC_TICKS (preempts_of d')) = unat (APIC_TICKS (preempts_of d)) + ?l" "unat la \<le> unat (APIC_TICKS (preempts_of d)) + ?l"
     "watch_loop api env arrive spins last_apic base d =
       (if 100 \<le> unat (APIC_TICKS (preempts_of d)) + ?l - unat base then Inr (True, d')
        else if SOAK_SPIN_GUARD < spins + 1 then obind (rollback_to_pit api arrive d') (\<lambda>d. Inr (False, d))
        else watch_loop api env arrive (spins + 1) la base d')"
    using watch_iteration[OF Suc.prems(1-3), of env spins arrive] Suc.prems(6) c by (auto simp del: obind_simps)
  show ?case
  proof (cases "100 \<le> unat (APIC_TICKS (preempts_of d)) + ?l - unat base")
    case True
    then show ?thesis using d'(1,3,6) c by (intro exI[of _ d'] exI[of _ ?l]) simp
  next
    case False
    have "\<exists>e m. watch_loop api env arrive (Suc spins) la base d' = Inr (True, e) \<and> ticked api d' e \<and> m \<le> lapic_count env (Suc spins) n \<and>
        preempts_of e = apic_plus d' m"
      using sp Suc.prems(2,5-7) d'(4,5) c by (intro Suc.hyps(1)[OF sp(1) d'(2)]) simp_all
    then obtain e m where e: "watch_loop api env arrive (Suc spins) la base d' = Inr (True, e)" "ticked api d' e"
        "m \<le> lapic_count env (Suc spins) n" "preempts_of e = apic_plus d' m"
      by (elim exE conjE)
    have "\<not> SOAK_SPIN_GUARD < spins + 1" using sp(2) Suc.prems(5) by simp
    then have "watch_loop api env arrive spins last_apic base d = Inr (True, e)" using d'(6) False e(1) by simp
    then show ?thesis
      using ticked_trans[OF d'(1) e(2)] e(3,4) d'(3) c
      by (intro exI[of _ e] exI[of _ "?l + m"]) (simp add: algebra_simps)
  qed
qed

lemma watch_stalls:
  assumes "waiting api d" "unat (APIC_TICKS (preempts_of d)) + 20 < 2 ^ 64" "\<And>i. lapic_frames (env i) = []" "spins \<le> SOAK_SPIN_GUARD"
    and "unat last_apic \<le> unat (APIC_TICKS (preempts_of d))"
  shows "\<exists>d'. ticked api d d' \<and> waiting api d' \<and> preempts_of d' = preempts_of d \<and>
     watch_loop api env arrive spins last_apic (APIC_TICKS (preempts_of d)) d = obind (rollback_to_pit api arrive d') (\<lambda>d. Inr (False, d))"
  using assms(1,2,4,5)
proof (induction "SOAK_SPIN_GUARD - spins" arbitrary: spins d last_apic)
  case (0 spins d last_apic)
  then have "SOAK_SPIN_GUARD < spins + 1" by simp
  then show ?case
    using watch_iteration[OF "0.prems"(1) le_refl "0.prems"(4), of env spins arrive] "0.prems"(2) assms(3) by auto
next
  case (Suc k spins d last_apic)
  then have sp: "k = SOAK_SPIN_GUARD - Suc spins" "Suc spins \<le> SOAK_SPIN_GUARD" by simp_all
  obtain d' la where d': "ticked api d d'" "waiting api d'" "preempts_of d' = preempts_of d" "unat la \<le> unat (APIC_TICKS (preempts_of d))"
     "watch_loop api env arrive spins last_apic (APIC_TICKS (preempts_of d)) d =
        watch_loop api env arrive (Suc spins) la (APIC_TICKS (preempts_of d)) d'"
    using watch_iteration[OF Suc.prems(1) le_refl Suc.prems(4), of env spins arrive] Suc.prems(2) assms(3)[of spins] sp(2) by auto
  have "\<exists>e. ticked api d' e \<and> waiting api e \<and> preempts_of e = preempts_of d' \<and>
     watch_loop api env arrive (Suc spins) la (APIC_TICKS (preempts_of d')) d' = obind (rollback_to_pit api arrive e) (\<lambda>d. Inr (False, d))"
    using Suc.prems(2) sp d' by (intro Suc.hyps(1)) simp_all
  then obtain e where "ticked api d' e" "waiting api e" "preempts_of e = preempts_of d'"
     "watch_loop api env arrive (Suc spins) la (APIC_TICKS (preempts_of d')) d' = obind (rollback_to_pit api arrive e) (\<lambda>d. Inr (False, d))"
    by (elim exE conjE)
  then show ?case using ticked_trans[OF d'(1)] d'(3,5) by (intro exI[of _ e]) simp
qed

section \<open>A healthy calibration\<close>

text \<open>A loop that reads faster than the PIT ticks, while the timer of the local APIC is masked.\<close>

definition steady :: "(nat \<Rightarrow> moment) \<Rightarrow> bool" where
  "steady env \<longleftrightarrow> (\<forall>i. pit_ticks (env i) \<le> 1 \<and> lapic_frames (env i) = [])"

lemma calib_wait_exact:
  assumes "pic_laws api" "steady env" "\<not> PICS_taken d" "irq0_open api d" "unat (TIMER_TICKS d - start) < 10"
    "calib_wait api env start spins d = Inr (Inr (), d')"
  shows "TIMER_TICKS d' = start + 10 \<and> preempts_of d' = preempts_of d"
  using assms
proof (induction api env start spins d arbitrary: d' rule: calib_wait.induct)
  case (1 api env start spins d)
  have st: "pit_ticks (env spins) \<le> 1" "lapic_frames (env spins) = []" using "1.prems"(2) by (simp_all add: steady_def)
  obtain e where e: "elapse api (env spins) d = Inr e" "ticked api d e" "TIMER_TICKS e = TIMER_TICKS d + of_nat (pit_ticks (env spins))"
      "preempts_of e = preempts_of d"
    using elapse_spec[OF "1.prems"(1,3), of "env spins"] "1.prems"(4) st(2) by auto
  have up: "unat (TIMER_TICKS e - start) = unat (TIMER_TICKS d - start) + pit_ticks (env spins)"
  proof -
    have "TIMER_TICKS e - start = (TIMER_TICKS d - start) + of_nat (pit_ticks (env spins))" by (simp add: e(3))
    then show ?thesis using "1.prems"(5) st(1) by (simp only:) (intro unat_plus, simp)
  qed
  show ?case
  proof (cases "10 \<le> TIMER_TICKS e - start")
    case True
    then have "unat (TIMER_TICKS e - start) = 10" using up "1.prems"(5) st(1) by (simp add: word_le_nat_alt)
    then have "TIMER_TICKS e - start = 10" by (simp add: word_unat_eq_iff)
    then have "TIMER_TICKS e = start + 10" by (simp add: algebra_simps)
    moreover have "d' = e" using "1.prems"(6) e(1) True by (simp add: calib_wait.simps[of api env start spins d])
    ultimately show ?thesis using e(4) by simp
  next
    case False
    have g: "\<not> SPIN_GUARD < spins + 1" and w: "calib_wait api env start (spins + 1) e = Inr (Inr (), d')"
      using "1.prems"(6) e(1) False by (simp_all add: calib_wait.simps[of api env start spins d] split: if_splits)
    have "unat (TIMER_TICKS e - start) < 10" using False by (simp add: word_le_nat_alt)
    moreover have "irq0_open api e" using ticked_open[OF e(2)] "1.prems"(4) by simp
    ultimately show ?thesis
      using "1.IH"[OF e(1) _ g "1.prems"(1,2) ticked_free[OF e(2)] _ _ w] False e(4) by simp
  qed
qed

lemma question_mark: "obind m (\<lambda>(r, d). case r of Inl e \<Rightarrow> Inr (Inl e, d) | Inr x \<Rightarrow> f x d) = Inr (Inr y, d') \<longleftrightarrow>
    (\<exists>x d. m = Inr (Inr x, d) \<and> f x d = Inr (Inr y, d'))"
  by (cases m) (auto split: sum.splits prod.splits)

lemma calib_rounds_exact:
  assumes "pic_laws api" "window_mapped win" "\<not> PICS_taken d" "irq0_open api d" "\<forall>w\<in>set ws. steady (spin_env w)"
    "calib_rounds api win ws d = Inr (Inr ds, d')"
  shows "TIMER_TICKS d' = TIMER_TICKS d + 10 * of_nat (length ws) \<and> preempts_of d' = preempts_of d"
  using assms(3-6)
proof (induction ws arbitrary: d ds)
  case (Cons w ws)
  let ?d = "mmio_write (win + ICR_OFFSET) 0xFFFFFFFF d"
  obtain e ds' where e: "calib_wait api (spin_env w) (TIMER_TICKS d) 0 ?d = Inr (Inr (), e)"
      "calib_rounds api win ws e = Inr (Inr ds', d')"
    using Cons.prems(4) by (auto simp: regs_ok[OF assms(2)] question_mark Let_def split: if_splits)
  obtain e' where "ticked api ?d e'" "\<exists>r. calib_wait api (spin_env w) (TIMER_TICKS d) 0 ?d = Inr (r, e')"
    using calib_wait_spec[OF assms(1), of ?d 0 "spin_env w" "TIMER_TICKS d"] Cons.prems(1) by auto
  then have te: "ticked api ?d e" using e(1) by auto
  have "TIMER_TICKS e = TIMER_TICKS d + 10 \<and> preempts_of e = preempts_of ?d"
    by (rule calib_wait_exact[OF assms(1) _ _ _ _ e(1)]) (use Cons.prems in simp_all)
  moreover have "TIMER_TICKS d' = TIMER_TICKS e + 10 * of_nat (length ws) \<and> preempts_of d' = preempts_of e"
    using Cons.IH[OF ticked_free[OF te] _ _ e(2)] ticked_open[OF te] Cons.prems(2,3) by simp
  ultimately show ?case by (simp add: algebra_simps)
qed simp

lemma calibrate_exact:
  assumes "pic_laws api" "window_mapped (LAPIC_VIRT d)" "\<not> PICS_taken d" "irq0_open api d"
    and "\<forall>i<3. round_ok (w i) \<and> steady (spin_env (w i))" "10 \<le> middle_delta w"
  shows "\<exists>q d'. calibrate api w d = Inr (Inr q, d') \<and> q \<noteq> 0 \<and> unat q < 2 ^ 32 \<and> ticked api (d\<lparr>TICKS_PER_10MS := q\<rparr>) d' \<and>
     TIMER_TICKS d' = TIMER_TICKS d + 30 \<and> preempts_of d' = preempts_of d"
proof -
  obtain q d' where q: "calibrate api w d = Inr (Inr q, d')" "unat q = middle_delta w div 10" "ticked api (d\<lparr>TICKS_PER_10MS := q\<rparr>) d'"
    using calibrate_spec[OF assms(1-3), of w] assms(4-6) by auto
  have nz: "q \<noteq> 0" using q(2) assms(6) by auto
  have "unat (delta_of (w i)) < 2 ^ 32" for i using unsigned_less[of "delta_of (w i)"] by simp
  then have small: "unat q < 2 ^ 32"
    unfolding q(2) using middle_between[of 0 "unat (delta_of (w 0))" "2 ^ 32 - 1" "unat (delta_of (w 1))" "unat (delta_of (w 2))"]
    by (simp add: less_Suc_eq_le[symmetric] del: sort_key_simps)
  let ?d = "mmio_write (LAPIC_VIRT d + DCR_OFFSET) 0x3 d"
  obtain ds e where e: "calib_rounds api (LAPIC_VIRT d) (map w [0..<3]) ?d = Inr (Inr ds, e)" "d' = e\<lparr>TICKS_PER_10MS := q\<rparr>"
    using q(1) assms(2)
    by (simp add: calibrate_def regs_ok[OF assms(2)] CALIB_ROUNDS_def question_mark Let_def split: if_splits)
      (auto simp: obind_eq_Inr Let_def split: if_splits)
  have "TIMER_TICKS e = TIMER_TICKS ?d + 10 * of_nat (length (map w [0..<3])) \<and> preempts_of e = preempts_of ?d"
    by (rule calib_rounds_exact[OF assms(1,2) _ _ _ e(1)]) (use assms(3-5) in auto)
  then show ?thesis using q(1,3) nz small e(2) by (intro exI[of _ q] exI[of _ d']) simp
qed

lemma start_periodic_ok:
  assumes "window_mapped (LAPIC_VIRT d)" "TICKS_PER_10MS d \<noteq> 0" "unat (TICKS_PER_10MS d) < 2 ^ 32"
  shows "start_periodic d = Inr (Inr (TICKS_PER_10MS d), mmio_write (LAPIC_VIRT d + ICR_OFFSET) (ucast (TICKS_PER_10MS d))
     (mmio_write (LAPIC_VIRT d + LVT_TIMER_OFFSET) (0xEF OR push_bit 17 1) d))"
proof -
  have "LAPIC_VIRT d \<noteq> 0" using assms(1) by (simp add: window_mapped_def)
  moreover have "unat (ucast (- 1 :: u32) :: u64) = 2 ^ 32 - 1" by (simp add: unsigned_ucast_eq take_bit_nat_eq_self unat_max_word)
  then have "\<not> ucast (- 1 :: u32) < TICKS_PER_10MS d" using assms(3) by (simp add: word_less_nat_alt)
  ultimately show ?thesis using assms(2) by (simp add: start_periodic_def regs_ok[OF assms(1)] ticks_per_10ms_def Let_def)
qed

section \<open>A healthy boot\<close>

abbreviation heap_pages :: "u64 \<Rightarrow> u64 list" where
  "heap_pages heap_size \<equiv> page_range HEAP_START ((HEAP_START + heap_size - 1) AND NOT 0xFFF)"

text \<open>
  The machine the kernel is made for: crates that keep their documentation, a bootloader that maps physical memory where it is asked to, a sound memory map with room for the heap and its
  page tables, the two fixed windows unused, and an enabled local APIC.
\<close>

definition sound_machine :: "'a FrameAlloc \<Rightarrow> ('m, 'a, 'p, 'g) crates \<Rightarrow> ('m, 'p) hardware \<Rightarrow> u64 \<Rightarrow> bool" where
  "sound_machine fa c hw heap_size \<longleftrightarrow>
     pic_laws (c_pic c) \<and> paging_laws (fa_allocate fa) (c_paging c) \<and> df_stack_ok (hw_df_stack hw) \<and> hw_stub hw \<noteq> 0 \<and>
     present (probe (hw_cpuid_edx hw) (hw_rdmsr hw) (hw_rsdp hw)) \<and> enabled (probe (hw_cpuid_edx hw) (hw_rdmsr hw) (hw_rsdp hw)) \<and>
     hw_phys_offset hw = BOOTLOADER_CONFIG \<and> phys_map (hw_regions hw) \<and> length (hw_regions hw) < 2 ^ 63 \<and>
     unat (hw_cr3 hw) < 2 ^ 47 \<and> heap_size \<noteq> 0 \<and> unat heap_size \<le> 2 ^ 40 \<and> 4 * length (heap_pages heap_size) + 3 \<le> length (map_frames (hw_regions hw)) \<and>
     (\<forall>p\<in>insert MMIO_WINDOW (set (heap_pages heap_size)). translate (c_paging c) (boot_tables (hw_tables hw) (hw_cr3 hw)) p = None)"

text \<open>Three calibration windows with ten PIT ticks and a running counter each.\<close>

definition calibrates :: "(nat \<Rightarrow> window) \<Rightarrow> bool" where
  "calibrates w \<longleftrightarrow> (\<forall>i<3. round_ok (w i) \<and> steady (spin_env (w i))) \<and> 10 \<le> middle_delta w"

text \<open>
  A soak in which both clocks reach the gate before the local APIC is given up, a watch in which it reaches the gate again; \<open>t\<close> ticks
  of the PIT have been used up before the soak, thirty of them by the calibration.
\<close>

definition dual_life :: "nat \<Rightarrow> (nat \<Rightarrow> moment) \<Rightarrow> bool" where
  "dual_life t env \<longleftrightarrow> (\<exists>n\<le>SOAK_SPIN_GUARD. 100 \<le> t + arrived env 0 (2 * n) \<and> 100 \<le> lapic_count env 0 (2 * n + 1) \<and>
     (\<forall>m<n. undecided (t + arrived env 0 (2 * m)) (lapic_count env 0 (2 * m + 1))) \<and>
     arrived env 0 (2 * n + 1) < 2 ^ 32 \<and> lapic_count env 0 (2 * n + 1) < 2 ^ 32)"

definition keeps_ticking :: "(nat \<Rightarrow> moment) \<Rightarrow> bool" where
  "keeps_ticking env \<longleftrightarrow> (\<exists>n\<le>SOAK_SPIN_GUARD. 100 \<le> lapic_count env 0 n \<and> lapic_count env 0 n < 2 ^ 32)"

text \<open>Before \<open>start_periodic\<close> the timer of the local APIC is masked and only the PIT interrupts.\<close>

definition early_quiet :: "(nat \<Rightarrow> moment) \<Rightarrow> bool" where
  "early_quiet env \<longleftrightarrow> (\<forall>i<4. lapic_frames (env i) = []) \<and> arrived env 0 3 < 2 ^ 32"

definition clocks_live :: "('m, 'p) hardware \<Rightarrow> bool" where
  "clocks_live hw \<longleftrightarrow> early_quiet (hw_boot hw) \<and> calibrates (hw_windows hw) \<and> dual_life (30 + arrived (hw_boot hw) 0 3) (hw_soak hw) \<and>
     keeps_ticking (hw_watch hw) \<and> pit_ticks (hw_gate hw) < 2 ^ 32 \<and> length (lapic_frames (hw_gate hw)) < 2 ^ 32 \<and>
     length (lapic_frames (hw_settle hw)) < 2 ^ 32 \<and> idle_ticks (hw_spawns hw) 5 < 2 ^ 32"

lemma mmio_not_in_heap: "heap_size \<noteq> 0 \<Longrightarrow> unat heap_size \<le> 2 ^ 40 \<Longrightarrow> MMIO_WINDOW \<notin> set (heap_pages heap_size)"
proof
  assume h: "heap_size \<noteq> 0" "unat heap_size \<le> 2 ^ 40" and "MMIO_WINDOW \<in> set (heap_pages heap_size)"
  let ?q = "(HEAP_START + heap_size - 1) AND NOT 0xFFF"
  obtain i where i: "i \<le> unat ?q div 4096" "MMIO_WINDOW = of_nat (4096 * i)" "4096 * i < 2 ^ 64"
  proof -
    from \<open>MMIO_WINDOW \<in> _\<close> obtain i where i: "i \<in> set [unat HEAP_START div 4096 ..< unat ?q div 4096 + 1]" "MMIO_WINDOW = of_nat (4096 * i)"
      unfolding page_range_def set_map by (elim imageE)
    then have "i \<le> unat ?q div 4096" by (simp only: set_upt atLeastLessThan_iff) linarith
    then show thesis using that[OF _ i(2) page_range_bound[OF i(1)]] by simp
  qed
  have "unat MMIO_WINDOW = 4096 * i" unfolding i(2) using i(3) by (subst unat_of_nat) simp
  also have "\<dots> \<le> unat ?q" using i(1) by (simp add: less_eq_div_iff_mult_less_eq mult.commute)
  also have "\<dots> \<le> unat (HEAP_START + heap_size - 1)" by (simp add: word_le_nat_alt[symmetric] word_and_le2)
  also have "\<dots> \<le> unat HEAP_START + 2 ^ 40"
  proof -
    have "unat (HEAP_START + heap_size) = unat HEAP_START + unat heap_size"
      using h(2) by (intro unat_add_no_overflow) (simp add: HEAP_START_def)
    then show ?thesis using h by (subst unat_sub) (simp_all add: word_le_nat_alt HEAP_START_def)
  qed
  finally show False by (simp add: MMIO_WINDOW_def HEAP_START_def)
qed

lemma interrupt_tests_ok:
  shows "take_interrupt api f 3 d = Inr d"
    and "SYSCALL_HITS d = 0 \<Longrightarrow> syscall_self_test api f d = Inr (d\<lparr>SYSCALL_HITS := 2\<rparr>)"
proof -
  have g: "gate_for 3 = Breakpoint" "gate_for 0x80 = Syscall_stub" using gate_for_simps(3) by (simp_all add: SYSCALL_VECTOR_def gate_for_def IDT_def vector_defs)
  have "add_op (0 :: u64) 1 = Inr 1" "add_op (1 :: u64) 1 = Inr 2" by (simp_all add: rust_arith)
  then show "take_interrupt api f 3 d = Inr d" "SYSCALL_HITS d = 0 \<Longrightarrow> syscall_self_test api f d = Inr (d\<lparr>SYSCALL_HITS := 2\<rparr>)"
    by (simp_all add: syscall_self_test_def take_interrupt_def g syscall_stub_handler_def Let_def)
qed

lemma quiet_moment:
  assumes "waiting api d" "irq0_open api d" "lapic_frames mo = []"
  shows "\<exists>d'. elapse api mo d = Inr d' \<and> ticked api d d' \<and> waiting api d' \<and> irq0_open api d' \<and> preempts_of d' = preempts_of d \<and>
     TIMER_TICKS d' = TIMER_TICKS d + of_nat (pit_ticks mo)"
  using elapse_waiting[OF assms(1), of mo] ticked_open assms(2,3) by fastforce

text \<open>From the enabling of interrupts on.\<close>

lemma clocks_start:
  fixes d :: "'p devices"
  assumes w: "waiting api d" "irq0_open api d" and cal: "calibrates w" "early_quiet env"
    and d: "SYSCALL_HITS d = 0" "LAPIC_VIRT d = MMIO_WINDOW"
  shows "\<exists>q d0 e0 e1 e2 e3 e'. elapse api (env 0) d = Inr d0 \<and> calibrate api w d0 = Inr (Inr q, e0) \<and> elapse api (env 1) e0 = Inr e1 \<and>
     elapse api (env 2) e1 = Inr e2 \<and> SYSCALL_HITS e2 = 0 \<and> elapse api (env 3) (e2\<lparr>SYSCALL_HITS := 2\<rparr>) = Inr e3 \<and> start_periodic e3 = Inr (Inr q, e') \<and>
     waiting api e' \<and> irq0_open api e' \<and> TIMER_TICKS e' = TIMER_TICKS d + of_nat (30 + arrived env 0 3) \<and> preempts_of e' = preempts_of d \<and>
     LAPIC_VIRT e' = MMIO_WINDOW \<and> TICKS_PER_10MS e' \<noteq> 0"
proof -
  have quiet: "lapic_frames (env i) = []" if "i < 4" for i using cal(2) that by (simp add: early_quiet_def)
  obtain d0 where d0: "elapse api (env 0) d = Inr d0" "ticked api d d0" "waiting api d0" "irq0_open api d0" "preempts_of d0 = preempts_of d"
      "TIMER_TICKS d0 = TIMER_TICKS d + of_nat (pit_ticks (env 0))"
    using quiet_moment[OF w quiet[of 0]] by auto
  have m0: "pic_laws api" "window_mapped (LAPIC_VIRT d0)" "\<not> PICS_taken d0"
    using d0(2,3) mmio_window_facts(3) d(2) by (simp_all add: ticked_def waiting_def)
  obtain q e0 where e0: "calibrate api w d0 = Inr (Inr q, e0)" "q \<noteq> 0" "unat q < 2 ^ 32" "ticked api (d0\<lparr>TICKS_PER_10MS := q\<rparr>) e0"
      "TIMER_TICKS e0 = TIMER_TICKS d0 + 30" "preempts_of e0 = preempts_of d0"
    using calibrate_exact[OF m0 d0(4), of w] cal(1) by (auto simp: calibrates_def simp del: sort_key_simps)
  have t0: "LAPIC_VIRT e0 = MMIO_WINDOW" "TICKS_PER_10MS e0 = q" "SYSCALL_HITS e0 = 0" "waiting api e0" "irq0_open api e0"
    using e0(4,6) d0(2-4) d ticked_open[OF e0(4)] by (simp_all add: ticked_def waiting_def irq0_open_def)
  obtain e1 where e1: "elapse api (env 1) e0 = Inr e1" "ticked api e0 e1" "waiting api e1" "irq0_open api e1" "preempts_of e1 = preempts_of e0"
      "TIMER_TICKS e1 = TIMER_TICKS e0 + of_nat (pit_ticks (env 1))"
    using quiet_moment[OF t0(4,5) quiet[of 1]] by auto
  obtain e2 where e2: "elapse api (env 2) e1 = Inr e2" "ticked api e1 e2" "waiting api e2" "irq0_open api e2" "preempts_of e2 = preempts_of e1"
      "TIMER_TICKS e2 = TIMER_TICKS e1 + of_nat (pit_ticks (env 2))"
    using quiet_moment[OF e1(3,4) quiet[of 2]] by auto
  define s where "s = e2\<lparr>SYSCALL_HITS := 2\<rparr>"
  have s: "waiting api s" "irq0_open api s" "LAPIC_VIRT s = MMIO_WINDOW" "TICKS_PER_10MS s = q" "preempts_of s = preempts_of d" "TIMER_TICKS s = TIMER_TICKS e2"
    using e2(2-5) e1(2,5) t0(1,2) e0(6) d0(5) by (simp_all add: s_def waiting_def irq0_open_def ticked_def)
  obtain e3 where e3: "elapse api (env 3) s = Inr e3" "ticked api s e3" "waiting api e3" "irq0_open api e3" "preempts_of e3 = preempts_of s"
      "TIMER_TICKS e3 = TIMER_TICKS s + of_nat (pit_ticks (env 3))"
    using quiet_moment[OF s(1,2) quiet[of 3]] by auto
  have m3: "LAPIC_VIRT e3 = MMIO_WINDOW" "TICKS_PER_10MS e3 = q" using e3(2) s(3,4) by (simp_all add: ticked_def)
  let ?e = "mmio_write (MMIO_WINDOW + ICR_OFFSET) (ucast q) (mmio_write (MMIO_WINDOW + LVT_TIMER_OFFSET) (0xEF OR push_bit 17 1) e3)"
  have per: "start_periodic e3 = Inr (Inr q, ?e)" using start_periodic_ok[of e3] m3 e0(2,3) mmio_window_facts(3) by simp
  have sum: "arrived env 0 3 = pit_ticks (env 0) + pit_ticks (env 1) + pit_ticks (env 2) + pit_ticks (env 3)"
    by (simp add: arrived_def numeral_3_eq_3 numeral_2_eq_2)
  have "TIMER_TICKS ?e = TIMER_TICKS d + of_nat (30 + arrived env 0 3)"
    using d0(6) e0(5) e1(6) e2(6) e3(6) s(6) by (simp add: mmio_write_def sum)
  moreover have "waiting api ?e" "irq0_open api ?e" "preempts_of ?e = preempts_of d" "LAPIC_VIRT ?e = MMIO_WINDOW" "TICKS_PER_10MS ?e \<noteq> 0"
    using e3(3-5) s(5) m3 e0(2) by (simp_all add: mmio_write_def waiting_def irq0_open_def)
  moreover have "SYSCALL_HITS e2 = 0" using t0(3) e1(2) e2(2) by (simp add: ticked_def)
  ultimately show ?thesis using d0(1) e0(1) e1(1) e2(1) e3(1) per unfolding s_def by blast
qed

lemma timer_init_waiting:
  fixes d :: "'p devices" and api
  defines "d1 \<equiv> d\<lparr>port_writes := port_writes d @ [(PIT_CMD, 0x36), (PIT_CH0, 0x9B), (PIT_CH0, 0x2E)],
     PICS := write_masks api (PICS d) (fst (read_masks api (PICS d)) AND NOT 1) (snd (read_masks api (PICS d))), PICS_taken := False, if_flag := True\<rparr>"
  assumes "pic_laws api" "PREEMPTIBLE (preempts_of d) = 0"
  shows "waiting api d1" "irq0_open api d1" "preempts_of d1 = preempts_of d" "TIMER_TICKS d1 = TIMER_TICKS d"
    "SYSCALL_HITS d1 = SYSCALL_HITS d" "LAPIC_VIRT d1 = LAPIC_VIRT d"
proof -
  have "fst (read_masks api (PICS d1)) = fst (read_masks api (PICS d)) AND NOT 1" using assms(2) by (simp add: d1_def pic_laws_def)
  then show "irq0_open api d1" by (simp add: irq0_open_def bit_and_iff) (simp add: d1_def)
qed (use assms in \<open>simp_all add: waiting_def d1_def\<close>)

context memory_policy
begin

lemma memory_and_apic_up:
  assumes sound: "sound_machine fa c hw heap_size"
  shows "\<exists>m s bytes n m' s'. memory_init fa (c_paging c) (hw_tables hw) (hw_cr3 hw) heap_size on (Some PHYS_MEM_OFFSET) (hw_regions hw) = Inr (m, s, bytes, n) \<and>
     apic_init (c_paging c) (hw_lapic hw) m s (probe (hw_cpuid_edx hw) (hw_rdmsr hw) (hw_rsdp hw)) d = Inr (Inr (), m', s', apic_up (hw_lapic hw) d)"
proof -
  let ?pr = "probe (hw_cpuid_edx hw) (hw_rdmsr hw) (hw_rsdp hw)" and ?m = "boot_tables (hw_tables hw) (hw_cr3 hw)"
  have laws: "paging_laws (fa_allocate fa) (c_paging c)" and pr: "present ?pr" "enabled ?pr"
    and map: "phys_map (hw_regions hw)" "length (hw_regions hw) < 2 ^ 63" and cr3: "unat (hw_cr3 hw) < 2 ^ 47"
    and heap: "heap_size \<noteq> 0" "unat heap_size \<le> 2 ^ 40" and room: "4 * length (heap_pages heap_size) + 3 \<le> length (map_frames (hw_regions hw))"
    and free: "\<forall>p\<in>set (heap_pages heap_size). translate (c_paging c) ?m p = None" "translate (c_paging c) ?m MMIO_WINDOW = None"
    using sound unfolding sound_machine_def by simp_all
  have "4 * length (heap_pages heap_size) < length (map_frames (hw_regions hw))" using room by simp
  then obtain m s bytes n fs where mem: "memory_init fa (c_paging c) (hw_tables hw) (hw_cr3 hw) heap_size on (Some PHYS_MEM_OFFSET) (hw_regions hw) = Inr (m, s, bytes, n)"
      "live s" "length (map_frames (hw_regions hw)) \<le> size (avail s) + 4 * length (heap_pages heap_size)"
      "translate (c_paging c) m = (translate (c_paging c) ?m) (heap_pages heap_size [\<mapsto>] map (\<lambda>f. (f, {PRESENT, WRITABLE, NO_EXECUTE})) fs)"
    using memory_init_spec[where tables = "hw_tables hw", OF laws map heap cr3 _ free(1), of on] by (elim meta_impE exE conjE)
  have window: "translate (c_paging c) m MMIO_WINDOW = None" "3 \<le> size (avail s)"
    using mem(3,4) free(2) room mmio_not_in_heap[OF heap] by (simp_all add: map_upds_apply_nontin)
  from mem(2) laws probe_base(1,2) show ?thesis
  proof (cases rule: later.apic_init_cases[where pr = ?pr and m = m and rd = "hw_lapic hw" and d = d])
    case (up m' s')
    then show ?thesis using mem(1) by blast
  next
    case (refused e m' s')
    then show ?thesis using pr window by simp
  qed
qed

lemma bring_up_ok:
  assumes sound: "sound_machine fa c hw heap_size" and cal: "calibrates (hw_windows hw)" "early_quiet (hw_boot hw)"
  shows "\<exists>d. bring_up fa c hw heap_size on = Inr d \<and> waiting (c_pic c) d \<and> irq0_open (c_pic c) d \<and>
     TIMER_TICKS d = of_nat (30 + arrived (hw_boot hw) 0 3) \<and>
     preempts_of d = statics_boot\<lparr>EOI_BASE := MMIO_WINDOW + EOI_OFFSET\<rparr> \<and> LAPIC_VIRT d = MMIO_WINDOW \<and> TICKS_PER_10MS d \<noteq> 0"
proof -
  let ?pic = "c_pic c" and ?pr = "probe (hw_cpuid_edx hw) (hw_rdmsr hw) (hw_rsdp hw)"
  have laws: "pic_laws ?pic" and df: "df_stack_ok (hw_df_stack hw)" and pr: "present ?pr" and off: "hw_phys_offset hw = Some PHYS_MEM_OFFSET"
    using sound unfolding sound_machine_def BOOTLOADER_CONFIG_def by simp_all
  define d0 where "d0 = (devices_boot (hw_pics hw))\<lparr>port_writes := serial_init [],
     PICS := write_masks ?pic (pic_initialize ?pic (hw_pics hw)) 0xFF 0xFF\<rparr>"
  have d0: "\<not> PICS_taken d0" "\<not> if_flag d0" "TIMER_TICKS d0 = 0" "SYSCALL_HITS d0 = 0" "preempts_of d0 = statics_boot"
    by (simp_all add: d0_def devices_boot_def)
  obtain seg tss where gdt: "gdt_init (c_gdt c) (hw_df_stack hw) (hw_tss hw) TSS = Inr (seg, tss)"
    using gdt_init_ok[OF df] by blast
  have ints: "interrupts_init ?pic ((devices_boot (hw_pics hw))\<lparr>if_flag := False, port_writes := serial_init []\<rparr>) = Inr d0"
    by (simp add: interrupts_init_def with_pics_free devices_boot_def d0_def)
  let ?d2 = "apic_up (hw_lapic hw) d0"
  obtain m s bytes n m' s' where mem: "memory_init fa (c_paging c) (hw_tables hw) (hw_cr3 hw) heap_size on (Some PHYS_MEM_OFFSET) (hw_regions hw) = Inr (m, s, bytes, n)"
      "apic_init (c_paging c) (hw_lapic hw) m s ?pr d0 = Inr (Inr (), m', s', ?d2)"
    using memory_and_apic_up[OF sound, of on d0] by (elim exE conjE)
  have d2: "\<not> PICS_taken ?d2" "\<not> if_flag ?d2" "SYSCALL_HITS ?d2 = 0" "LAPIC_VIRT ?d2 = MMIO_WINDOW" "TIMER_TICKS ?d2 = 0"
      "preempts_of ?d2 = statics_boot\<lparr>EOI_BASE := MMIO_WINDOW + EOI_OFFSET\<rparr>" "PREEMPTIBLE (preempts_of ?d2) = 0"
    using d0 by (simp_all add: apic_up_def set_eoi_base_def statics_boot_def)
  define d3 where "d3 = ?d2\<lparr>port_writes := port_writes ?d2 @ [(PIT_CMD, 0x36), (PIT_CH0, 0x9B), (PIT_CH0, 0x2E)],
      PICS := write_masks ?pic (PICS ?d2) (fst (read_masks ?pic (PICS ?d2)) AND NOT 1) (snd (read_masks ?pic (PICS ?d2))), PICS_taken := False, if_flag := True\<rparr>"
  note d3 = timer_init_waiting[OF laws d2(7), folded d3_def]
  have z3: "SYSCALL_HITS d3 = 0" "LAPIC_VIRT d3 = MMIO_WINDOW" using d3(5,6) d2(3,4) by simp_all
  obtain q e e0 e1 e2 e3 e' where up: "elapse ?pic (hw_boot hw 0) d3 = Inr e" "calibrate ?pic (hw_windows hw) e = Inr (Inr q, e0)"
      "elapse ?pic (hw_boot hw 1) e0 = Inr e1" "elapse ?pic (hw_boot hw 2) e1 = Inr e2" "SYSCALL_HITS e2 = 0"
      "elapse ?pic (hw_boot hw 3) (e2\<lparr>SYSCALL_HITS := 2\<rparr>) = Inr e3" "start_periodic e3 = Inr (Inr q, e')"
      "waiting ?pic e'" "irq0_open ?pic e'" "TIMER_TICKS e' = TIMER_TICKS d3 + of_nat (30 + arrived (hw_boot hw) 0 3)" "preempts_of e' = preempts_of d3"
      "LAPIC_VIRT e' = MMIO_WINDOW" "TICKS_PER_10MS e' \<noteq> 0"
    using clocks_start[OF d3(1,2) cal z3] by (elim exE conjE)
  have boot: "port_writes ((devices_boot (hw_pics hw))\<lparr>if_flag := False\<rparr>) = []" by (simp add: devices_boot_def)
  have "bring_up fa c hw heap_size on = Inr e'"
    by (simp only: bring_up_def expect_def Let_def boot gdt ints pr off mem timer_init_spec[OF d2(1,2)] d3_def[symmetric] up(1-7)
        interrupt_tests_ok obind_simps prod.case sum.case assert_that_def if_True)
  then show ?thesis using up(8-13) d3(3,4) d2(5,6) by simp
qed

end

lemma arrived_mono: "arrived env 0 n \<le> arrived env 0 (n + 1)"
  by (simp add: arrived_def)

lemma promote_ok:
  assumes "waiting api d" "LAPIC_VIRT d \<noteq> 0" "TICKS_PER_10MS d \<noteq> 0"
  shows "\<exists>d'. promote api arrive d = Inr (Inr (), d') \<and> waiting api d' \<and> masks_changed api (\<lambda>(m0, m1). (m0 OR 0x01, m1)) d d' \<and>
     preempts_of d' = preempts_of d"
proof -
  have w: "pic_laws api" "\<not> PICS_taken d" using assms(1) by (simp_all add: waiting_def)
  obtain d' where d': "run_pic_ops api arrive 0 promote_ops (False, (0, 0), d) = Inr d'"
      "masks_changed api (\<lambda>(m0, m1). (m0 OR 0x01, m1)) d d'" "preempts_of d' = preempts_of d"
    using critical_section[OF w, of arrive "\<lambda>(m0, m1). (m0 OR 0x01, m1)"] unfolding promote_ops_def by (elim exE conjE)
  then show ?thesis
    using masks_changed_facts[OF w(1) d'(2)] assms by (intro exI[of _ d']) (simp add: promote_def ticks_per_10ms_def waiting_def)
qed

lemma handover_ok:
  assumes w: "waiting api d" "irq0_open api d" "unat (TIMER_TICKS d) = t" "APIC_TICKS (preempts_of d) = 0" "LAPIC_VIRT d \<noteq> 0" "TICKS_PER_10MS d \<noteq> 0"
    and dual: "dual_life t (hw_soak hw)" "t < 2 ^ 33" and gate: "pit_ticks (hw_gate hw) < 2 ^ 32" "length (lapic_frames (hw_gate hw)) < 2 ^ 32"
  shows "\<exists>d' a. clock_handover api hw d = Inr (None, d') \<and> waiting api d' \<and> a < 2 ^ 33 \<and> preempts_of d' = apic_plus d a"
proof -
  obtain n where n: "n \<le> SOAK_SPIN_GUARD" "100 \<le> t + arrived (hw_soak hw) 0 (2 * n)" "100 \<le> lapic_count (hw_soak hw) 0 (2 * n + 1)"
     "\<forall>m<n. undecided (t + arrived (hw_soak hw) 0 (2 * m)) (lapic_count (hw_soak hw) 0 (2 * m + 1))"
     "arrived (hw_soak hw) 0 (2 * n + 1) < 2 ^ 32" "lapic_count (hw_soak hw) 0 (2 * n + 1) < 2 ^ 32"
    using dual(1) unfolding dual_life_def by (elim exE conjE)
  let ?a = "lapic_count (hw_soak hw) 0 (2 * n + 1)"
  obtain d1 where d1: "soak_loop api (hw_soak hw) 0 0 0 d = Inr (Dual_life, d1)" "ticked api d d1" "waiting api d1"
     "preempts_of d1 = apic_plus d ?a" "unat (TIMER_TICKS d1) = t + arrived (hw_soak hw) 0 (2 * n + 1)"
    using soak_dual[OF w(1,2), of 0 n 0 0 "hw_soak hw"] w(3,4) n dual(2) by auto
  have open1: "irq0_open api d1" using ticked_open[OF d1(2)] w(2) by simp
  obtain d2 where d2: "elapse api (hw_gate hw) d1 = Inr d2" "ticked api d1 d2" "waiting api d2"
     "preempts_of d2 = apic_plus d1 (length (lapic_frames (hw_gate hw)))" "TIMER_TICKS d2 = TIMER_TICKS d1 + of_nat (pit_ticks (hw_gate hw))"
    using elapse_waiting[OF d1(3), of "hw_gate hw"] open1 by auto
  let ?b = "?a + length (lapic_frames (hw_gate hw))"
  have pre2: "preempts_of d2 = apic_plus d ?b" using d2(4) d1(4) by (simp add: algebra_simps)
  have "unat (APIC_TICKS (preempts_of d2)) = ?b"
    unfolding pre2 using w(4) n(6) gate(2) unat_plus[of 0 ?b] by simp
  moreover have "unat (TIMER_TICKS d2) = unat (TIMER_TICKS d1) + pit_ticks (hw_gate hw)"
    unfolding d2(5) using d1(5) n(5) gate(1) dual(2) by (intro unat_plus) simp
  ultimately have pass: "\<not> (TIMER_TICKS d2 < SOAK_TICKS_EACH \<or> APIC_TICKS (preempts_of d2) < SOAK_TICKS_EACH)"
    using n(2,3) d1(5) arrived_mono[of "hw_soak hw" "2 * n"] by (simp add: word_less_nat_alt SOAK_TICKS_EACH_def)
  have reg: "LAPIC_VIRT d2 \<noteq> 0" "TICKS_PER_10MS d2 \<noteq> 0" using d1(2) d2(2) w(5,6) by (simp_all add: ticked_def)
  obtain d3 where d3: "promote api (hw_promote hw) d2 = Inr (Inr (), d3)" "waiting api d3" "preempts_of d3 = preempts_of d2"
    using promote_ok[OF d2(3) reg, of "hw_promote hw"] by (elim exE conjE)
  have "clock_handover api hw d = Inr (None, d3)" using d1(1) d2(1) pass d3(1) by (simp add: clock_handover_def expect_def)
  then show ?thesis using d3(2,3) pre2 n(6) gate(2) by (intro exI[of _ d3] exI[of _ ?b]) simp
qed

lemma task_kernel_ok:
  assumes "if_flag d" "preempts_of d = statics_boot\<lparr>EOI_BASE := e, APIC_TICKS := a\<rparr>"
  shows "kernel_ok [] (task_kernel d)"
  using assms by (simp add: kernel_ok_def tables_ok_def driving_def task_kernel_def kernel_boot_def statics_boot_def table_ok_def)

lemma online_after_promotion:
  assumes S: "scheduler spawn once" and w: "waiting api d" "preempts_of d = statics_boot\<lparr>EOI_BASE := e, APIC_TICKS := of_nat a\<rparr>" "e \<noteq> 0" "a < 2 ^ 33"
    and hw: "hw_stub hw \<noteq> 0" "keeps_ticking (hw_watch hw)" "length (lapic_frames (hw_settle hw)) < 2 ^ 32" "idle_ticks (hw_spawns hw) 5 < 2 ^ 32"
    and pl: "places_ok places" and es: "\<forall>e\<in>set es. demo_event n places e" "36 \<le> length es" "n * length es < 2 ^ 32"
  shows "after_promotion spawn once sched_cfs places es api hw d = Inr ''sched: fair. Phase 3 online''"
proof -
  have a: "unat (APIC_TICKS (preempts_of d)) = a" using w(2,4) unat_plus[of 0 a] by simp
  obtain k where k: "k \<le> SOAK_SPIN_GUARD" "100 \<le> lapic_count (hw_watch hw) 0 k" "lapic_count (hw_watch hw) 0 k < 2 ^ 32"
    using hw(2) unfolding keeps_ticking_def by (elim exE conjE)
  obtain d2 m where d2: "watch api (hw_watch hw) (hw_rollback hw) d = Inr (True, d2)" "ticked api d d2" "m \<le> lapic_count (hw_watch hw) 0 k"
     "preempts_of d2 = apic_plus d m"
    using watch_proves[OF w(1) le_refl le_refl, of 0 k "hw_watch hw" "hw_rollback hw"] k a w(4) by (auto simp: watch_def Let_def)
  have w2: "waiting api d2" using w(1) d2(2,4) by (simp add: waiting_def ticked_def)
  let ?n = "a + m + length (lapic_frames (hw_settle hw))"
  obtain d3 where d3: "elapse api (hw_settle hw) d2 = Inr d3" "waiting api d3" "preempts_of d3 = apic_plus d2 (length (lapic_frames (hw_settle hw)))"
    using elapse_waiting[OF w2, of "hw_settle hw"] by (elim exE conjE)
  have pre3: "preempts_of d3 = statics_boot\<lparr>EOI_BASE := e, APIC_TICKS := of_nat ?n\<rparr>" using d3(3) d2(4) w(2) by simp
  have bound: "unat (APIC_TICKS (preempts_of d3)) = ?n" unfolding pre3 using w(4) d2(3) k(3) hw(3) unat_plus[of 0 ?n] by simp
  have fl: "if_flag d3" using d3(2) by (simp add: waiting_def)
  have "proof_block (hw_stub hw) d3 = Inr ()" using pre3 w(3) hw(1) by (simp add: proof_block_def statics_boot_def)
  moreover have "demo spawn once sched_cfs places (hw_spawns hw) es (task_kernel d3) = Inr ''sched: fair. Phase 3 online''"
    by (rule demo_online[OF S task_kernel_ok[OF fl pre3] _ _ pl es(1,2)])
      (use bound w(4) d2(3) k(3) hw(3,4) es(3) in \<open>simp_all add: task_kernel_def kernel_boot_def\<close>)
  ultimately show ?thesis using d2(1) d3(1) by (simp add: after_promotion_def)
qed

context memory_policy
begin

lemma main_online:
  assumes S: "scheduler spawn once" and sound: "sound_machine fa c hw heap_size" and live: "clocks_live hw"
    and pl: "places_ok places" and es: "\<forall>e\<in>set es. demo_event n places e" "36 \<le> length es" "n * length es < 2 ^ 32"
  shows "kernel_main fa spawn once sched_cfs places es c hw heap_size on = Inr ''sched: fair. Phase 3 online''"
proof -
  let ?pic = "c_pic c" and ?t = "30 + arrived (hw_boot hw) 0 3"
  have cl: "calibrates (hw_windows hw)" "early_quiet (hw_boot hw)" "dual_life ?t (hw_soak hw)" "keeps_ticking (hw_watch hw)"
      "pit_ticks (hw_gate hw) < 2 ^ 32" "length (lapic_frames (hw_gate hw)) < 2 ^ 32" "length (lapic_frames (hw_settle hw)) < 2 ^ 32" "idle_ticks (hw_spawns hw) 5 < 2 ^ 32"
    using live unfolding clocks_live_def by simp_all
  have t: "?t < 2 ^ 33" using cl(2) by (simp add: early_quiet_def)
  obtain d where d: "bring_up fa c hw heap_size on = Inr d" "waiting ?pic d" "irq0_open ?pic d" "TIMER_TICKS d = of_nat ?t"
     "preempts_of d = statics_boot\<lparr>EOI_BASE := MMIO_WINDOW + EOI_OFFSET\<rparr>" "LAPIC_VIRT d = MMIO_WINDOW" "TICKS_PER_10MS d \<noteq> 0"
    using bring_up_ok[OF sound cl(1,2), of on] by (elim exE conjE)
  have "unat (TIMER_TICKS d) = ?t" unfolding d(4) using t by (intro of_nat_inverse[OF refl]) simp
  moreover have "APIC_TICKS (preempts_of d) = 0" "LAPIC_VIRT d \<noteq> 0" using d(5,6) by (simp_all add: statics_boot_def MMIO_WINDOW_def)
  ultimately obtain d1 a where d1: "clock_handover ?pic hw d = Inr (None, d1)" "waiting ?pic d1" "a < 2 ^ 33" "preempts_of d1 = apic_plus d a"
    using handover_ok[OF d(2,3) _ _ _ d(7) cl(3) t cl(5,6)] by (elim meta_impE exE conjE)
  have pre1: "preempts_of d1 = statics_boot\<lparr>EOI_BASE := MMIO_WINDOW + EOI_OFFSET, APIC_TICKS := of_nat a\<rparr>"
    using d1(4) d(5) by (simp add: statics_boot_def)
  have "MMIO_WINDOW + EOI_OFFSET \<noteq> 0" "hw_stub hw \<noteq> 0" using sound by (simp_all add: MMIO_WINDOW_def EOI_OFFSET_def sound_machine_def)
  then show ?thesis
    using online_after_promotion[OF S d1(2) pre1 _ d1(3) _ cl(4,7,8) pl es, of sched_cfs] d(1) d1(1) by (simp add: kernel_main_def)
qed

end

section \<open>A stalled local APIC\<close>

lemma no_ticks_no_turn:
  assumes "\<forall>e\<in>set es. wait_ticks e = []" "ready s \<noteq> []" "APIC_TICKS (pre k) = last_tick dr"
  shows "drive_loop once es dr s k = Inr (Waiting dr s k)"
  using assms(1) by (induction es) (simp_all add: assms(2,3) alive_def)

lemma demo_waits:
  assumes S: "scheduler spawn once" and k: "kernel_ok [] k" "counter (world k) = (\<lambda>_. 0)" "\<not> woke (world k)"
    and pl: "places_ok places" and tick: "unat (APIC_TICKS (pre k)) + idle_ticks idle 5 + 20 < 2 ^ 64" and es: "\<forall>e\<in>set es. wait_ticks e = []"
  shows "demo spawn once sched_cfs places idle es k = Inr ''waiting for a tick''"
proof -
  obtain tick s4 k4 where 4: "demo_drive spawn once sched_cfs places idle es k = drive_loop once es (drive_start k4) s4 k4" "spawned places tick 4 s4 k4"
    using demo_spawns[OF S k pl tick, of sched_cfs es] by blast
  have "ready s4 \<noteq> []" using 4(2) by (simp add: spawned_def upt_rec)
  then have "drive_loop once es (drive_start k4) s4 k4 = Inr (Waiting (drive_start k4) s4 k4)"
    by (intro no_ticks_no_turn[OF es]) (simp_all add: drive_start_def)
  then show ?thesis using 4(1) by (simp add: demo_def demo_verdict_def)
qed

lemma watch_rolls_back:
  assumes "waiting api d" "unat (APIC_TICKS (preempts_of d)) + 20 < 2 ^ 64" "\<And>i. lapic_frames (env i) = []"
  shows "\<exists>d'. watch api env arrive d = Inr (False, d') \<and> waiting api d' \<and> preempts_of d' = preempts_of d \<and>
     \<not> bit (fst (read_masks api (PICS d'))) 0"
proof -
  obtain e where e: "ticked api d e" "waiting api e" "preempts_of e = preempts_of d"
     "watch api env arrive d = obind (rollback_to_pit api arrive e) (\<lambda>d. Inr (False, d))"
    using watch_stalls[where env = env and arrive = arrive and spins = 0 and last_apic = "APIC_TICKS (preempts_of d)", OF assms] by (auto simp: watch_def Let_def)
  have w: "pic_laws api" "\<not> PICS_taken e" using e(2) by (simp_all add: waiting_def)
  obtain d' where d': "run_pic_ops api arrive 0 rollback_ops (False, (0, 0), e) = Inr d'"
      "masks_changed api (\<lambda>(m0, m1). (m0 AND NOT 0x01, m1)) e d'" "preempts_of d' = preempts_of e"
    using critical_section[OF w, of arrive "\<lambda>(m0, m1). (m0 AND NOT 0x01, m1)"] unfolding rollback_ops_def by (elim exE conjE)
  note f = masks_changed_facts[OF w(1) d'(2)]
  have "\<not> bit (fst (read_masks api (PICS d'))) 0" by (simp add: f(3) case_prod_unfold bit_and_iff)
  then show ?thesis
    using e d'(1,3) f w by (intro exI[of _ d']) (simp add: rollback_to_pit_def waiting_def)
qed

lemma stalled_demo:
  assumes S: "scheduler spawn once" and w: "waiting api d" "preempts_of d = statics_boot\<lparr>EOI_BASE := e, APIC_TICKS := a\<rparr>" "e \<noteq> 0"
    and hw: "hw_stub hw \<noteq> 0" "\<And>i. lapic_frames (hw_watch hw i) = []" "lapic_frames (hw_settle hw) = []" "unat a + idle_ticks (hw_spawns hw) 5 + 20 < 2 ^ 64"
    and pl: "places_ok places" and es: "\<forall>e\<in>set es. wait_ticks e = []"
  shows "after_promotion spawn once sched_cfs places es api hw d = Inr ''waiting for a tick''"
proof -
  have a: "APIC_TICKS (preempts_of d) = a" and a20: "unat a + 20 < 2 ^ 64" using w(2) hw(4) by simp_all
  obtain d1 where d1: "watch api (hw_watch hw) (hw_rollback hw) d = Inr (False, d1)" "waiting api d1" "preempts_of d1 = preempts_of d"
    using watch_rolls_back[where env = "hw_watch hw" and arrive = "hw_rollback hw", OF w(1) _ hw(2)] a20 unfolding a by (elim meta_impE exE conjE)
  obtain d' where d': "elapse api (hw_settle hw) d1 = Inr d'" "waiting api d'" "preempts_of d' = preempts_of d1"
    using elapse_waiting[OF d1(2), of "hw_settle hw"] hw(3) by auto
  have fl: "if_flag d'" and pre: "preempts_of d' = statics_boot\<lparr>EOI_BASE := e, APIC_TICKS := a\<rparr>" using d'(2,3) d1(3) w(2) by (simp_all add: waiting_def)
  have "proof_block (hw_stub hw) d' = Inr ()" using pre w(3) hw(1) by (simp add: proof_block_def statics_boot_def)
  moreover have "demo spawn once sched_cfs places (hw_spawns hw) es (task_kernel d') = Inr ''waiting for a tick''"
    by (rule demo_waits[OF S task_kernel_ok[OF fl pre] _ _ pl _ es]) (use pre hw(4) in \<open>simp_all add: task_kernel_def kernel_boot_def\<close>)
  ultimately show ?thesis using d1(1) d'(1) by (simp add: after_promotion_def)
qed

section \<open>Any soak\<close>

text \<open>Interrupts that arrive at a bounded pace, so that no counter can run over within the spins of the guard.\<close>

definition paced :: "(nat \<Rightarrow> moment) \<Rightarrow> bool" where
  "paced env \<longleftrightarrow> (\<forall>i. pit_ticks (env i) \<le> 1000 \<and> length (lapic_frames (env i)) \<le> 1000)"

lemma soak_returns:
  assumes "waiting api d" "irq0_open api d" "paced env" "spins \<le> SOAK_SPIN_GUARD"
    and "unat last_pic \<le> unat (TIMER_TICKS d)" "unat last_apic \<le> unat (APIC_TICKS (preempts_of d))"
    and "unat (TIMER_TICKS d) \<le> 2 ^ 32 + 2000 * spins" "unat (APIC_TICKS (preempts_of d)) \<le> 2 ^ 32 + 2000 * spins"
  shows "\<exists>how d'. soak_loop api env spins last_pic last_apic d = Inr (how, d') \<and> ticked api d d' \<and> waiting api d'"
  using assms(1,2,4-8)
proof (induction "SOAK_SPIN_GUARD - spins" arbitrary: spins d last_pic last_apic rule: less_induct)
  case (less spins d last_pic last_apic)
  have pace: "pit_ticks (env i) \<le> 1000" "length (lapic_frames (env i)) \<le> 1000" for i using assms(3) by (simp_all add: paced_def)
  note pace2 = pace[of "2 * spins"] pace[of "2 * spins + 1"]
  let ?T = "pit_ticks (env (2 * spins)) + pit_ticks (env (2 * spins + 1))"
  let ?A = "length (lapic_frames (env (2 * spins))) + length (lapic_frames (env (2 * spins + 1)))"
  have "unat (TIMER_TICKS d) + ?T + 20 < 2 ^ 64" "unat (APIC_TICKS (preempts_of d)) + ?A + 20 < 2 ^ 64"
    using pace2 less.prems(3,6,7) by (simp_all add: SOAK_SPIN_GUARD_def)
  from soak_iteration[OF less.prems(1,2,4,5) this]
  obtain d' lp la where it: "ticked api d d'" "waiting api d'" "irq0_open api d'"
     "unat (TIMER_TICKS d') = unat (TIMER_TICKS d) + ?T" "unat (APIC_TICKS (preempts_of d')) = unat (APIC_TICKS (preempts_of d)) + ?A"
     "unat lp \<le> unat (TIMER_TICKS d')" "unat la \<le> unat (APIC_TICKS (preempts_of d'))"
     "soak_loop api env spins last_pic last_apic d =
       (let p = unat (TIMER_TICKS d) + pit_ticks (env (2 * spins)); a = unat (APIC_TICKS (preempts_of d)) + ?A in
        if 100 \<le> p \<and> 100 \<le> a then Inr (Dual_life, d') else if 100 \<le> p \<and> a = 0 then Inr (No_apic_irqs, d')
        else if 200 \<le> p \<and> a < 100 then Inr (Degraded, d') else if SOAK_SPIN_GUARD < spins + 1 then Inr (Stalled, d')
        else soak_loop api env (spins + 1) lp la d')"
    by (elim exE conjE)
  have "(\<exists>how. soak_loop api env spins last_pic last_apic d = Inr (how, d')) \<or>
      Suc spins \<le> SOAK_SPIN_GUARD \<and> soak_loop api env spins last_pic last_apic d = soak_loop api env (Suc spins) lp la d'"
    unfolding it(8) Let_def by (cases "SOAK_SPIN_GUARD < spins + 1") simp_all
  then show ?case
  proof (elim disjE conjE)
    assume "\<exists>how. soak_loop api env spins last_pic last_apic d = Inr (how, d')"
    then show ?thesis using it(1,2) by blast
  next
    assume n: "Suc spins \<le> SOAK_SPIN_GUARD" "soak_loop api env spins last_pic last_apic d = soak_loop api env (Suc spins) lp la d'"
    have "\<exists>how e. soak_loop api env (Suc spins) lp la d' = Inr (how, e) \<and> ticked api d' e \<and> waiting api e"
      using n(1) it(2-7) less.prems(6,7) pace2 by (intro less.hyps) simp_all
    then show ?thesis using n(2) ticked_trans[OF it(1)] by (elim exE conjE) simp
  qed
qed

text \<open>After a panic no interrupt is served any more.\<close>

lemma panic_is_final: "elapse api mo (panic_handler d) = Inr (panic_handler d)"
proof -
  have off: "\<not> if_flag (panic_handler d)" by (simp add: panic_handler_def Let_def)
  have "lapic_irqs api fs (panic_handler d) = Inr (panic_handler d)" for fs using off by (induction fs) simp_all
  then show ?thesis using off irq0s_closed[of api "panic_handler d"] by (simp add: elapse_def irq0_open_def)
qed

section \<open>Properties\<close>


text \<open>
  A concrete machine: sixteen megabytes, a megabyte of heap, one tick of each clock before every reading of a
  counter, and the interrupt controller of the earlier examples.
\<close>

definition example_crates :: "(u64 \<Rightarrow> (u64 \<times> page_flag set) option, 'a, (u8 \<times> u8) \<times> u8 list, descriptor list) crates" where
  "example_crates = \<lparr>c_paging = flat_paging, c_pic = logged_pic,
     c_gdt = \<lparr>gdt_new = [], gdt_append = (\<lambda>g d. (of_nat (8 * (length g + 1)), g @ [d]))\<rparr>\<rparr>"

definition both_tick :: "nat \<Rightarrow> moment" where
  "both_tick i = \<lparr>pit_ticks = 1, lapic_frames = [FullFrame_ZERO]\<rparr>"

definition example_machine :: "(u64 \<Rightarrow> (u64 \<times> page_flag set) option, (u8 \<times> u8) \<times> u8 list) hardware" where
  "example_machine = \<lparr>hw_pics = ((0, 0), []), hw_df_stack = 0xFFFF800000010000, hw_tss = 0xFFFF800000020000, hw_stub = 0xFFFF800000001000,
     hw_cpuid_edx = 0x200, hw_rdmsr = (\<lambda>_. 0xFEE00900), hw_rsdp = None, hw_phys_offset = Some PHYS_MEM_OFFSET,
     hw_regions = [\<lparr>r_start = 0x100000, r_end = 0x1000000, r_usable = True\<rparr>], hw_cr3 = 0x1000, hw_tables = (\<lambda>_ _ _. None), hw_lapic = (\<lambda>_ _. 0),
     hw_frame = FullFrame_ZERO, hw_boot = (\<lambda>_. \<lparr>pit_ticks = 1, lapic_frames = []\<rparr>), hw_windows = live_window, hw_soak = both_tick, hw_gate = both_tick 0, hw_promote = (\<lambda>_. 1),
     hw_watch = both_tick, hw_rollback = (\<lambda>_. 1), hw_settle = both_tick 0, hw_spawns = demo_idle\<rparr>"

lemma both_tick_counts: "arrived both_tick 0 n = n + 1" "lapic_count both_tick 0 n = n + 1"
  by (simp_all add: arrived_def lapic_count_def both_tick_def)

lemma example_sound: "sound_machine fa example_crates example_machine 0x100000"
proof -
  have last: "(HEAP_START + 0x100000 - 1) AND NOT 0xFFF = HEAP_START + 0xFF000" by (simp add: HEAP_START_def)
  have len: "length (page_range HEAP_START (HEAP_START + 0xFF000)) = 256" by (simp add: page_range_def HEAP_START_def)
  have frames: "map_frames [\<lparr>r_start = 0x100000, r_end = 0x1000000, r_usable = True\<rparr>] = [256..<4096]"
    by (simp add: map_frames_def cursor_frames_def align_up_def del: upt_rec_numeral)
  then have "phys_map [\<lparr>r_start = 0x100000, r_end = 0x1000000, r_usable = True\<rparr>]"
    by (simp add: phys_map_def del: upt_rec_numeral)
  moreover have "present (probe 0x200 (\<lambda>_. 0xFEE00900) None)" "enabled (probe 0x200 (\<lambda>_. 0xFEE00900) None)"
    by (simp_all add: probe_def Let_def)
  moreover have "df_stack_ok 0xFFFF800000010000" by (simp add: df_stack_ok_def canonical_def DF_STACK_SIZE_def)
  ultimately show ?thesis
    unfolding sound_machine_def last len
    using logged_pic_laws flat_paging_laws frames
    by (simp add: example_crates_def example_machine_def BOOTLOADER_CONFIG_def flat_paging_def del: upt_rec_numeral)
qed

lemma example_live: "clocks_live example_machine"
proof -
  have "calibrates live_window"
    using live_window_ok live_middle by (simp add: calibrates_def steady_def live_window_def)
  moreover have "dual_life 34 both_tick"
    unfolding dual_life_def both_tick_counts
    by (rule exI[of _ 49]) (simp add: undecided_def SOAK_SPIN_GUARD_def)
  moreover have "keeps_ticking both_tick"
    unfolding keeps_ticking_def both_tick_counts by (rule exI[of _ 99]) (simp add: SOAK_SPIN_GUARD_def)
  ultimately show ?thesis
    by (simp add: clocks_live_def example_machine_def early_quiet_def arrived_def both_tick_def[of 0] demo_idle_ticks)
qed






text \<open>
  C26. A local APIC that stalls after its promotion leaves the kernel waiting for ever: the watch rolls back to the PIT and unmasks IRQ0,
  and the kernel does not halt there but goes on into the demo. As the demo counts the interrupts of the local APIC alone, no number of
  further waits gives any task a turn, and none of the guards of the demo fires.
\<close>

theorem stalled_lapic_waits:
  assumes "waiting api d" "preempts_of d = statics_boot\<lparr>EOI_BASE := e, APIC_TICKS := a\<rparr>" "e \<noteq> 0" "unat a + idle_ticks (hw_spawns hw) 5 + 20 < 2 ^ 64"
    "hw_stub hw \<noteq> 0" "\<And>i. lapic_frames (hw_watch hw i) = []" "lapic_frames (hw_settle hw) = []" "places_ok places" "\<forall>e\<in>set es. wait_ticks e = []"
  shows "(\<exists>d'. watch api (hw_watch hw) (hw_rollback hw) d = Inr (False, d') \<and> irq0_open api d') \<and>
     after_promotion rr_spawn rr_schedule_once False places es api hw d = Inr ''waiting for a tick'' \<and>
     after_promotion cfs_spawn cfs_schedule_once True places es api hw d = Inr ''waiting for a tick''"
proof (intro conjI)
  have "APIC_TICKS (preempts_of d) = a" using assms(2) by simp
  then obtain d' where "watch api (hw_watch hw) (hw_rollback hw) d = Inr (False, d')" "waiting api d'" "\<not> bit (fst (read_masks api (PICS d'))) 0"
    using watch_rolls_back[where env = "hw_watch hw" and arrive = "hw_rollback hw", OF assms(1) _ assms(6)] assms(4) by auto
  then show "\<exists>d'. watch api (hw_watch hw) (hw_rollback hw) d = Inr (False, d') \<and> irq0_open api d'"
    by (auto simp: waiting_def irq0_open_def)
  show "after_promotion rr_spawn rr_schedule_once False places es api hw d = Inr ''waiting for a tick''"
    using stalled_demo[OF rr.scheduler_axioms assms(1-3,5-7,4,8,9)] .
  show "after_promotion cfs_spawn cfs_schedule_once True places es api hw d = Inr ''waiting for a tick''"
    using stalled_demo[OF cfs.scheduler_axioms assms(1-3,5-7,4,8,9)] .
qed

theorem stalled_lapic_waits_witness:
  "after_promotion rr_spawn rr_schedule_once False demo_places (replicate 1000 (demo_ev\<lparr>wait_ticks := []\<rparr>)) logged_pic
     (example_machine\<lparr>hw_watch := (\<lambda>_. \<lparr>pit_ticks = 1, lapic_frames = []\<rparr>), hw_settle := \<lparr>pit_ticks = 1, lapic_frames = []\<rparr>\<rparr>)
     (live_devices\<lparr>preempts_of := statics_boot\<lparr>EOI_BASE := 0xFFFFA000000000B0, APIC_TICKS := 100\<rparr>\<rparr>) = Inr ''waiting for a tick''"
proof -
  have "waiting logged_pic (live_devices\<lparr>preempts_of := statics_boot\<lparr>EOI_BASE := 0xFFFFA000000000B0, APIC_TICKS := 100\<rparr>\<rparr>)"
    using logged_pic_laws live_devices_facts(2,3) by (simp add: waiting_def irq0_open_def statics_boot_def)
  then show ?thesis
    by (intro stalled_lapic_waits[where e = "0xFFFFA000000000B0" and a = 100, THEN conjunct2, THEN conjunct1])
      (simp_all add: demo_places_ok example_machine_def demo_idle_ticks)
qed

end
