(* ===== verification/Xtask.thy ===== *)
theory Xtask
  imports Config
begin

text \<open>
  The host side, \<open>xtask/src/main.rs\<close>: reading the \<open>[qemu]\<close> section, building the kernel, making the disk image and starting
  QEMU. What the tool does to the outside is a log of actions; the answer of the outside to the last action of a log is an argument:
  \<open>None\<close> if the program could not be started, otherwise whether it succeeded. A panic, an error returned from
  \<open>main\<close> and \<open>process::exit\<close> are three different ends. Paths are strings with the separator of the host \<open>/\<close>.
\<close>

section \<open>The QEMU settings of xtask\<close>

fun qemu_cfg_lines :: "string \<Rightarrow> string \<Rightarrow> bool \<Rightarrow> string list \<Rightarrow> string" where
  "qemu_cfg_lines key fallback in_qemu [] = fallback"
| "qemu_cfg_lines key fallback in_qemu (raw # rest) =
     (let line = trim raw in
      if line = [] \<or> starts_with CHR ''#'' line then qemu_cfg_lines key fallback in_qemu rest
      else if starts_with CHR ''['' line then qemu_cfg_lines key fallback (line = ''[qemu]'') rest
      else if \<not> in_qemu then qemu_cfg_lines key fallback in_qemu rest
      else case split_once CHR ''='' (trim (before_char CHR ''#'' line)) of
             Some (k, v) \<Rightarrow>
               if trim k = key then trim_by (\<lambda>c. c = CHR 0x22) (trim v)
               else qemu_cfg_lines key fallback in_qemu rest
           | None \<Rightarrow> qemu_cfg_lines key fallback in_qemu rest)"

definition qemu_cfg :: "string option \<Rightarrow> string \<Rightarrow> string \<Rightarrow> string" where
  "qemu_cfg file key fallback =
     qemu_cfg_lines key fallback False (text_lines (case file of Some t \<Rightarrow> t | None \<Rightarrow> []))"

section \<open>Actions\<close>

datatype action = Run string "string list" | Make_image string string

type_synonym answers = "action list \<Rightarrow> bool option"

datatype 'a ending = Done 'a | Panicked string | Returned_error string | Exited nat

definition TARGET :: string where
  "TARGET = ''x86_64-unknown-none''"

definition usage :: "'a ending" where
  "usage = Exited 1"

definition join :: "string \<Rightarrow> string \<Rightarrow> string" where
  "join p q = p @ ''/'' @ q"

definition kernel_elf_path :: "bool \<Rightarrow> string" where
  "kernel_elf_path release =
     join (join (join ''target'' TARGET) (if release then ''release'' else ''debug'')) ''rustycore-kernel''"

definition image_path :: "bool \<Rightarrow> string" where
  "image_path release =
     join (join (join ''target'' TARGET) (if release then ''release'' else ''debug'')) ''rustycore-bios.img''"

definition build_kernel :: "answers \<Rightarrow> bool \<Rightarrow> action list \<Rightarrow> unit ending \<times> action list" where
  "build_kernel answer release log =
     (let cmd = [''build'', ''-p'', ''rustycore-kernel''] @ [''--target'', TARGET] @ (if release then [''--release''] else []);
          log = log @ [Run ''cargo'' cmd] in
      (case answer log of
         None \<Rightarrow> Panicked ''failed to run cargo build''
       | Some success \<Rightarrow> if success then Done () else Panicked ''kernel build failed'', log))"

definition build_image :: "answers \<Rightarrow> bool \<Rightarrow> action list \<Rightarrow> string ending \<times> action list" where
  "build_image answer release log =
     (case build_kernel answer release log of
        (Done _, log) \<Rightarrow>
          let kernel = kernel_elf_path release; img = image_path release; log = log @ [Make_image kernel img] in
          (if answer log = Some True then Done img else Returned_error ''failed to build BIOS disk image'', log)
      | (Panicked e, log) \<Rightarrow> (Panicked e, log)
      | (Returned_error e, log) \<Rightarrow> (Returned_error e, log)
      | (Exited n, log) \<Rightarrow> (Exited n, log))"

text \<open>\<open>str::split_whitespace\<close>, with the word read so far.\<close>

fun split_whitespace_from :: "string \<Rightarrow> string \<Rightarrow> string list" where
  "split_whitespace_from w [] = (if w = [] then [] else [w])"
| "split_whitespace_from w (c # cs) =
     (if white c then (if w = [] then [] else [w]) @ split_whitespace_from [] cs
      else split_whitespace_from (w @ [c]) cs)"

definition split_whitespace :: "string \<Rightarrow> string list" where
  "split_whitespace s = split_whitespace_from [] s"

definition qemu_args :: "string option \<Rightarrow> string \<Rightarrow> string list" where
  "qemu_args file img =
     (let machine = qemu_cfg file ''machine'' ''q35'';
          memory = qemu_cfg file ''memory'' ''512M'';
          smp = qemu_cfg file ''smp'' ''2'';
          display = qemu_cfg file ''display'' ''none'';
          extra = split_whitespace (qemu_cfg file ''extra_args'' ''-no-reboot -no-shutdown'') in
      [''-machine'', machine, ''-cpu'', ''max'', ''-m'', memory, ''-smp'', smp, ''-nographic'', ''-display'', display,
       ''-drive'', ''format=raw,file='' @ img] @ extra)"

definition run_qemu :: "answers \<Rightarrow> string option \<Rightarrow> bool \<Rightarrow> action list \<Rightarrow> unit ending \<times> action list" where
  "run_qemu answer file release log =
     (case build_image answer release log of
        (Done img, log) \<Rightarrow>
          let log = log @ [Run ''qemu-system-x86_64'' (qemu_args file img)] in
          (case answer log of None \<Rightarrow> Panicked ''failed to launch qemu-system-x86_64'' | Some _ \<Rightarrow> Done (), log)
      | (Panicked e, log) \<Rightarrow> (Panicked e, log)
      | (Returned_error e, log) \<Rightarrow> (Returned_error e, log)
      | (Exited n, log) \<Rightarrow> (Exited n, log))"

definition xtask_main :: "answers \<Rightarrow> string option \<Rightarrow> string list \<Rightarrow> unit ending \<times> action list" where
  "xtask_main answer file args =
     (case args of
        [] \<Rightarrow> (usage, [])
      | sub # rest \<Rightarrow>
          let release = (''--release'' \<in> set rest) in
          if sub = ''build'' then build_kernel answer release []
          else if sub = ''image'' then
            (case build_image answer release [] of
               (Done _, log) \<Rightarrow> (Done (), log)
             | (Panicked e, log) \<Rightarrow> (Panicked e, log)
             | (Returned_error e, log) \<Rightarrow> (Returned_error e, log)
             | (Exited n, log) \<Rightarrow> (Exited n, log))
          else if sub = ''run-qemu'' then run_qemu answer file release []
          else (usage, []))"

section \<open>The plan of a subcommand\<close>

text \<open>
  The specification: a subcommand stands for a list of actions, each of them with the ending it has when the outside refuses it.
  They are done in order up to the first refusal.
\<close>

type_synonym planned = "action \<times> (bool option \<Rightarrow> unit ending option)"

fun follow :: "answers \<Rightarrow> action list \<Rightarrow> planned list \<Rightarrow> unit ending \<times> action list" where
  "follow answer log [] = (Done (), log)"
| "follow answer log ((a, refused) # plan) =
     (case refused (answer (log @ [a])) of
        Some e \<Rightarrow> (e, log @ [a])
      | None \<Rightarrow> follow answer (log @ [a]) plan)"

definition cargo_step :: "bool \<Rightarrow> planned" where
  "cargo_step release =
     (Run ''cargo'' ([''build'', ''-p'', ''rustycore-kernel'', ''--target'', ''x86_64-unknown-none''] @ (if release then [''--release''] else [])),
      \<lambda>r. case r of None \<Rightarrow> Some (Panicked ''failed to run cargo build'')
          | Some False \<Rightarrow> Some (Panicked ''kernel build failed'') | Some True \<Rightarrow> None)"

definition image_step :: "bool \<Rightarrow> planned" where
  "image_step release =
     (Make_image (kernel_elf_path release) (image_path release),
      \<lambda>r. if r = Some True then None else Some (Returned_error ''failed to build BIOS disk image''))"

definition qemu_step :: "string option \<Rightarrow> bool \<Rightarrow> planned" where
  "qemu_step file release =
     (Run ''qemu-system-x86_64'' (qemu_args file (image_path release)),
      \<lambda>r. if r = None then Some (Panicked ''failed to launch qemu-system-x86_64'') else None)"

definition plan_of :: "string option \<Rightarrow> string \<Rightarrow> bool \<Rightarrow> planned list option" where
  "plan_of file sub release =
     (if sub = ''build'' then Some [cargo_step release]
      else if sub = ''image'' then Some [cargo_step release, image_step release]
      else if sub = ''run-qemu'' then Some [cargo_step release, image_step release, qemu_step file release]
      else None)"

lemma build_kernel_eq: "build_kernel answer release log = follow answer log [cargo_step release]"
  by (simp add: build_kernel_def cargo_step_def TARGET_def Let_def split: option.splits bool.splits)

lemma build_image_eq: "build_image answer release log =
    (case follow answer log [cargo_step release, image_step release] of
       (Done _, l) \<Rightarrow> (Done (image_path release), l) | (Panicked e, l) \<Rightarrow> (Panicked e, l)
     | (Returned_error e, l) \<Rightarrow> (Returned_error e, l) | (Exited n, l) \<Rightarrow> (Exited n, l))"
  by (simp add: build_image_def build_kernel_eq cargo_step_def image_step_def Let_def split: option.splits bool.splits)

lemma run_qemu_eq: "run_qemu answer file release log =
    follow answer log [cargo_step release, image_step release, qemu_step file release]"
  by (simp add: run_qemu_def build_image_eq cargo_step_def image_step_def qemu_step_def Let_def split: option.splits bool.splits)

lemma shipped_qemu_cfg:
  "qemu_cfg (Some shipped_config) ''machine'' d = ''q35''" "qemu_cfg (Some shipped_config) ''memory'' d = ''512M''"
  "qemu_cfg (Some shipped_config) ''smp'' d = ''2''" "qemu_cfg (Some shipped_config) ''display'' d = ''none''"
  "qemu_cfg (Some shipped_config) ''extra_args'' d = ''-no-reboot -no-shutdown''"
  by (simp_all add: qemu_cfg_def shipped_lines, code_simp+)

lemma shipped_qemu_args:
  "qemu_args (Some shipped_config) img =
     [''-machine'', ''q35'', ''-cpu'', ''max'', ''-m'', ''512M'', ''-smp'', ''2'', ''-nographic'', ''-display'', ''none'',
      ''-drive'', ''format=raw,file='' @ img, ''-no-reboot'', ''-no-shutdown'']"
proof -
  have "split_whitespace ''-no-reboot -no-shutdown'' = [''-no-reboot'', ''-no-shutdown'']" by code_simp
  then show ?thesis by (simp add: qemu_args_def shipped_qemu_cfg)
qed

section \<open>Properties\<close>


end
