(* ===== verification/Spec2Isabelle.thy ===== *)
theory Spec2Isabelle
  imports Boot Xtask
begin

text \<open>
  RustyCore is a small x86-64 kernel for one processor: \<open>kernel/src/main.rs\<close> brings up the serial port, the descriptor tables, the
  interrupt controllers, memory and the local APIC, hands the clock from the PIT to the local APIC, and then runs four tasks
  under one of two schedulers with a preempting timer. This development models that program from the source and proves
  that its parts do what they are for and that they fit together.

  \<^bold>\<open>How the program is modelled.\<close> A machine integer is a word of its width, and the arithmetic of the source keeps its overflow
  checks. A panic, a failed assertion and a deadlock on a spin lock are the left side of \<open>outcome\<close>; a Rust \<open>Result\<close> is a sum with a
  string; state is a record that each operation returns updated. Boxed tasks live in an explicit store, the naked routines are
  instruction lists for a small machine. Loops are recursive functions with termination proofs. The one loop that may not end,
  the polling of the serial port, is a partial function to \<open>option\<close>; a wait for interrupts in the demo consumes a list of events
  and may end in the value \<open>Waiting\<close>. What arrives from outside, interrupts above all, is an argument: a sequence of moments for a busy loop,
  a number of ticks between two atomic steps, lists of frames for a turn.

  \<^bold>\<open>The theories\<close>, in the order in which they build on each other:
  \<^item> \<open>Prelude\<close>: words, \<open>outcome\<close>, the operations of the core library.
  \<^item> \<open>Frames\<close>: the memory map and the locale \<open>frame_allocator\<close>, the contract of \<open>allocate_frame\<close>. \<open>Bump\<close> and \<open>Buddy\<close>
    (\<open>memory/bump.rs\<close>, \<open>memory/buddy.rs\<close>) model the two allocators and interpret it; \<open>Activate\<close> shows what the carving loop of
    \<open>activate\<close> leaves. \<open>Memory\<close> (\<open>memory.rs\<close>, \<open>memory/heap.rs\<close>) models the summary, the self tests, the mapping of heap and device
    window and \<open>memory::init\<close>, for any paging layer with the documented behaviour (\<open>paging_laws\<close>) and for either allocator: the locale
    \<open>memory_policy\<close> takes the contract twice, while the heap is mapped and afterwards, and is interpreted for both.
  \<^item> \<open>Config\<close> (\<open>build.rs\<close>, the constant parsers, the compile errors on the Cargo features, and the shipped \<open>kernel_config.toml\<close>); \<open>compile_kernel\<close> is what
    they make of a configuration together. \<open>Xtask\<close> (\<open>xtask/src/main.rs\<close>): the launcher as a log of the programs it starts.
  \<^item> \<open>Preempt\<close> (\<open>preempt.rs\<close>): the frame table, the fence and the slots, the effect \<open>stub_effect\<close> of a timer interrupt on them, and the step
    relation \<open>table_step\<close>. \<open>X86\<close> is the machine of the naked routines; \<open>Stub\<close> has \<open>lapic_preempt_stub\<close> instruction
    by instruction and shows that it has that effect; \<open>Switch\<close> has \<open>context_switch\<close>, the trampoline and \<open>init_task_context\<close> of \<open>task.rs\<close>.
  \<^item> \<open>Task\<close> (\<open>task.rs\<close>): stacks with canaries, construction, the slot table, one turn of a task. \<open>Scheduler\<close>: the locale \<open>scheduler\<close>,
    the contract of the trait, with what the driver of the demo gets from it; \<open>Round_Robin\<close> and \<open>Cfs\<close> interpret it. \<open>Demo\<close> is the
    last block of \<open>kernel_main\<close>, and \<open>Cfs_Order\<close> computes the order in which its tasks finish under \<open>Cfs\<close>, by refining the policy to
    a plan on virtual runtimes; \<open>Task_Properties\<close> states the properties of all of these.
  \<^item> \<open>Serial\<close> (\<open>serial.rs\<close>): the driver and the print macros; \<open>Devices\<close> and \<open>Interrupts\<close> (\<open>interrupts.rs\<close>, \<open>idt.rs\<close>, \<open>timer.rs\<close>, \<open>syscall.rs\<close>): counters, PIC, vectors, handlers,
    and the passing of time; \<open>Apic\<close> (\<open>apic.rs\<close>); \<open>Gdt\<close> (\<open>gdt.rs\<close>).
  \<^item> \<open>Boot\<close>: \<open>kernel_main\<close> and the panic handler, composed of the above.

  \<^bold>\<open>What is shown.\<close> Memory: any run of requests hands out distinct free frames, allocating and freeing is the identity, \<open>activate\<close> conserves
  the frames, freeing panics exactly on its three assertions, and \<open>memory::init\<close> boots on every sound map. Interrupts: the
  stub is transparent to the interrupted code; every expected vector is acknowledged exactly once at its controller; the table of frames
  stays well formed under every interleaving. Tasks: a switch resumes what was suspended, a turn runs one step and touches only
  its own task, an overwritten canary stops the task, both policies pick and charge as designed, share fairly and keep the
  invariant in every reachable state, and the demo ends with a fair ledger, under CFS with the heavy task ahead of the others. Clocks: the calibration ends and takes the middle of three
  windows, the promotion cannot deadlock and is undone by the rollback, IRQ0 is given up only for a clock that was seen running.
  Configuration: sizes survive the way from the file into the constants, the build stops on a configuration
  that disagrees with the features, and the shipped one fits. The launcher follows the plan of its subcommand and starts QEMU only on an
  image of a kernel that was built. Together: on a sound machine \<open>kernel_main\<close> reaches its last line, with either allocator and either policy, and
  so does the kernel that the shipped configuration compiles to.
  Some lemmas show behaviour that the comments of the source do not: the stack pointer the stub stores, sizes with a trailing B,
  the bounds of a free slot, and the wait without end after a rollback.

  \<^bold>\<open>Bounds.\<close> The guards \<open>SPIN_GUARD\<close> and \<open>SOAK_SPIN_GUARD\<close> are those of the source, and bound the recursion; their spin counters
  are natural numbers, as they stay far below the range of a word. The theorems on whole loops bound the
  interrupts per moment or in all (\<open>paced\<close>, \<open>clocks_live\<close>) where a 64-bit tick counter could otherwise run over. The demo needs at most 36 waits: sixteen
  turns and the twenty ticks of the nap.

  \<^bold>\<open>Parameters.\<close> The crates outside the repository are records of functions with named laws: paging (\<open>paging_api\<close>), the PIC pair (\<open>pic_api\<close>),
  the descriptor table (\<open>gdt_api\<close>). CPUID, the MSR, register reads, CR3 with the page tables it names, the addresses of statics and of heap blocks are
  arguments; so are the answers of cargo, of the image builder of the \<open>bootloader\<close> crate and of QEMU to the launcher.

  \<^bold>\<open>Not modelled.\<close> The text of log lines and the rendering of values in \<open>core::fmt\<close>, beyond the verdicts that end the kernel: a print outside \<open>Serial\<close> has
  no step of its own. What cargo, the image builder and QEMU do, as they are other programs; \<open>linked_list_allocator\<close>, of which only the range it is given and the
  blocks it returns appear. Loading the descriptor tables is the
  moment from which their constants apply. Caches, the timing of instructions and memory ordering, as the kernel runs on one processor.
  Interrupts between the statements of a handler or of a component's initialisation, other than in its loops and critical sections.
\<close>

section \<open>Properties that span components\<close>



end
